(* ===== verification/Prelude.thy ===== *)
theory Prelude
  imports Main "HOL-Library.Word" "HOL-Library.List_Lexorder" "HOL-Library.AList"
    "HOL-Library.Sublist"
begin

text \<open>
  Shared vocabulary of the development: the byte and key types, the error type every fallible
  operation of the engine returns its exceptions in, the sequencing of fallible operations, and
  the collections of rewrite rules the component theories extend.
\<close>

unbundle bit_operations_syntax

section \<open>Types\<close>

type_synonym byte = "8 word"
type_synonym bytes = "byte list"
type_synonym u32 = "32 word"
type_synonym u64 = "64 word"

text \<open>
  An exception of the engine is a value. The constructors are the exception classes the source
  throws: \<^verbatim>\<open>std::runtime_error\<close>, \<^verbatim>\<open>std::invalid_argument\<close>, \<^verbatim>\<open>std::logic_error\<close>,
  \<^verbatim>\<open>std::system_error\<close> (with \<^term>\<open>True\<close> when its code is \<^verbatim>\<open>io_error\<close>), and the engine's own classes.
\<close>

datatype error =
    RuntimeError string
  | InvalidArgument string
  | LogicError string
  | SystemError bool string
  | DbDegraded string
  | DbFollowerMode
  | DbClosed
  | DbChangeMarkerMismatch
  | SequenceOverlap nat nat
  | Panic string

type_synonym 'a result = "error + 'a"

section \<open>Sequencing of fallible operations\<close>

definition rbind :: "'a result \<Rightarrow> ('a \<Rightarrow> 'b result) \<Rightarrow> 'b result" where
  "rbind m f = (case m of Inl e \<Rightarrow> Inl e | Inr x \<Rightarrow> f x)"

definition guard :: "bool \<Rightarrow> error \<Rightarrow> unit result" where
  "guard b e = (if b then Inr () else Inl e)"

fun rfold :: "('a \<Rightarrow> 's \<Rightarrow> 's result) \<Rightarrow> 'a list \<Rightarrow> 's \<Rightarrow> 's result" where
  "rfold f [] s = Inr s"
| "rfold f (x # xs) s = rbind (f x s) (rfold f xs)"

fun rmap :: "('a \<Rightarrow> 'b result) \<Rightarrow> 'a list \<Rightarrow> 'b list result" where
  "rmap f [] = Inr []"
| "rmap f (x # xs) = rbind (f x) (\<lambda>y. rbind (rmap f xs) (\<lambda>ys. Inr (y # ys)))"

named_theorems result_simps \<open>unfolding of fallible code\<close>

lemma rbind_simps [simp, result_simps]:
  "rbind (Inl e) f = Inl e"
  "rbind (Inr x) f = f x"
  by (simp_all add: rbind_def)

lemma rbind_Inr_iff [result_simps]:
  "rbind m f = Inr y \<longleftrightarrow> (\<exists>x. m = Inr x \<and> f x = Inr y)"
  by (cases m) simp_all

lemma rbind_Inl_iff [result_simps]:
  "rbind m f = Inl e \<longleftrightarrow> m = Inl e \<or> (\<exists>x. m = Inr x \<and> f x = Inl e)"
  by (cases m) simp_all

lemma rbind_cong [fundef_cong]:
  "m = m' \<Longrightarrow> (\<And>x. m' = Inr x \<Longrightarrow> f x = f' x) \<Longrightarrow> rbind m f = rbind m' f'"
  by (cases m') simp_all

lemma guard_iff [simp, result_simps]:
  "guard b e = Inr u \<longleftrightarrow> b"
  "guard b e = Inl e' \<longleftrightarrow> \<not> b \<and> e' = e"
  by (auto simp: guard_def)

lemma rbind_guard [simp]:
  "rbind (guard b e) f = (if b then f () else Inl e)"
  by (simp add: guard_def)

lemma rfold_append [simp]:
  "rfold f (xs @ ys) s = rbind (rfold f xs s) (rfold f ys)"
proof (induction xs arbitrary: s)
  case (Cons x xs)
  then show ?case by (cases "f x s") simp_all
qed simp

text \<open>An invariant every step of a fallible loop keeps holds after the loop.\<close>

lemma rfold_invariant:
  assumes "rfold f xs s = Inr s'" and "P s"
    and step: "\<And>x s s'. x \<in> set xs \<Longrightarrow> P s \<Longrightarrow> f x s = Inr s' \<Longrightarrow> P s'"
  shows "P s'"
  using assms
proof (induction xs arbitrary: s)
  case (Cons x xs)
  from Cons.prems(1) obtain t where "f x s = Inr t" and "rfold f xs t = Inr s'"
    by (auto simp: result_simps)
  moreover have "P t"
    using Cons.prems(3)[of x s t] Cons.prems(2) \<open>f x s = Inr t\<close> by simp
  ultimately show ?case
    using Cons.IH[of t] Cons.prems(3) by (meson list.set_intros(2))
qed simp

text \<open>A loop whose steps never fail is an ordinary fold.\<close>

lemma rfold_Inr:
  assumes "\<And>x s. x \<in> set xs \<Longrightarrow> f x s = Inr (g x s)"
  shows "rfold f xs s = Inr (fold g xs s)"
  using assms by (induction xs arbitrary: s) simp_all

lemma rmap_length: "rmap f xs = Inr ys \<Longrightarrow> length ys = length xs"
  by (induction xs arbitrary: ys) (auto simp: result_simps)

section \<open>Numbers\<close>

text \<open>\<^verbatim>\<open>narrow<To>(v)\<close>: the value when it fits in \<^term>\<open>w\<close> bits, an exception otherwise.\<close>

definition narrow :: "nat \<Rightarrow> nat \<Rightarrow> nat result" where
  "narrow w v = (if v < 2 ^ w then Inr v
     else Inl (RuntimeError ''narrowing conversion out of range''))"

lemma narrow_iff [simp, result_simps]:
  "narrow w v = Inr v' \<longleftrightarrow> v < 2 ^ w \<and> v' = v"
  by (auto simp: narrow_def)

lemma narrow_le [simp]: "v < 2 ^ w \<Longrightarrow> narrow w v = Inr v"
  by (simp add: narrow_def)

text \<open>A number below a power of two has no bits from there on.\<close>

lemma bit_of_nat_beyond:
  fixes n :: nat
  assumes "n < 2 ^ m" and "m \<le> k"
  shows "\<not> bit n k"
proof -
  have "n < 2 ^ k"
    using assms by (meson less_le_trans one_le_numeral power_increasing)
  then show ?thesis by (simp add: bit_iff_odd)
qed

lemma map_fst_update_new:
  "k \<notin> fst ` set al \<Longrightarrow> AList.update k v al = al @ [(k, v)]"
  by (induction al) auto

end
