(* ===== verification/PatchMap.thy ===== *)
theory PatchMap
  imports Prelude
begin

text \<open>
  \<^verbatim>\<open>PersistentPatchMap\<close> (\<^verbatim>\<open>patch_map.cppm\<close>), the map behind the per-file statistics: a base map
  under a chain of patch runs, newest first. A write is folded into the transient's pending
  patches; freezing pushes them as a run or, when the chain is full, squashes every run into the
  base. The delta policy is an interface (the locale \<^verbatim>\<open>patch_policy\<close>); the statistics interpret it.
\<close>

datatype ('v, 'd) patch = PSet 'v | PErased | PDelta 'd

type_synonym ('v, 'd) entries = "(nat \<times> ('v, 'd) patch) list"

record ('v, 'd) transient_map =
  tm_base :: "(nat \<times> 'v) list"
  tm_runs :: "('v, 'd) entries list"
  tm_pending :: "('v, 'd) entries"
  tm_last :: nat

record ('v, 'd) persistent_map =
  pm_base :: "(nat \<times> 'v) list"
  pm_runs :: "('v, 'd) entries list"

fun fold_patch ::
  "('d \<Rightarrow> 'v \<Rightarrow> 'v) \<Rightarrow> ('d \<Rightarrow> 'd \<Rightarrow> 'd) \<Rightarrow> ('v, 'd) patch \<Rightarrow> ('v, 'd) patch \<Rightarrow> ('v, 'd) patch" where
  "fold_patch app com older (PSet v) = PSet v"
| "fold_patch app com older PErased = PErased"
| "fold_patch app com (PSet v) (PDelta d) = PSet (app d v)"
| "fold_patch app com (PDelta od) (PDelta d) = PDelta (com od d)"
| "fold_patch app com PErased (PDelta d) = PErased"

text \<open>
  The walk of \<^verbatim>\<open>lookup\<close>: the deltas met, newest first, until a set or an erase decides. The
  argument is the pending patches, if any, followed by the runs.
\<close>

fun walk :: "('v, 'd) entries list \<Rightarrow> nat \<Rightarrow> 'd list \<Rightarrow> ('v, 'd) patch option \<times> 'd list" where
  "walk [] k ds = (None, ds)"
| "walk (es # rest) k ds =
    (case map_of es k of
       None \<Rightarrow> walk rest k ds
     | Some (PDelta d) \<Rightarrow> walk rest k (ds @ [d])
     | Some p \<Rightarrow> (Some p, ds))"

definition lookup ::
  "('d \<Rightarrow> 'v \<Rightarrow> 'v) \<Rightarrow> (nat \<times> 'v) list \<Rightarrow> ('v, 'd) entries list \<Rightarrow> nat \<Rightarrow> 'v option" where
  "lookup app base runs k =
    (case walk runs k [] of (decided, ds) \<Rightarrow>
      let v = (case decided of
                 Some (PSet v) \<Rightarrow> Some v
               | Some _ \<Rightarrow> None
               | None \<Rightarrow> map_of base k)
      in map_option (\<lambda>v. fold app (rev ds) v) v)"

definition pm_get :: "('d \<Rightarrow> 'v \<Rightarrow> 'v) \<Rightarrow> ('v, 'd) persistent_map \<Rightarrow> nat \<Rightarrow> 'v option" where
  "pm_get app m k = lookup app (pm_base m) (pm_runs m) k"

definition tm_get :: "('d \<Rightarrow> 'v \<Rightarrow> 'v) \<Rightarrow> ('v, 'd) transient_map \<Rightarrow> nat \<Rightarrow> 'v option" where
  "tm_get app m k = lookup app (tm_base m) (tm_pending m # tm_runs m) k"

definition pm_transient :: "('v, 'd) persistent_map \<Rightarrow> ('v, 'd) transient_map" where
  "pm_transient m = \<lparr>tm_base = pm_base m, tm_runs = pm_runs m, tm_pending = [], tm_last = 0\<rparr>"

text \<open>\<^verbatim>\<open>record\<close>: into the slot last written when it is the key's, else by binary search.\<close>

fun insert_entry ::
  "('d \<Rightarrow> 'v \<Rightarrow> 'v) \<Rightarrow> ('d \<Rightarrow> 'd \<Rightarrow> 'd) \<Rightarrow> nat \<Rightarrow> ('v, 'd) patch \<Rightarrow> ('v, 'd) entries \<Rightarrow>
   ('v, 'd) entries \<times> nat" where
  "insert_entry app com k p [] = ([(k, p)], 0)"
| "insert_entry app com k p ((k', p') # es) =
    (if k < k' then ((k, p) # (k', p') # es, 0)
     else if k = k' then ((k', fold_patch app com p' p) # es, 0)
     else case insert_entry app com k p es of (es', i) \<Rightarrow> ((k', p') # es', Suc i))"

definition tm_record ::
  "('d \<Rightarrow> 'v \<Rightarrow> 'v) \<Rightarrow> ('d \<Rightarrow> 'd \<Rightarrow> 'd) \<Rightarrow> nat \<Rightarrow> ('v, 'd) patch \<Rightarrow> ('v, 'd) transient_map \<Rightarrow>
   ('v, 'd) transient_map" where
  "tm_record app com k p m =
    (let es = tm_pending m; i = tm_last m in
     if i < length es \<and> fst (es ! i) = k then
       m\<lparr>tm_pending := es[i := (k, fold_patch app com (snd (es ! i)) p)]\<rparr>
     else case insert_entry app com k p es of (es', j) \<Rightarrow>
       m\<lparr>tm_pending := es', tm_last := j\<rparr>)"

definition base_step :: "('d \<Rightarrow> 'v \<Rightarrow> 'v) \<Rightarrow> nat \<times> ('v, 'd) patch \<Rightarrow> (nat \<times> 'v) list \<Rightarrow> (nat \<times> 'v) list" where
  "base_step app e base = (case e of (k, p) \<Rightarrow>
    (case p of
       PSet v \<Rightarrow> AList.update k v base
     | PDelta d \<Rightarrow> (case map_of base k of None \<Rightarrow> base | Some v \<Rightarrow> AList.update k (app d v) base)
     | PErased \<Rightarrow> AList.delete k base))"

definition tm_persistent ::
  "('d \<Rightarrow> 'v \<Rightarrow> 'v) \<Rightarrow> nat \<Rightarrow> ('v, 'd) transient_map \<Rightarrow> ('v, 'd) persistent_map" where
  "tm_persistent app max_depth m =
    (if tm_pending m = [] then \<lparr>pm_base = tm_base m, pm_runs = tm_runs m\<rparr>
     else if length (tm_runs m) < max_depth then
       \<lparr>pm_base = tm_base m, pm_runs = tm_pending m # tm_runs m\<rparr>
     else \<lparr>pm_base = fold (\<lambda>es b. fold (base_step app) es b) (rev (tm_runs m) @ [tm_pending m]) (tm_base m),
           pm_runs = []\<rparr>)"

section \<open>What the operations mean\<close>

text \<open>A patch as a function on the value under it.\<close>

fun patch_fun :: "('d \<Rightarrow> 'v \<Rightarrow> 'v) \<Rightarrow> ('v, 'd) patch \<Rightarrow> 'v option \<Rightarrow> 'v option" where
  "patch_fun app (PSet v) x = Some v"
| "patch_fun app PErased x = None"
| "patch_fun app (PDelta d) x = map_option (app d) x"

definition run_fun :: "('d \<Rightarrow> 'v \<Rightarrow> 'v) \<Rightarrow> nat \<Rightarrow> ('v, 'd) entries \<Rightarrow> 'v option \<Rightarrow> 'v option" where
  "run_fun app k es x = (case map_of es k of None \<Rightarrow> x | Some p \<Rightarrow> patch_fun app p x)"

definition entries_wf :: "('v, 'd) entries \<Rightarrow> bool" where
  "entries_wf es \<longleftrightarrow> sorted_wrt (<) (map fst es)"

definition tm_wf :: "('v, 'd) transient_map \<Rightarrow> bool" where
  "tm_wf m \<longleftrightarrow> entries_wf (tm_pending m) \<and> (\<forall>es \<in> set (tm_runs m). entries_wf es)"

definition pm_wf :: "('v, 'd) persistent_map \<Rightarrow> bool" where
  "pm_wf m \<longleftrightarrow> (\<forall>es \<in> set (pm_runs m). entries_wf es)"

fun decided_value :: "('v, 'd) patch option \<Rightarrow> 'v option \<Rightarrow> 'v option" where
  "decided_value (Some (PSet v)) b = Some v"
| "decided_value (Some p) b = None"
| "decided_value None b = b"

lemma walk_meaning:
  "(case walk runs k ds of (decided, ds') \<Rightarrow> map_option (fold app (rev ds')) (decided_value decided b))
   = map_option (fold app (rev ds)) (foldr (run_fun app k) runs b)"
proof (induction runs k ds rule: walk.induct)
  case (2 es rest k ds)
  show ?case
  proof (cases "map_of es k")
    case (Some p)
    with 2 show ?thesis
      by (cases p) (auto simp: run_fun_def option.map_comp comp_def)
  qed (use 2 in \<open>simp add: run_fun_def\<close>)
qed simp

text \<open>A lookup is the base value under the runs, oldest first.\<close>

lemma lookup_eq:
  fixes base :: "(nat \<times> 'v) list" and runs :: "('v, 'd) entries list"
  shows "lookup app base runs k = foldr (run_fun app k) runs (map_of base k)"
proof -
  have "(case d of Some (PSet v) \<Rightarrow> Some v | Some _ \<Rightarrow> None | None \<Rightarrow> b) = decided_value d b"
    for d :: "('v, 'd) patch option" and b
    by (cases d) (simp_all split: patch.splits)
  then show ?thesis
    using walk_meaning[where ds = "[]" and b = "map_of base k" and runs = runs and app = app and k = k]
    by (simp add: lookup_def option.map_id0 split: prod.splits)
qed

lemma run_fun_Cons [simp]:
  "run_fun app j ((k, p) # es) x = (if j = k then patch_fun app p x else run_fun app j es x)"
  by (simp add: run_fun_def)

lemma run_fun_other [simp]: "map_of es k = None \<Longrightarrow> run_fun app k es x = x"
  by (simp add: run_fun_def)

lemma entries_wf_Cons [simp]:
  "entries_wf ((k, p) # es) \<longleftrightarrow> (\<forall>j \<in> fst ` set es. k < j) \<and> entries_wf es"
  "entries_wf []"
  by (simp_all add: entries_wf_def)

lemma entries_wf_head: "entries_wf ((k, p) # es) \<Longrightarrow> j \<le> k \<Longrightarrow> map_of es j = None"
  by (force simp: map_of_eq_None_iff)

locale patch_policy =
  fixes app :: "'d \<Rightarrow> 'v \<Rightarrow> 'v" and com :: "'d \<Rightarrow> 'd \<Rightarrow> 'd"
  assumes app_com: "app (com d1 d2) v = app d2 (app d1 v)"
begin

lemma fold_patch_fun: "patch_fun app (fold_patch app com p q) x = patch_fun app q (patch_fun app p x)"
  by (cases p; cases q; cases x) (simp_all add: app_com)

lemma insert_entry_keys:
  "fst ` set (fst (insert_entry app com k p es)) = insert k (fst ` set es)"
  by (induction app com k p es rule: insert_entry.induct) (simp_all add: case_prod_unfold insert_commute)

lemma insert_entry_wf:
  "entries_wf es \<Longrightarrow> entries_wf (fst (insert_entry app com k p es))"
proof (induction es)
  case (Cons e es)
  obtain k' p' where e: "e = (k', p')" by fastforce
  show ?case
    using Cons insert_entry_keys[of k p es]
    by (simp add: e case_prod_unfold) force
qed simp

lemma insert_entry_fun:
  assumes "entries_wf es"
  shows "run_fun app j (fst (insert_entry app com k p es)) x =
    (if j = k then patch_fun app p (run_fun app k es x) else run_fun app j es x)"
  using assms
proof (induction es)
  case (Cons e es)
  obtain k' p' where e: "e = (k', p')" by fastforce
  have "map_of es k = None" if "k < k'"
    using entries_wf_head[of k' p' es k] Cons.prems that by (simp add: e)
  with Cons show ?case
    by (auto simp: e fold_patch_fun case_prod_unfold)
qed (simp add: run_fun_def)

lemma update_at_fun:
  assumes "entries_wf es" and "i < length es" and "fst (es ! i) = k"
  shows "run_fun app j (es[i := (k, fold_patch app com (snd (es ! i)) p)]) x =
    (if j = k then patch_fun app p (run_fun app k es x) else run_fun app j es x)"
  using assms
proof (induction es arbitrary: i)
  case (Cons e es)
  obtain k' p' where e: "e = (k', p')" by fastforce
  show ?case
  proof (cases i)
    case 0
    then show ?thesis using Cons.prems by (simp add: e fold_patch_fun)
  next
    case (Suc i')
    then have "es ! i' \<in> set es" using Cons.prems by simp
    then have "k' < fst (es ! i')" using Cons.prems(1) by (simp add: e)
    then have "k' \<noteq> k" using Cons.prems(3) Suc by simp
    moreover have "run_fun app j (es[i' := (k, fold_patch app com (snd (es ! i')) p)]) x =
        (if j = k then patch_fun app p (run_fun app k es x) else run_fun app j es x)"
      using Cons Suc by (simp add: e)
    ultimately show ?thesis
      using Suc by (auto simp: e)
  qed
qed simp

lemma update_at_wf:
  "entries_wf es \<Longrightarrow> i < length es \<Longrightarrow> fst (es ! i) = k \<Longrightarrow> entries_wf (es[i := (k, q)])"
  by (metis entries_wf_def fst_conv list_update_id map_update nth_map)

lemma tm_record_wf: "tm_wf m \<Longrightarrow> tm_wf (tm_record app com k p m)"
  using insert_entry_wf[of "tm_pending m" k p]
  by (auto simp: tm_record_def tm_wf_def Let_def update_at_wf split: prod.splits)

lemma tm_get_record:
  assumes "tm_wf m"
  shows "tm_get app (tm_record app com k p m) j =
    (if j = k then patch_fun app p (tm_get app m k) else tm_get app m j)"
proof -
  have "entries_wf (tm_pending m)" using assms by (simp add: tm_wf_def)
  from insert_entry_fun[OF this, of j k p] update_at_fun[OF this, of "tm_last m" k j p] show ?thesis
    by (auto simp: tm_get_def lookup_eq tm_record_def Let_def split: prod.splits)
qed

lemma base_step_get:
  "map_of (base_step app (k, p) b) j =
    (if j = k then patch_fun app p (map_of b k) else map_of b j)"
  by (auto simp: base_step_def update_conv' delete_conv' split: patch.splits option.splits)

lemma run_into_base:
  "entries_wf es \<Longrightarrow> map_of (fold (base_step app) es b) j = run_fun app j es (map_of b j)"
proof (induction es arbitrary: b)
  case (Cons e es)
  obtain k p where e: "e = (k, p)" by fastforce
  have "map_of es k = None"
    using entries_wf_head[of k p es k] Cons.prems by (simp add: e)
  with Cons show ?case
    by (simp add: e base_step_get)
qed (simp add: run_fun_def)

lemma runs_into_base:
  "\<forall>es \<in> set ess. entries_wf es \<Longrightarrow>
   map_of (fold (\<lambda>es b. fold (base_step app) es b) ess b) j = fold (run_fun app j) ess (map_of b j)"
  by (induction ess arbitrary: b) (simp_all add: run_into_base)

lemma pm_get_persistent:
  assumes "tm_wf m"
  shows "pm_get app (tm_persistent app n m) j = tm_get app m j"
proof -
  have "\<forall>es \<in> set (rev (tm_runs m) @ [tm_pending m]). entries_wf es"
    using assms by (auto simp: tm_wf_def)
  from runs_into_base[OF this, of "tm_base m" j] show ?thesis
    by (auto simp: pm_get_def tm_get_def lookup_eq tm_persistent_def run_fun_def foldr_conv_fold)
qed

lemma pm_wf_persistent: "tm_wf m \<Longrightarrow> pm_wf (tm_persistent app n m)"
  by (simp add: tm_wf_def pm_wf_def tm_persistent_def)

lemma tm_get_transient: "tm_get app (pm_transient m) j = pm_get app m j"
  by (simp add: tm_get_def pm_get_def pm_transient_def lookup_eq run_fun_def)

lemma tm_wf_transient: "pm_wf m \<Longrightarrow> tm_wf (pm_transient m)"
  by (simp add: pm_wf_def tm_wf_def pm_transient_def entries_wf_def)

end

end
