(* ===== verification/Codec.thy ===== *)
theory Codec
  imports Prelude
begin

text \<open>
  The record format of a data file: little-endian fields (\<^verbatim>\<open>serialization.cppm\<close>), the entry
  types and the change marker (\<^verbatim>\<open>types.cppm\<close>), and the encoder, the checks and the decoder of
  one record (\<^verbatim>\<open>data_entry.cppm\<close>). The CRC-32C library is a parameter: the function
  \<^verbatim>\<open>crc32c::Extend\<close>, of which only that extending twice is extending by the concatenation is
  used (\<^verbatim>\<open>crc_law\<close>).
\<close>

section \<open>Little-endian integers\<close>

text \<open>
  \<^verbatim>\<open>write_le<T>\<close> and \<^verbatim>\<open>read_le<T>\<close> with \<^term>\<open>n\<close> the \<^verbatim>\<open>sizeof(T)\<close>: byte \<^term>\<open>i\<close> is
  \<^verbatim>\<open>(v >> 8*i) & 0xFF\<close>, and reading ORs the bytes back shifted.
\<close>

definition write_le :: "nat \<Rightarrow> nat \<Rightarrow> bytes" where
  "write_le n v = map (\<lambda>i. word_of_nat (drop_bit (8 * i) v AND 255)) [0..<n]"

definition read_le :: "nat \<Rightarrow> bytes \<Rightarrow> nat \<Rightarrow> nat" where
  "read_le n buf off = fold (\<lambda>i v. v OR push_bit (8 * i) (unat (buf ! (off + i)))) [0..<n] 0"

lemma length_write_le [simp]: "length (write_le n v) = n"
  by (simp add: write_le_def)

lemma unat_byte_lt: "unat (b :: byte) < 256"
  using unsigned_less[where ?'a = nat, of b] by simp

lemma or_push_bit_nat:
  fixes v :: nat
  assumes "v < 2 ^ k"
  shows "v OR push_bit k b = v + push_bit k b"
proof -
  have "v AND push_bit k b = 0"
  proof (rule bit_eqI)
    fix n
    have "\<not> bit v n" if "k \<le> n"
    proof -
      have "v < 2 ^ n" using assms that by (meson less_le_trans one_le_numeral power_increasing)
      then show ?thesis by (simp add: bit_iff_odd)
    qed
    then show "bit (v AND push_bit k b) n = bit 0 n"
      by (auto simp: bit_and_iff bit_push_bit_iff_nat not_le)
  qed
  then show ?thesis by (simp add: disjunctive_add_eq_or)
qed

lemma read_le_Suc:
  "read_le (Suc n) buf off = read_le n buf off OR push_bit (8 * n) (unat (buf ! (off + n)))"
  by (simp add: read_le_def)

lemma read_le_bound: "read_le n buf off < 256 ^ n"
  and read_le_sum_Suc:
    "read_le (Suc n) buf off = read_le n buf off + unat (buf ! (off + n)) * 256 ^ n"
proof (induction n)
  case 0
  {
    case 1
    show ?case by (simp add: read_le_def)
  next
    case 2
    show ?case by (simp add: read_le_def)
  }
next
  case (Suc n)
  have pow: "(256 :: nat) ^ m = 2 ^ (8 * m)" for m
    by (simp add: power_mult)
  have b: "read_le (Suc n) buf off < 256 ^ Suc n"
  proof -
    have "unat (buf ! (off + n)) \<le> 255"
      using unat_byte_lt[of "buf ! (off + n)"] by simp
    then have "unat (buf ! (off + n)) * 256 ^ n \<le> 255 * 256 ^ n"
      by (rule mult_le_mono1)
    with Suc.IH show ?thesis
      unfolding power_Suc by linarith
  qed
  {
    case 1
    show ?case by (rule b)
  next
    case 2
    have "read_le (Suc n) buf off < 2 ^ (8 * Suc n)"
      using b by (simp only: pow)
    from or_push_bit_nat[OF this] show ?case
      by (simp only: read_le_Suc[of "Suc n"] push_bit_eq_mult pow)
  }
qed

lemma and_255_nat: "(x :: nat) AND 255 = x mod 256"
  using take_bit_eq_mask[of 8 x] by (simp add: take_bit_eq_mod mask_eq_exp_minus_1)

lemma unat_write_le_nth:
  "i < n \<Longrightarrow> unat (write_le n v ! i) = v div 256 ^ i mod 256"
  by (simp add: write_le_def and_255_nat unat_of_nat drop_bit_eq_div power_mult)

text \<open>Reading a field back where it was written, whatever surrounds it.\<close>

lemma read_le_write_le_mod:
  assumes "length pre = off" and "n \<le> m"
  shows "read_le n (pre @ write_le m v @ post) off = v mod 256 ^ n"
  using assms(2)
proof (induction n)
  case 0
  show ?case by (simp add: read_le_def)
next
  case (Suc n)
  have "(pre @ write_le m v @ post) ! (off + n) = write_le m v ! n"
    using assms(1) Suc.prems by (simp add: nth_append)
  with Suc show ?case
    by (simp add: read_le_sum_Suc unat_write_le_nth mod_mult2_eq[of v "256 ^ n" 256]
        mult.commute[of 256 "256 ^ n"] mult.commute[of _ "256 ^ n"])
qed

lemma read_le_write_le:
  assumes "length pre = off" and "v < 256 ^ n"
  shows "read_le n (pre @ write_le n v @ post) off = v"
  using read_le_write_le_mod[OF assms(1), of n n v post] assms(2) by simp

lemma read_le_digit:
  "i < n \<Longrightarrow> read_le n buf off div 256 ^ i mod 256 = unat (buf ! (off + i))"
proof (induction n)
  case (Suc n)
  let ?b = "unat (buf ! (off + n))"
  show ?case
  proof (cases "i = n")
    case True
    then show ?thesis
      using read_le_bound[of n buf off] unat_byte_lt[of "buf ! (off + n)"]
      by (simp add: read_le_sum_Suc)
  next
    case False
    with Suc.prems have "i < n" by simp
    then obtain d where n: "n = i + Suc d" using less_iff_Suc_add by auto
    have "?b * 256 ^ n = 256 ^ i * (256 * (?b * 256 ^ d))"
      by (simp add: n power_add)
    then have "read_le (Suc n) buf off = read_le n buf off + 256 ^ i * (256 * (?b * 256 ^ d))"
      by (simp only: read_le_sum_Suc)
    then have "read_le (Suc n) buf off div 256 ^ i = read_le n buf off div 256 ^ i + 256 * (?b * 256 ^ d)"
      by (simp only: div_mult_self2[OF power_not_zero[OF zero_neq_numeral[symmetric]]] add.commute)
    then have "read_le (Suc n) buf off div 256 ^ i mod 256 = read_le n buf off div 256 ^ i mod 256"
      by (simp only: mod_mult_self2)
    with Suc.IH[OF \<open>i < n\<close>] show ?thesis by simp
  qed
qed simp

text \<open>The bytes a field was read from are the bytes writing it again gives.\<close>

lemma write_le_read_le:
  assumes "off + n \<le> length buf"
  shows "write_le n (read_le n buf off) = take n (drop off buf)"
proof (rule nth_equalityI)
  fix i
  assume "i < length (write_le n (read_le n buf off))"
  then have "i < n" by simp
  then have "unat (write_le n (read_le n buf off) ! i) = unat (buf ! (off + i))"
    by (simp add: unat_write_le_nth read_le_digit)
  then show "write_le n (read_le n buf off) ! i = take n (drop off buf) ! i"
    using \<open>i < n\<close> assms by (simp add: word_unat_eq_iff)
qed (use assms in simp)

section \<open>Entry types\<close>

text \<open>
  \<^verbatim>\<open>enum class EntryType\<close>. A type byte read from storage that names no enumerator is the
  constructor \<^verbatim>\<open>UnknownType\<close>, which \<^verbatim>\<open>is_known_entry_type\<close> refuses.
\<close>

datatype EntryType =
    Put | Delete | BulkBegin | BulkEnd | RangeDel | ChangeMarker | UnknownType byte

fun entry_type_byte :: "EntryType \<Rightarrow> byte" where
  "entry_type_byte Put = 1"
| "entry_type_byte Delete = 2"
| "entry_type_byte BulkBegin = 3"
| "entry_type_byte BulkEnd = 4"
| "entry_type_byte RangeDel = 5"
| "entry_type_byte ChangeMarker = 6"
| "entry_type_byte (UnknownType b) = b"

definition entry_type_of :: "byte \<Rightarrow> EntryType" where
  "entry_type_of b =
    (if b = 1 then Put else if b = 2 then Delete else if b = 3 then BulkBegin
     else if b = 4 then BulkEnd else if b = 5 then RangeDel
     else if b = 6 then ChangeMarker else UnknownType b)"

fun is_known_entry_type :: "EntryType \<Rightarrow> bool" where
  "is_known_entry_type (UnknownType b) = False"
| "is_known_entry_type t = True"

lemma entry_type_of_byte [simp]:
  "is_known_entry_type t \<Longrightarrow> entry_type_of (entry_type_byte t) = t"
  by (cases t) (simp_all add: entry_type_of_def)

lemma entry_type_byte_of [simp]: "entry_type_byte (entry_type_of b) = b"
  by (simp add: entry_type_of_def)

text \<open>The record \<^verbatim>\<open>ChangeMarker\<close> of \<^verbatim>\<open>types.cppm\<close>: the identity of a history from a promotion on.\<close>

record change_marker =
  since_sequence :: nat
  marker_id :: nat

definition kOriginMarker :: change_marker where
  "kOriginMarker = \<lparr>since_sequence = 0, marker_id = 0\<rparr>"

record ChangeHeader =
  ch_marker :: change_marker
  ch_from_sequence :: nat

abbreviation (input) kChangeMarkerIdBytes :: nat where
  "kChangeMarkerIdBytes \<equiv> 8"

definition encode_marker_id :: "nat \<Rightarrow> bytes" where
  "encode_marker_id v = map (\<lambda>i. word_of_nat (drop_bit (8 * i) v AND 255)) [0..<kChangeMarkerIdBytes]"

definition decode_marker_id :: "bytes \<Rightarrow> nat" where
  "decode_marker_id val =
     fold (\<lambda>i v. v OR push_bit (8 * i) (unat (val ! i)))
       [0..<min kChangeMarkerIdBytes (length val)] 0"

lemma length_encode_marker_id [simp]: "length (encode_marker_id v) = 8"
  by (simp add: encode_marker_id_def)

lemma decode_encode_marker_id:
  assumes "v < 2 ^ 64"
  shows "decode_marker_id (encode_marker_id v) = v"
proof -
  have "encode_marker_id v = write_le 8 v"
    by (simp only: encode_marker_id_def write_le_def)
  moreover have "decode_marker_id (write_le 8 v) = read_le 8 (write_le 8 v) 0"
    by (simp add: decode_marker_id_def read_le_def)
  ultimately show ?thesis
    using read_le_write_le[of "[]" 0 v 8 "[]"] assms by simp
qed

section \<open>Records\<close>

abbreviation (input) kHeaderSize :: nat where
  "kHeaderSize \<equiv> 15"

abbreviation (input) kCrcSize :: nat where
  "kCrcSize \<equiv> 4"

record EntryHeader =
  h_sequence :: nat
  h_entry_type :: EntryType
  h_key_size :: nat
  h_value_size :: nat

record DataEntry =
  e_sequence :: nat
  e_type :: EntryType
  e_key :: bytes
  e_value :: bytes

type_synonym crc_fn = "u32 \<Rightarrow> bytes \<Rightarrow> u32"

definition read_header :: "bytes \<Rightarrow> EntryHeader" where
  "read_header buf = \<lparr>h_sequence = read_le 8 buf 0,
     h_entry_type = entry_type_of (word_of_nat (read_le 1 buf 8)),
     h_key_size = read_le 2 buf 9, h_value_size = read_le 4 buf 11\<rparr>"

text \<open>
  The 15 header bytes and the CRC. The accumulator is fed each field as it is put, then the key
  and the value, which are not in the buffer.
\<close>

definition write_header_and_crc ::
  "crc_fn \<Rightarrow> nat \<Rightarrow> EntryType \<Rightarrow> bytes \<Rightarrow> bytes \<Rightarrow> (bytes \<times> bytes) result" where
  "write_header_and_crc crc seq t k v =
    rbind (narrow 16 (length k)) (\<lambda>ks.
    rbind (narrow 32 (length v)) (\<lambda>vs.
      let f1 = write_le 8 seq; f2 = write_le 1 (unat (entry_type_byte t));
          f3 = write_le 2 ks; f4 = write_le 4 vs;
          c = crc (crc (crc (crc (crc (crc 0 f1) f2) f3) f4) k) v
      in Inr (f1 @ f2 @ f3 @ f4, write_le 4 (unat c))))"

definition serialize_entry ::
  "crc_fn \<Rightarrow> nat \<Rightarrow> EntryType \<Rightarrow> bytes \<Rightarrow> bytes \<Rightarrow> bytes result" where
  "serialize_entry crc seq t k v =
    rbind (write_header_and_crc crc seq t k v) (\<lambda>(hdr, c). Inr (hdr @ k @ v @ c))"

definition record_bytes :: "DataEntry \<Rightarrow> nat" where
  "record_bytes e = kHeaderSize + length (e_key e) + length (e_value e) + kCrcSize"

definition header_record_bytes :: "EntryHeader \<Rightarrow> nat" where
  "header_record_bytes h = kHeaderSize + h_key_size h + h_value_size h + kCrcSize"

definition crc_matches :: "crc_fn \<Rightarrow> bytes \<Rightarrow> bool" where
  "crc_matches crc rec = (if length rec < kCrcSize then False
     else unat (crc 0 (take (length rec - kCrcSize) rec)) = read_le 4 rec (length rec - kCrcSize))"

definition malformed_change_marker :: "EntryHeader \<Rightarrow> bool" where
  "malformed_change_marker h = (h_entry_type h = ChangeMarker \<and>
     (h_key_size h \<noteq> 0 \<or> h_value_size h \<noteq> kChangeMarkerIdBytes))"

definition parse_header_and_verify :: "crc_fn \<Rightarrow> bytes \<Rightarrow> EntryHeader result" where
  "parse_header_and_verify crc buf =
    (if length buf < kHeaderSize + kCrcSize
     then Inl (RuntimeError ''parse_header_and_verify: buffer too small'')
     else let h = read_header buf in
     if \<not> is_known_entry_type (h_entry_type h)
     then Inl (RuntimeError ''parse_header_and_verify: unknown entry type'')
     else if malformed_change_marker h
     then Inl (RuntimeError ''parse_header_and_verify: malformed change marker'')
     else if length buf \<noteq> header_record_bytes h
     then Inl (RuntimeError ''parse_header_and_verify: buffer size mismatch'')
     else if \<not> crc_matches crc buf
     then Inl (RuntimeError ''parse_header_and_verify: CRC mismatch'')
     else Inr h)"

definition entry_of :: "EntryHeader \<Rightarrow> bytes \<Rightarrow> DataEntry" where
  "entry_of h buf = \<lparr>e_sequence = h_sequence h, e_type = h_entry_type h,
     e_key = take (h_key_size h) (drop kHeaderSize buf),
     e_value = take (h_value_size h) (drop (h_key_size h) (drop kHeaderSize buf))\<rparr>"

definition deserialize_entry :: "crc_fn \<Rightarrow> bytes \<Rightarrow> DataEntry result" where
  "deserialize_entry crc buf =
    rbind (parse_header_and_verify crc buf) (\<lambda>h. Inr (entry_of h buf))"

text \<open>\<^verbatim>\<open>crc32c::Extend\<close> computes incrementally; this is all the format relies on.\<close>

definition crc_law :: "crc_fn \<Rightarrow> bool" where
  "crc_law crc \<longleftrightarrow> (\<forall>c xs ys. crc (crc c xs) ys = crc c (xs @ ys))"

text \<open>An entry the engine can write: its fields fit the header.\<close>

definition entry_ok :: "DataEntry \<Rightarrow> bool" where
  "entry_ok e \<longleftrightarrow> e_sequence e < 2 ^ 64 \<and> length (e_key e) < 2 ^ 16 \<and>
     length (e_value e) < 2 ^ 32 \<and> is_known_entry_type (e_type e) \<and>
     (e_type e = ChangeMarker \<longrightarrow> e_key e = [] \<and> length (e_value e) = kChangeMarkerIdBytes)"

text \<open>The bytes of a record, for entries whose sizes fit.\<close>

definition header_bytes :: "DataEntry \<Rightarrow> bytes" where
  "header_bytes e = write_le 8 (e_sequence e) @ write_le 1 (unat (entry_type_byte (e_type e))) @
     write_le 2 (length (e_key e)) @ write_le 4 (length (e_value e))"

definition entry_bytes :: "crc_fn \<Rightarrow> DataEntry \<Rightarrow> bytes" where
  "entry_bytes crc e = header_bytes e @ e_key e @ e_value e @
     write_le 4 (unat (crc 0 (header_bytes e @ e_key e @ e_value e)))"

subsection \<open>Writing then reading\<close>

lemma length_header_bytes [simp]: "length (header_bytes e) = 15"
  by (simp add: header_bytes_def)

lemma length_entry_bytes [simp]: "length (entry_bytes crc e) = record_bytes e"
  by (simp add: entry_bytes_def record_bytes_def)

lemma serialize_entry_bytes:
  assumes "crc_law crc" and "length (e_key e) < 2 ^ 16" and "length (e_value e) < 2 ^ 32"
  shows "serialize_entry crc (e_sequence e) (e_type e) (e_key e) (e_value e)
    = Inr (entry_bytes crc e)"
  using assms by (simp add: serialize_entry_def write_header_and_crc_def entry_bytes_def
      header_bytes_def crc_law_def Let_def)

lemma serialize_entry_too_long:
  "2 ^ 16 \<le> length k \<or> 2 ^ 32 \<le> length v \<Longrightarrow>
   serialize_entry crc seq t k v = Inl (RuntimeError ''narrowing conversion out of range'')"
  by (auto simp: serialize_entry_def write_header_and_crc_def narrow_def)

lemma read_header_bytes:
  assumes "entry_ok e"
  shows "read_header (header_bytes e @ rest) = \<lparr>h_sequence = e_sequence e,
    h_entry_type = e_type e, h_key_size = length (e_key e), h_value_size = length (e_value e)\<rparr>"
proof -
  let ?f1 = "write_le 8 (e_sequence e)" and ?f2 = "write_le 1 (unat (entry_type_byte (e_type e)))"
  let ?f3 = "write_le 2 (length (e_key e))" and ?f4 = "write_le 4 (length (e_value e))"
  have t: "unat (entry_type_byte (e_type e)) < 256" by (rule unat_byte_lt)
  have "read_le 8 (?f1 @ ?f2 @ ?f3 @ ?f4 @ rest) 0 = e_sequence e"
    using read_le_write_le[of "[]" 0 "e_sequence e" 8] assms by (simp add: entry_ok_def)
  moreover have "read_le 1 (?f1 @ ?f2 @ ?f3 @ ?f4 @ rest) 8 = unat (entry_type_byte (e_type e))"
    using read_le_write_le[of ?f1 8 "unat (entry_type_byte (e_type e))" 1] t by simp
  moreover have "read_le 2 (?f1 @ ?f2 @ ?f3 @ ?f4 @ rest) 9 = length (e_key e)"
    using read_le_write_le[of "?f1 @ ?f2" 9 "length (e_key e)" 2] assms by (simp add: entry_ok_def)
  moreover have "read_le 4 (?f1 @ ?f2 @ ?f3 @ ?f4 @ rest) 11 = length (e_value e)"
    using read_le_write_le[of "?f1 @ ?f2 @ ?f3" 11 "length (e_value e)" 4] assms
    by (simp add: entry_ok_def)
  ultimately show ?thesis
    using assms by (simp add: read_header_def header_bytes_def entry_ok_def)
qed

lemma read_header_entry_bytes:
  assumes "entry_ok e"
  shows "read_header (entry_bytes crc e @ rest) = \<lparr>h_sequence = e_sequence e,
    h_entry_type = e_type e, h_key_size = length (e_key e), h_value_size = length (e_value e)\<rparr>"
  using read_header_bytes[OF assms] by (simp add: entry_bytes_def)

lemma crc_matches_entry_bytes [simp]: "crc_matches crc (entry_bytes crc e)"
proof -
  let ?b = "header_bytes e @ e_key e @ e_value e"
  have "unat (crc 0 ?b) < 256 ^ 4"
    using unsigned_less[where ?'a = nat, of "crc 0 ?b"] by simp
  then have "read_le 4 (?b @ write_le 4 (unat (crc 0 ?b)) @ []) (length ?b) = unat (crc 0 ?b)"
    by (intro read_le_write_le) simp_all
  then show ?thesis
    by (simp add: crc_matches_def entry_bytes_def)
qed

lemma parse_entry_bytes:
  assumes "entry_ok e"
  shows "parse_header_and_verify crc (entry_bytes crc e) = Inr \<lparr>h_sequence = e_sequence e,
    h_entry_type = e_type e, h_key_size = length (e_key e), h_value_size = length (e_value e)\<rparr>"
  using assms read_header_entry_bytes[OF assms, of crc "[]"]
  by (simp add: parse_header_and_verify_def malformed_change_marker_def header_record_bytes_def
      record_bytes_def entry_ok_def Let_def)

lemma entry_of_entry_bytes:
  "entry_of \<lparr>h_sequence = e_sequence e, h_entry_type = e_type e,
     h_key_size = length (e_key e), h_value_size = length (e_value e)\<rparr>
     (entry_bytes crc e @ rest) = e"
  by (simp add: entry_of_def entry_bytes_def)

subsection \<open>Reading then writing\<close>

lemma length_entry_of:
  assumes "kHeaderSize + h_key_size h + h_value_size h \<le> length buf"
  shows "length (e_key (entry_of h buf)) = h_key_size h"
    and "length (e_value (entry_of h buf)) = h_value_size h"
  using assms by (simp_all add: entry_of_def)

lemma header_bytes_entry_of:
  assumes "kHeaderSize + h_key_size (read_header buf) + h_value_size (read_header buf) \<le> length buf"
  shows "header_bytes (entry_of (read_header buf) buf) = take 15 buf"
proof -
  let ?h = "read_header buf"
  have fields: "e_sequence (entry_of ?h buf) = read_le 8 buf 0"
      "unat (entry_type_byte (e_type (entry_of ?h buf))) = read_le 1 buf 8"
      "h_key_size ?h = read_le 2 buf 9" "h_value_size ?h = read_le 4 buf 11"
    using read_le_bound[of 1 buf 8] by (simp_all add: entry_of_def read_header_def unat_of_nat)
  have "15 \<le> length buf" using assms by simp
  then have "header_bytes (entry_of ?h buf) =
      take 8 (drop 0 buf) @ take 1 (drop 8 buf) @ take 2 (drop 9 buf) @ take 4 (drop 11 buf)"
    unfolding header_bytes_def length_entry_of[OF assms] fields
    by (simp add: write_le_read_le del: One_nat_def)
  also have "\<dots> = take 15 buf"
    using take_add[of 8 7 buf] take_add[of 1 6 "drop 8 buf"] take_add[of 2 4 "drop 9 buf"]
    by (simp add: add.commute)
  finally show ?thesis .
qed

lemma entry_ok_entry_of:
  assumes "is_known_entry_type (h_entry_type (read_header buf))"
    and "\<not> malformed_change_marker (read_header buf)"
    and "kHeaderSize + h_key_size (read_header buf) + h_value_size (read_header buf) \<le> length buf"
  shows "entry_ok (entry_of (read_header buf) buf)"
  using assms read_le_bound[of 8 buf 0] read_le_bound[of 2 buf 9] read_le_bound[of 4 buf 11]
  by (auto simp: entry_ok_def entry_of_def read_header_def malformed_change_marker_def)

lemma entry_bytes_entry_of:
  assumes "length buf = header_record_bytes (read_header buf)" and "crc_matches crc buf"
  shows "entry_bytes crc (entry_of (read_header buf) buf) = buf"
proof -
  let ?h = "read_header buf" and ?e = "entry_of (read_header buf) buf"
  let ?n = "length buf - 4"
  have len: "length buf = 15 + h_key_size ?h + h_value_size ?h + 4"
    using assms(1) by (simp add: header_record_bytes_def)
  have "header_bytes ?e = take 15 buf"
    by (rule header_bytes_entry_of) (simp add: len)
  then have body: "header_bytes ?e @ e_key ?e @ e_value ?e = take ?n buf"
    using len take_add[of 15 "h_key_size ?h + h_value_size ?h" buf]
      take_add[of "h_key_size ?h" "h_value_size ?h" "drop 15 buf"]
    by (simp add: entry_of_def add.commute)
  have "unat (crc 0 (take ?n buf)) = read_le 4 buf ?n"
    using assms(2) len by (simp add: crc_matches_def)
  then have "write_le 4 (unat (crc 0 (take ?n buf))) = drop ?n buf"
    using write_le_read_le[of ?n 4 buf] len by simp
  then show ?thesis
    using body by (simp add: entry_bytes_def flip: append_assoc)
qed

lemma deserialize_entry_iff:
  "deserialize_entry crc buf = Inr e \<longleftrightarrow> entry_ok e \<and> buf = entry_bytes crc e"
proof
  assume "deserialize_entry crc buf = Inr e"
  then show "entry_ok e \<and> buf = entry_bytes crc e"
    by (auto simp: deserialize_entry_def parse_header_and_verify_def Let_def result_simps
        header_record_bytes_def intro: entry_ok_entry_of simp: entry_bytes_entry_of
        split: if_splits)
next
  assume "entry_ok e \<and> buf = entry_bytes crc e"
  then show "deserialize_entry crc buf = Inr e"
    using entry_of_entry_bytes[of e crc "[]"] by (simp add: deserialize_entry_def parse_entry_bytes)
qed

section \<open>The record format is exact\<close>

text \<open>
  C10. Reading a record gives an entry exactly when the bytes are what the writer produces for
  that entry and the entry is well formed: the decoder accepts every record the encoder writes,
  returns what was written, and accepts nothing else.
\<close>

theorem deserialize_serialize_exact:
  assumes "crc_law crc"
  shows "deserialize_entry crc buf = Inr e \<longleftrightarrow>
    entry_ok e \<and> serialize_entry crc (e_sequence e) (e_type e) (e_key e) (e_value e) = Inr buf"
  using serialize_entry_bytes[OF assms, of e]
  by (auto simp: deserialize_entry_iff entry_ok_def)

text \<open>A concrete incremental checksum: the witnesses instantiate the library's function with it.\<close>

definition toy_crc :: crc_fn where
  "toy_crc c xs = fold (\<lambda>b a. a * 31 + ucast b) xs c"

lemma toy_crc_law: "crc_law toy_crc"
  by (simp add: crc_law_def toy_crc_def)

theorem deserialize_serialize_exact_witness:
  "crc_law toy_crc \<and>
   (deserialize_entry toy_crc
      (entry_bytes toy_crc \<lparr>e_sequence = 7, e_type = Put, e_key = [1, 2], e_value = [3]\<rparr>)
    = Inr \<lparr>e_sequence = 7, e_type = Put, e_key = [1, 2], e_value = [3]\<rparr>)"
proof -
  let ?e = "\<lparr>e_sequence = 7, e_type = Put, e_key = [1, 2], e_value = [3]\<rparr>"
  have "entry_ok ?e" by (simp add: entry_ok_def)
  moreover have "serialize_entry toy_crc (e_sequence ?e) (e_type ?e) (e_key ?e) (e_value ?e)
      = Inr (entry_bytes toy_crc ?e)"
    by (rule serialize_entry_bytes[OF toy_crc_law]) simp_all
  ultimately show ?thesis
    using deserialize_serialize_exact[OF toy_crc_law, of "entry_bytes toy_crc ?e" ?e] toy_crc_law
    by blast
qed

end
