(* ===== verification/KeyDir.thy ===== *)
theory KeyDir
  imports Codec
begin

text \<open>
  The key directory of \<^verbatim>\<open>internals.cppm\<close>: the packed \<^verbatim>\<open>KeyDirEntry\<close>, the ownership comparator
  \<^verbatim>\<open>kde_newer\<close>, and the \<^verbatim>\<open>kd_*\<close> operations the engine is written against. A key directory is the
  list of its keys and entries in key order; the engine's B+ trees implement that order, and no
  operation of the engine sees more of them than this interface. In the build whose tree holds no
  keys a lookup reads a record to confirm the key; the model is of runs in which those reads
  succeed, and what the engine does when one throws is not in it. The build constant
  \<^verbatim>\<open>kKeyDirReadsKeys\<close> is the first argument of the operations whose code depends on it.
\<close>

section \<open>Packed entries\<close>

record KeyDirEntry =
  word0 :: u64
  word1 :: u64

abbreviation (input) kMaxSequence :: nat where "kMaxSequence \<equiv> 2 ^ 48 - 1"
abbreviation (input) kMaxFileId :: nat where "kMaxFileId \<equiv> 2 ^ 20 - 1"
abbreviation (input) kMaxFileOffset :: nat where "kMaxFileOffset \<equiv> 2 ^ 32 - 1"
abbreviation (input) kMaxValueSize :: nat where "kMaxValueSize \<equiv> 2 ^ 28 - 1"

definition check_sequence :: "nat \<Rightarrow> unit result" where
  "check_sequence v = guard (v \<le> kMaxSequence) (RuntimeError ''sequence exceeds packed limit'')"

definition check_file_id :: "nat \<Rightarrow> unit result" where
  "check_file_id v = guard (v \<le> kMaxFileId) (RuntimeError ''file_id exceeds packed limit'')"

definition check_file_offset :: "nat \<Rightarrow> unit result" where
  "check_file_offset v = guard (v \<le> kMaxFileOffset) (RuntimeError ''file_offset exceeds packed limit'')"

definition check_value_size :: "nat \<Rightarrow> unit result" where
  "check_value_size v = guard (v \<le> kMaxValueSize) (RuntimeError ''value_size exceeds packed limit'')"

definition kde_pack :: "nat \<Rightarrow> nat \<Rightarrow> nat \<Rightarrow> nat \<Rightarrow> KeyDirEntry" where
  "kde_pack seq off fid vs =
    \<lparr>word0 = push_bit 16 (word_of_nat seq) OR (word_of_nat fid AND 0xFFFF),
     word1 = push_bit 32 (word_of_nat off) OR push_bit 4 (word_of_nat vs)
       OR drop_bit 16 (word_of_nat fid)\<rparr>"

definition kde_make :: "nat \<Rightarrow> nat \<Rightarrow> nat \<Rightarrow> nat \<Rightarrow> KeyDirEntry result" where
  "kde_make seq off fid vs =
    rbind (check_sequence seq) (\<lambda>_.
    rbind (check_file_id fid) (\<lambda>_.
    rbind (check_file_offset off) (\<lambda>_.
    rbind (check_value_size vs) (\<lambda>_. Inr (kde_pack seq off fid vs)))))"

definition kde_sequence :: "KeyDirEntry \<Rightarrow> nat" where
  "kde_sequence e = unat (drop_bit 16 (word0 e))"

definition kde_file_id :: "KeyDirEntry \<Rightarrow> nat" where
  "kde_file_id e = unat (push_bit 16 (word1 e AND 0xF) OR (word0 e AND 0xFFFF))"

definition kde_file_offset :: "KeyDirEntry \<Rightarrow> nat" where
  "kde_file_offset e = unat (drop_bit 32 (word1 e))"

definition kde_value_size :: "KeyDirEntry \<Rightarrow> nat" where
  "kde_value_size e = unat (drop_bit 4 (word1 e) AND 0xFFFFFFF)"

text \<open>Newer, or not, or the exception that says two records share a sequence.\<close>

definition kde_newer :: "KeyDirEntry \<Rightarrow> KeyDirEntry \<Rightarrow> bool result" where
  "kde_newer a b =
    (if kde_sequence a \<noteq> kde_sequence b then Inr (kde_sequence a > kde_sequence b)
     else if kde_file_id a \<noteq> kde_file_id b then Inl (SequenceOverlap (kde_file_id a) (kde_file_id b))
     else if kde_file_offset a \<noteq> kde_file_offset b then
       Inl (RuntimeError ''bytecask: corrupt database - two entries share the same sequence number but differ in physical location'')
     else Inr False)"

subsection \<open>Packing loses nothing\<close>

lemma and_masks:
  "(w :: u64) AND 0xFFFF = take_bit 16 w"
  "(w :: u64) AND 0xF = take_bit 4 w"
  "(w :: u64) AND 0xFFFFFFF = take_bit 28 w"
  by (simp_all add: take_bit_eq_mask mask_eq_exp_minus_1)

lemma unat_word_eqI: "w = (word_of_nat n :: 'a :: len word) \<Longrightarrow> n < 2 ^ LENGTH('a) \<Longrightarrow> unat w = n"
  by (simp add: unat_of_nat)

lemma kde_pack_fields:
  assumes "seq < 2 ^ 48" "fid < 2 ^ 20" "off < 2 ^ 32" "vs < 2 ^ 28"
  shows "kde_sequence (kde_pack seq off fid vs) = seq"
    and "kde_file_id (kde_pack seq off fid vs) = fid"
    and "kde_file_offset (kde_pack seq off fid vs) = off"
    and "kde_value_size (kde_pack seq off fid vs) = vs"
proof -
  note beyond = bit_of_nat_beyond[OF assms(1)] bit_of_nat_beyond[OF assms(2)]
    bit_of_nat_beyond[OF assms(3)] bit_of_nat_beyond[OF assms(4)]
  have seq: "drop_bit 16 (word0 (kde_pack seq off fid vs)) = (word_of_nat seq :: u64)"
    by (rule bit_word_eqI)
       (use beyond(1) in \<open>auto simp: kde_pack_def and_masks bit_simps not_le[symmetric]\<close>)
  have fid: "push_bit 16 (word1 (kde_pack seq off fid vs) AND 0xF) OR (word0 (kde_pack seq off fid vs) AND 0xFFFF)
      = (word_of_nat fid :: u64)"
    by (rule bit_word_eqI)
       (use beyond(2) in \<open>auto simp: kde_pack_def and_masks bit_simps not_le[symmetric]\<close>)
  have off: "drop_bit 32 (word1 (kde_pack seq off fid vs)) = (word_of_nat off :: u64)"
    by (rule bit_word_eqI)
       (use beyond(2,3,4) in \<open>auto simp: kde_pack_def and_masks bit_simps not_le[symmetric]\<close>)
  have vs: "drop_bit 4 (word1 (kde_pack seq off fid vs)) AND 0xFFFFFFF = (word_of_nat vs :: u64)"
    by (rule bit_word_eqI)
       (use beyond(2,4) in \<open>auto simp: kde_pack_def and_masks bit_simps not_le[symmetric]\<close>)
  show "kde_sequence (kde_pack seq off fid vs) = seq"
    unfolding kde_sequence_def seq using assms(1) by (intro unat_word_eqI) simp_all
  show "kde_file_id (kde_pack seq off fid vs) = fid"
    unfolding kde_file_id_def fid using assms(2) by (intro unat_word_eqI) simp_all
  show "kde_file_offset (kde_pack seq off fid vs) = off"
    unfolding kde_file_offset_def off using assms(3) by (intro unat_word_eqI) simp_all
  show "kde_value_size (kde_pack seq off fid vs) = vs"
    unfolding kde_value_size_def vs using assms(4) by (intro unat_word_eqI) simp_all
qed

lemma kde_make_iff:
  "kde_make seq off fid vs = Inr e \<longleftrightarrow>
    seq \<le> kMaxSequence \<and> fid \<le> kMaxFileId \<and> off \<le> kMaxFileOffset \<and> vs \<le> kMaxValueSize \<and>
    e = kde_pack seq off fid vs"
  by (auto simp: kde_make_def check_sequence_def check_file_id_def check_file_offset_def
      check_value_size_def)

lemma kde_make_fields:
  assumes "kde_make seq off fid vs = Inr e"
  shows "kde_sequence e = seq" "kde_file_offset e = off" "kde_file_id e = fid"
    "kde_value_size e = vs"
  using assms by (auto simp: kde_make_iff kde_pack_fields)

section \<open>Record sizes\<close>

definition entry_size :: "nat \<Rightarrow> nat \<Rightarrow> nat" where
  "entry_size ks vs = kHeaderSize + ks + vs + kCrcSize"

fun tombstone_size :: "EntryType \<Rightarrow> nat \<Rightarrow> nat \<Rightarrow> nat" where
  "tombstone_size Delete ks vs = entry_size ks vs"
| "tombstone_size RangeDel ks vs = entry_size ks vs"
| "tombstone_size _ ks vs = 0"

fun marker_size :: "EntryType \<Rightarrow> nat" where
  "marker_size BulkBegin = entry_size 0 0"
| "marker_size BulkEnd = entry_size 0 0"
| "marker_size _ = 0"

fun change_marker_size :: "EntryType \<Rightarrow> nat" where
  "change_marker_size ChangeMarker = entry_size 0 kChangeMarkerIdBytes"
| "change_marker_size _ = 0"

text \<open>The last marker at or below a sequence in a list sorted by sequence; the origin if none.\<close>

fun marker_at_loop :: "change_marker \<Rightarrow> change_marker list \<Rightarrow> nat \<Rightarrow> change_marker" where
  "marker_at_loop at [] s = at"
| "marker_at_loop at (m # ms) s = (if since_sequence m > s then at else marker_at_loop m ms s)"

definition marker_at :: "change_marker list option \<Rightarrow> nat \<Rightarrow> change_marker" where
  "marker_at markers s = (case markers of None \<Rightarrow> kOriginMarker
     | Some ms \<Rightarrow> marker_at_loop kOriginMarker ms s)"

section \<open>Operations\<close>

type_synonym key = bytes
type_synonym key_dir = "(key \<times> KeyDirEntry) list"

definition kd_get :: "key_dir \<Rightarrow> key \<Rightarrow> KeyDirEntry option" where
  "kd_get kd k = map_of kd k"

definition kd_contains :: "key_dir \<Rightarrow> key \<Rightarrow> bool" where
  "kd_contains kd k = (kd_get kd k \<noteq> None)"

fun kd_upsert :: "key_dir \<Rightarrow> key \<Rightarrow> KeyDirEntry \<Rightarrow> key_dir" where
  "kd_upsert [] k e = [(k, e)]"
| "kd_upsert ((k', e') # kd) k e =
    (if k < k' then (k, e) # (k', e') # kd
     else if k = k' then (k, e) # kd
     else (k', e') # kd_upsert kd k e)"

text \<open>Inserts or replaces, and what it displaced.\<close>

definition kd_put :: "key_dir \<Rightarrow> key \<Rightarrow> KeyDirEntry \<Rightarrow> key_dir \<times> KeyDirEntry option" where
  "kd_put kd k e = (kd_upsert kd k e, kd_get kd k)"

definition kd_erase :: "key_dir \<Rightarrow> key \<Rightarrow> key_dir \<times> KeyDirEntry option" where
  "kd_erase kd k = (filter (\<lambda>(k', e). k' \<noteq> k) kd, kd_get kd k)"

definition same_record :: "KeyDirEntry \<Rightarrow> KeyDirEntry \<Rightarrow> bool" where
  "same_record a b \<longleftrightarrow> kde_file_id a = kde_file_id b \<and> kde_file_offset a = kde_file_offset b"

definition kd_holds :: "bool \<Rightarrow> key_dir \<Rightarrow> key \<Rightarrow> KeyDirEntry \<Rightarrow> bool" where
  "kd_holds reads_keys kd k at = (reads_keys \<and>
     (case kd_get kd k of None \<Rightarrow> False | Some e \<Rightarrow> same_record e at))"

text \<open>
  The operations by location decline, as \<^term>\<open>None\<close>, when the key's entry is not at the location,
  and always in the build whose tree keeps its keys.
\<close>

definition kd_put_at ::
  "bool \<Rightarrow> key_dir \<Rightarrow> key \<Rightarrow> KeyDirEntry \<Rightarrow> KeyDirEntry \<Rightarrow> key_dir option" where
  "kd_put_at reads_keys kd k at e =
     (if kd_holds reads_keys kd k at then Some (kd_upsert kd k e) else None)"

definition kd_erase_at :: "bool \<Rightarrow> key_dir \<Rightarrow> key \<Rightarrow> KeyDirEntry \<Rightarrow> key_dir option" where
  "kd_erase_at reads_keys kd k at =
     (if kd_holds reads_keys kd k at then Some (fst (kd_erase kd k)) else None)"

definition kd_restore ::
  "bool \<Rightarrow> key_dir \<Rightarrow> key \<Rightarrow> KeyDirEntry \<Rightarrow> KeyDirEntry \<Rightarrow> key_dir option" where
  "kd_restore reads_keys kd k now was = kd_put_at reads_keys kd k now was"

definition kd_remove :: "bool \<Rightarrow> key_dir \<Rightarrow> key \<Rightarrow> KeyDirEntry \<Rightarrow> key_dir option" where
  "kd_remove reads_keys kd k now = kd_erase_at reads_keys kd k now"

text \<open>An iterator is the list of the entries it has yet to yield.\<close>

definition kd_lower_bound :: "key_dir \<Rightarrow> key \<Rightarrow> (key \<times> KeyDirEntry) list" where
  "kd_lower_bound kd k = dropWhile (\<lambda>(k', e). k' < k) kd"

definition kd_upper_bound :: "key_dir \<Rightarrow> key \<Rightarrow> (key \<times> KeyDirEntry) list" where
  "kd_upper_bound kd k = dropWhile (\<lambda>(k', e). k' \<le> k) kd"

definition kd_count :: "key_dir \<Rightarrow> key \<Rightarrow> key \<Rightarrow> nat \<Rightarrow> nat" where
  "kd_count kd frm to limit =
     min limit (length (kd_lower_bound kd frm) - length (kd_lower_bound kd to))"

text \<open>The loop every range operation runs: from the lower bound, until a key at or past the end.\<close>

definition kd_range :: "key_dir \<Rightarrow> key \<Rightarrow> key \<Rightarrow> (key \<times> KeyDirEntry) list" where
  "kd_range kd frm to = takeWhile (\<lambda>(k', e). \<not> to \<le> k') (kd_lower_bound kd frm)"

definition kd_erase_all :: "key list \<Rightarrow> key_dir \<Rightarrow> key_dir" where
  "kd_erase_all ks kd = fold (\<lambda>k d. fst (kd_erase d k)) ks kd"

section \<open>The interface and its laws\<close>

definition kd_sorted :: "key_dir \<Rightarrow> bool" where
  "kd_sorted kd \<longleftrightarrow> sorted_wrt (<) (map fst kd)"

locale key_directory =
  fixes get :: "'d \<Rightarrow> key \<Rightarrow> 'e option"
    and put :: "'d \<Rightarrow> key \<Rightarrow> 'e \<Rightarrow> 'd \<times> 'e option"
    and erase :: "'d \<Rightarrow> key \<Rightarrow> 'd \<times> 'e option"
    and lower_bound :: "'d \<Rightarrow> key \<Rightarrow> (key \<times> 'e) list"
    and wf :: "'d \<Rightarrow> bool"
  assumes get_put: "wf d \<Longrightarrow> get (fst (put d k e)) = (get d)(k \<mapsto> e)"
    and put_hit: "wf d \<Longrightarrow> snd (put d k e) = get d k"
    and wf_put: "wf d \<Longrightarrow> wf (fst (put d k e))"
    and get_erase: "wf d \<Longrightarrow> get (fst (erase d k)) = (get d)(k := None)"
    and erase_hit: "wf d \<Longrightarrow> snd (erase d k) = get d k"
    and wf_erase: "wf d \<Longrightarrow> wf (fst (erase d k))"
    and lower_bound_sorted: "wf d \<Longrightarrow> sorted_wrt (<) (map fst (lower_bound d k))"
    and lower_bound_iff: "wf d \<Longrightarrow> (k', e) \<in> set (lower_bound d k) \<longleftrightarrow> k \<le> k' \<and> get d k' = Some e"
begin

lemma takeWhile_bound:
  assumes "sorted_wrt (<) (map fst xs)"
  shows "set (takeWhile (\<lambda>(k', e). \<not> (to :: key) \<le> k') xs) = {(k', e) \<in> set xs. k' < to}"
  using assms
proof (induction xs)
  case (Cons x xs)
  then show ?case
    by (cases x) (force simp: not_le)
qed simp

lemma range_iff:
  "wf d \<Longrightarrow> (k, e) \<in> set (takeWhile (\<lambda>(k', e). \<not> to \<le> k') (lower_bound d frm)) \<longleftrightarrow>
     frm \<le> k \<and> k < to \<and> get d k = Some e"
  by (auto simp: takeWhile_bound[OF lower_bound_sorted] lower_bound_iff)

lemma erase_all:
  assumes "wf d"
  shows "wf (fold (\<lambda>k d. fst (erase d k)) ks d) \<and>
    get (fold (\<lambda>k d. fst (erase d k)) ks d) = (get d) |` (- set ks)"
  using assms
proof (induction ks arbitrary: d)
  case (Cons k ks)
  have "get (fst (erase d k)) |` (- set ks) = (get d) |` (- set (k # ks))"
    using get_erase[OF Cons.prems] by (auto simp: restrict_map_def)
  then show ?case
    using Cons.IH[OF wf_erase[OF Cons.prems]] by simp
qed (simp add: restrict_map_def)

text \<open>Erasing the keys collected by the range loop empties exactly the range.\<close>

lemma erase_range:
  fixes frm to :: key
  assumes "wf d"
  defines "ks \<equiv> map fst (takeWhile (\<lambda>(k', e). \<not> to \<le> k') (lower_bound d frm))"
  shows "get (fold (\<lambda>k d. fst (erase d k)) ks d) = (get d) |` {k. \<not> (frm \<le> k \<and> k < to)}"
proof
  fix k
  have "k \<in> set ks \<longleftrightarrow> frm \<le> k \<and> k < to \<and> get d k \<noteq> None"
    using range_iff[OF assms(1)] unfolding ks_def by force
  then show "get (fold (\<lambda>k d. fst (erase d k)) ks d) k = ((get d) |` {k. \<not> (frm \<le> k \<and> k < to)}) k"
    using erase_all[OF assms(1), of ks] by (auto simp: restrict_map_def)
qed

end

lemma kd_sorted_simps [simp]:
  "kd_sorted []"
  "kd_sorted ((k, e) # kd) \<longleftrightarrow> (\<forall>k' \<in> fst ` set kd. k < k') \<and> kd_sorted kd"
  by (simp_all add: kd_sorted_def)

lemma kd_sorted_distinct: "kd_sorted kd \<Longrightarrow> distinct (map fst kd)"
  by (induction kd) force+

lemma fst_set_upsert [simp]: "fst ` set (kd_upsert kd k e) = insert k (fst ` set kd)"
  by (induction kd k e rule: kd_upsert.induct) auto

lemma kd_sorted_upsert: "kd_sorted kd \<Longrightarrow> kd_sorted (kd_upsert kd k e)"
  by (induction kd k e rule: kd_upsert.induct) (auto simp: not_less_iff_gr_or_eq)

lemma map_of_upsert: "kd_sorted kd \<Longrightarrow> map_of (kd_upsert kd k e) = (map_of kd)(k \<mapsto> e)"
proof (induction kd k e rule: kd_upsert.induct)
  case (2 k' e' kd k e)
  then show ?case by (auto simp: fun_eq_iff)
qed simp

lemma kd_sorted_filter: "kd_sorted kd \<Longrightarrow> kd_sorted (filter P kd)"
  by (induction kd) (auto split: prod.splits)

lemma map_of_filter_key: "map_of (filter (\<lambda>(k', e). k' \<noteq> k) kd) = (map_of kd)(k := None)"
  by (induction kd) (auto simp: fun_eq_iff)

lemma kd_lower_bound_filter:
  "kd_sorted kd \<Longrightarrow> kd_lower_bound kd k = filter (\<lambda>(k', e). k \<le> k') kd"
proof (induction kd)
  case (Cons x kd)
  obtain k0 e0 where x: "x = (k0, e0)" by fastforce
  show ?case
  proof (cases "k0 < k")
    case True
    then show ?thesis using Cons by (auto simp: kd_lower_bound_def x)
  next
    case False
    then have "filter (\<lambda>(k', e). k \<le> k') kd = kd"
      using Cons.prems by (auto simp: x filter_id_conv not_less)
    then show ?thesis using False by (simp add: kd_lower_bound_def x not_less)
  qed
qed (simp add: kd_lower_bound_def)

interpretation kd: key_directory kd_get kd_put kd_erase kd_lower_bound kd_sorted
proof (unfold_locales, goal_cases)
  case (1 d k e)
  then show ?case by (simp add: kd_get_def kd_put_def map_of_upsert fun_eq_iff)
next
  case (7 d k)
  then show ?case
    using kd_sorted_filter[OF 7, of "\<lambda>(k', e). k \<le> k'"]
    by (simp add: kd_lower_bound_filter kd_sorted_def)
next
  case (8 d k' e k)
  then show ?case
    using kd_sorted_distinct[OF 8]
    by (auto simp: kd_lower_bound_filter kd_get_def)
qed (simp_all add: kd_get_def kd_put_def kd_erase_def kd_sorted_upsert kd_sorted_filter
       map_of_filter_key fun_eq_iff)

section \<open>Live bytes\<close>

text \<open>The bytes of the records of a file that the key directory points at.\<close>

definition kd_part :: "nat \<Rightarrow> key \<Rightarrow> KeyDirEntry option \<Rightarrow> nat" where
  "kd_part f k eo = (case eo of None \<Rightarrow> 0
     | Some e \<Rightarrow> if kde_file_id e = f then entry_size (length k) (kde_value_size e) else 0)"

definition kd_live :: "key_dir \<Rightarrow> nat \<Rightarrow> nat" where
  "kd_live kd f = sum_list (map (\<lambda>(k, e). kd_part f k (Some e)) kd)"

lemma kd_live_simps [simp]:
  "kd_live [] f = 0"
  "kd_live ((k, e) # kd) f = kd_part f k (Some e) + kd_live kd f"
  by (simp_all add: kd_live_def)

lemma kd_part_None [simp]: "kd_part f k None = 0"
  by (simp add: kd_part_def)

lemma kd_sorted_get_head: "kd_sorted ((k', e') # kd) \<Longrightarrow> k \<le> k' \<Longrightarrow> map_of kd k = None"
  by (force simp: map_of_eq_None_iff)

lemma kd_live_upsert:
  "kd_sorted kd \<Longrightarrow>
   kd_live (kd_upsert kd k e) f + kd_part f k (kd_get kd k) = kd_live kd f + kd_part f k (Some e)"
proof (induction kd k e rule: kd_upsert.induct)
  case (2 k' e' kd k e)
  have "map_of kd k = None" if "k < k'"
    using kd_sorted_get_head[OF 2(2)] that by simp
  with 2 show ?case by (auto simp: kd_get_def)
qed (simp add: kd_get_def)

lemma kd_live_filter:
  "kd_sorted kd \<Longrightarrow>
   kd_live (filter (\<lambda>(k', e). k' \<noteq> k) kd) f + kd_part f k (kd_get kd k) = kd_live kd f"
proof (induction kd)
  case (Cons x kd)
  obtain k' e' where x: "x = (k', e')" by fastforce
  have "filter (\<lambda>(k', e). k' \<noteq> k) kd = kd" if "k = k'"
    using Cons.prems that by (force simp: x filter_id_conv)
  with Cons show ?case by (auto simp: x kd_get_def)
qed (simp add: kd_get_def)

lemma kd_live_put:
  "kd_sorted kd \<Longrightarrow> kd_live (fst (kd_put kd k e)) f + kd_part f k (kd_get kd k)
     = kd_live kd f + kd_part f k (Some e)"
  by (simp add: kd_put_def kd_live_upsert)

lemma kd_live_erase:
  "kd_sorted kd \<Longrightarrow> kd_live (fst (kd_erase kd k)) f + kd_part f k (kd_get kd k) = kd_live kd f"
  by (simp add: kd_erase_def kd_live_filter)

text \<open>Erasing a list of distinct keys found in the directory.\<close>

lemma kd_live_erase_all:
  assumes "kd_sorted kd" and "distinct (map fst xs)"
    and "\<forall>(k, e) \<in> set xs. kd_get kd k = Some e"
  shows "kd_live (kd_erase_all (map fst xs) kd) f + sum_list (map (\<lambda>(k, e). kd_part f k (Some e)) xs)
    = kd_live kd f"
  using assms
proof (induction xs arbitrary: kd)
  case (Cons x xs)
  obtain k e where x: "x = (k, e)" by fastforce
  let ?kd = "fst (kd_erase kd k)"
  have "\<forall>(k', e') \<in> set xs. kd_get ?kd k' = Some e'"
    using Cons.prems kd.get_erase[OF Cons.prems(1), of k] by (force simp: x)
  with Cons.IH[of ?kd] Cons.prems kd.wf_erase[OF Cons.prems(1), of k]
  have "kd_live (kd_erase_all (map fst xs) ?kd) f + sum_list (map (\<lambda>(k, e). kd_part f k (Some e)) xs)
    = kd_live ?kd f" by (simp add: x)
  moreover have "kd_live ?kd f + kd_part f k (Some e) = kd_live kd f"
    using kd_live_erase[OF Cons.prems(1), of k f] Cons.prems(3) by (simp add: x)
  ultimately show ?case by (simp add: kd_erase_all_def x)
qed (simp add: kd_erase_all_def)

text \<open>The range loop: what it visits, and the directory after its keys are erased.\<close>

lemma kd_range_iff:
  "kd_sorted kd \<Longrightarrow> (k, e) \<in> set (kd_range kd frm to) \<longleftrightarrow> frm \<le> k \<and> k < to \<and> kd_get kd k = Some e"
  unfolding kd_range_def by (rule kd.range_iff)

lemma kd_range_distinct: "kd_sorted kd \<Longrightarrow> distinct (map fst (kd_range kd frm to))"
proof -
  assume "kd_sorted kd"
  from kd.lower_bound_sorted[OF this] have "distinct (map fst (kd_lower_bound kd frm))"
    using kd_sorted_distinct kd_sorted_def by blast
  then show ?thesis
    unfolding kd_range_def
    by (metis distinct_map distinct_takeWhile inj_on_subset set_takeWhileD subsetI)
qed

lemma kd_sorted_erase_all: "kd_sorted kd \<Longrightarrow> kd_sorted (kd_erase_all ks kd)"
  unfolding kd_erase_all_def using kd.erase_all by blast

lemma kd_get_erase_all: "kd_sorted kd \<Longrightarrow> kd_get (kd_erase_all ks kd) = (kd_get kd) |` (- set ks)"
  unfolding kd_erase_all_def using kd.erase_all by blast

lemma kd_get_erase_range:
  "kd_sorted kd \<Longrightarrow> kd_get (kd_erase_all (map fst (kd_range kd frm to)) kd) =
     (kd_get kd) |` {k. \<not> (frm \<le> k \<and> k < to)}"
  unfolding kd_erase_all_def kd_range_def by (rule kd.erase_range)

lemma kd_set_get: "kd_sorted kd \<Longrightarrow> (k, e) \<in> set kd \<longleftrightarrow> kd_get kd k = Some e"
  by (simp add: kd_get_def kd_sorted_distinct)

end
