(* ===== verification/FileStats.thy ===== *)
theory FileStats
  imports PatchMap KeyDir
begin

text \<open>
  Per-file statistics (\<^verbatim>\<open>FileStats\<close>, \<^verbatim>\<open>FileStatsDelta\<close> and \<^verbatim>\<open>FileStatsPolicy\<close> of
  \<^verbatim>\<open>internals.cppm\<close>). The byte counters are 64-bit words and wrap as the source's do; sequences are
  natural numbers. The engine sees the statistics as a map from file ids; the patch map that
  stores them is shown to be that map.
\<close>

record FileStats =
  live_bytes :: u64
  total_bytes :: u64
  min_sequence :: nat
  max_sequence :: nat
  tombstone_bytes :: u64
  marker_bytes :: u64
  change_marker_bytes :: u64

definition FileStats_empty :: FileStats where
  "FileStats_empty = \<lparr>live_bytes = 0, total_bytes = 0, min_sequence = 0, max_sequence = 0,
     tombstone_bytes = 0, marker_bytes = 0, change_marker_bytes = 0\<rparr>"

definition reclaimable_bytes :: "FileStats \<Rightarrow> u64" where
  "reclaimable_bytes fs =
    (let kept = live_bytes fs + tombstone_bytes fs + marker_bytes fs + change_marker_bytes fs
     in if total_bytes fs > kept then total_bytes fs - kept else 0)"

record FileStatsDelta =
  live_added :: u64
  live_removed :: u64
  total_added :: u64
  tombstone_added :: u64
  marker_added :: u64
  change_marker_added :: u64
  d_min_sequence :: nat
  d_max_sequence :: nat

definition delta0 :: FileStatsDelta where
  "delta0 = \<lparr>live_added = 0, live_removed = 0, total_added = 0, tombstone_added = 0,
     marker_added = 0, change_marker_added = 0, d_min_sequence = 0, d_max_sequence = 0\<rparr>"

definition fs_apply :: "FileStatsDelta \<Rightarrow> FileStats \<Rightarrow> FileStats" where
  "fs_apply d fs = \<lparr>
     live_bytes = live_bytes fs + live_added d - live_removed d,
     total_bytes = total_bytes fs + total_added d,
     min_sequence = (if min_sequence fs = 0 then d_min_sequence d else min_sequence fs),
     max_sequence = max (max_sequence fs) (d_max_sequence d),
     tombstone_bytes = tombstone_bytes fs + tombstone_added d,
     marker_bytes = marker_bytes fs + marker_added d,
     change_marker_bytes = change_marker_bytes fs + change_marker_added d\<rparr>"

definition fs_combine :: "FileStatsDelta \<Rightarrow> FileStatsDelta \<Rightarrow> FileStatsDelta" where
  "fs_combine older d = \<lparr>
     live_added = live_added older + live_added d,
     live_removed = live_removed older + live_removed d,
     total_added = total_added older + total_added d,
     tombstone_added = tombstone_added older + tombstone_added d,
     marker_added = marker_added older + marker_added d,
     change_marker_added = change_marker_added older + change_marker_added d,
     d_min_sequence = (if d_min_sequence older = 0 then d_min_sequence d else d_min_sequence older),
     d_max_sequence = max (d_max_sequence older) (d_max_sequence d)\<rparr>"

interpretation fs: patch_policy fs_apply fs_combine
  by unfold_locales (simp add: fs_apply_def fs_combine_def max.assoc)

section \<open>The statistics as a map\<close>

type_synonym file_stats = "(nat \<times> FileStats) list"

definition fs_get :: "file_stats \<Rightarrow> nat \<Rightarrow> FileStats option" where
  "fs_get m f = map_of m f"

definition fs_patch :: "nat \<Rightarrow> FileStatsDelta \<Rightarrow> file_stats \<Rightarrow> file_stats" where
  "fs_patch f d m = map (\<lambda>(g, s). (g, if g = f then fs_apply d s else s)) m"

definition fs_set :: "nat \<Rightarrow> FileStats \<Rightarrow> file_stats \<Rightarrow> file_stats" where
  "fs_set f s m = AList.update f s m"

definition fs_erase :: "nat \<Rightarrow> file_stats \<Rightarrow> file_stats" where
  "fs_erase f m = AList.delete f m"

named_theorems fs_simps \<open>reading the statistics after a change\<close>

lemma fs_get_patch [fs_simps]:
  "fs_get (fs_patch f d m) g = (if g = f then map_option (fs_apply d) (fs_get m f) else fs_get m g)"
  by (induction m) (auto simp: fs_patch_def fs_get_def)

lemma fs_get_set [fs_simps]: "fs_get (fs_set f s m) g = (if g = f then Some s else fs_get m g)"
  by (simp add: fs_get_def fs_set_def update_conv')

lemma fs_get_erase [fs_simps]: "fs_get (fs_erase f m) g = (if g = f then None else fs_get m g)"
  by (simp add: fs_get_def fs_erase_def delete_conv')

definition map_write ::
  "nat \<times> (FileStats, FileStatsDelta) patch \<Rightarrow> (nat \<Rightarrow> FileStats option) \<Rightarrow> nat \<Rightarrow> FileStats option" where
  "map_write w f = (case w of (k, p) \<Rightarrow> f(k := patch_fun fs_apply p (f k)))"

text \<open>
  C9. The patch map that stores the statistics is a map: whatever writes a transient records
  (sets, erases and deltas, in any order), reading a file id after freezing, squashed or not,
  gives what applying those writes one after another to the map before gives. A delta to an
  absent id is dropped, deltas that were merged act as each in turn.
\<close>

theorem file_stats_patch_map:
  assumes "pm_wf m"
  shows "pm_get fs_apply
      (tm_persistent fs_apply depth
        (fold (\<lambda>(k, p). tm_record fs_apply fs_combine k p) ws (pm_transient m)))
    = fold map_write ws (pm_get fs_apply m)"
proof -
  have "tm_wf (fold (\<lambda>(k, p). tm_record fs_apply fs_combine k p) ws t) \<and>
      tm_get fs_apply (fold (\<lambda>(k, p). tm_record fs_apply fs_combine k p) ws t)
      = fold map_write ws (tm_get fs_apply t)" if "tm_wf t" for t
    using that
  proof (induction ws arbitrary: t)
    case (Cons w ws)
    obtain k p where w: "w = (k, p)" by fastforce
    have "tm_get fs_apply (tm_record fs_apply fs_combine k p t) = map_write w (tm_get fs_apply t)"
      using fs.tm_get_record[OF Cons.prems] by (auto simp: map_write_def w)
    then show ?case
      using Cons.IH[OF fs.tm_record_wf[OF Cons.prems, of k p]] by (simp add: w)
  qed simp
  note run = this[OF fs.tm_wf_transient[OF assms]]
  have "tm_get fs_apply (pm_transient m) = pm_get fs_apply m"
    by (rule ext) (rule fs.tm_get_transient)
  with run show ?thesis
    by (simp add: fun_eq_iff fs.pm_get_persistent)
qed

theorem file_stats_patch_map_witness:
  "pm_wf \<lparr>pm_base = [(3, FileStats_empty)], pm_runs = [[(3, PDelta (delta0\<lparr>live_added := 5\<rparr>))]]\<rparr> \<and>
   map_option live_bytes (pm_get fs_apply
      (tm_persistent fs_apply 1
        (fold (\<lambda>(k, p). tm_record fs_apply fs_combine k p)
          [(3, PDelta (delta0\<lparr>live_added := 4\<rparr>)), (3, PDelta (delta0\<lparr>live_removed := 2\<rparr>))]
          (pm_transient \<lparr>pm_base = [(3, FileStats_empty)],
             pm_runs = [[(3, PDelta (delta0\<lparr>live_added := 5\<rparr>))]]\<rparr>))) 3) = Some 7"
proof -
  let ?m = "\<lparr>pm_base = [(3, FileStats_empty)], pm_runs = [[(3, PDelta (delta0\<lparr>live_added := 5\<rparr>))]]\<rparr>"
  have wf: "pm_wf ?m" by (simp add: pm_wf_def)
  have "map_option live_bytes (pm_get fs_apply ?m 3) = Some 5"
    by (simp add: pm_get_def lookup_def fs_apply_def FileStats_empty_def delta0_def)
  then obtain z where "pm_get fs_apply ?m 3 = Some z" "live_bytes z = 5" by auto
  then show ?thesis
    using file_stats_patch_map[OF wf, of 1
      "[(3, PDelta (delta0\<lparr>live_added := 4\<rparr>)), (3, PDelta (delta0\<lparr>live_removed := 2\<rparr>))]"] wf
    by (simp add: map_write_def fs_apply_def delta0_def)
qed

end
