(* ===== verification/Engine.thy ===== *)
theory Engine
  imports FileStats
begin

text \<open>
  \<^verbatim>\<open>EngineState\<close>, the immutable version of the whole engine (\<^verbatim>\<open>internals.cppm\<close>), its mutable
  working copy \<^verbatim>\<open>TransientEngineState\<close> (\<^verbatim>\<open>engine_state.cpp\<close>), and \<^verbatim>\<open>WritePlan\<close>
  (\<^verbatim>\<open>bytecask.cppm\<close>), the batch of guarded writes a caller builds. A data file of the registry is
  named by its path. The limit on thread-local scratch memory has no effect on any result and is
  left out.
\<close>

datatype Mode = Leader | Follower

type_synonym path = string

record EngineState =
  key_dir :: key_dir
  files :: "(nat \<times> path) list"
  file_stats :: file_stats
  active_file_id :: nat
  next_file_id :: nat
  next_seq :: nat
  durable_seq :: nat
  sync_requested_seq :: nat
  mode :: Mode
  degraded :: bool
  degraded_reason :: string
  closed :: bool
  change_markers :: "change_marker list option"

definition EngineState_new :: EngineState where
  "EngineState_new = \<lparr>key_dir = [], files = [], file_stats = [], active_file_id = 0,
     next_file_id = 0, next_seq = 1, durable_seq = 0, sync_requested_seq = 0, mode = Leader,
     degraded = False, degraded_reason = [], closed = False, change_markers = None\<rparr>"

definition state_marker_at :: "EngineState \<Rightarrow> nat \<Rightarrow> change_marker" where
  "state_marker_at s sequ = marker_at (change_markers s) sequ"

definition is_write_allowed :: "EngineState \<Rightarrow> bool" where
  "is_write_allowed s \<longleftrightarrow> mode s = Leader \<and> \<not> degraded s \<and> \<not> closed s"

definition is_ingestion_allowed :: "EngineState \<Rightarrow> bool" where
  "is_ingestion_allowed s \<longleftrightarrow> mode s = Follower \<and> \<not> degraded s \<and> \<not> closed s"

definition degraded_copy :: "EngineState \<Rightarrow> string \<Rightarrow> EngineState" where
  "degraded_copy s reason = s\<lparr>degraded := True, degraded_reason := reason\<rparr>"

definition closed_copy :: "EngineState \<Rightarrow> EngineState" where
  "closed_copy s = EngineState_new\<lparr>active_file_id := active_file_id s,
     next_file_id := next_file_id s, next_seq := next_seq s, durable_seq := durable_seq s,
     sync_requested_seq := sync_requested_seq s, mode := mode s, degraded := degraded s,
     degraded_reason := degraded_reason s, closed := True\<rparr>"

text \<open>
  The working copy also holds the records the batch has placed but not written, keyed by the
  file and offset that \<^verbatim>\<open>pending_slot\<close> packs into one word.
\<close>

record PendingRecord =
  p_sequence :: nat
  p_value_size :: nat
  p_key :: key

record TransientEngineState = EngineState +
  pending :: "((nat \<times> nat) \<times> PendingRecord) list"

definition transient :: "EngineState \<Rightarrow> TransientEngineState" where
  "transient s = EngineState.extend s \<lparr>pending = []\<rparr>"

definition persistent :: "TransientEngineState \<Rightarrow> EngineState" where
  "persistent t = (EngineState.truncate t)\<lparr>closed := False\<rparr>"

section \<open>Write plans\<close>

record SizeLimits =
  max_key_bytes :: nat
  max_value_bytes :: nat

datatype Precondition = NoPrecondition | MustExist | MustBeAbsent | MustBeUnchanged

datatype WriteOp = PointPut key bytes | PointDel key | RangeDelete key key

record WritePlan =
  snap :: "EngineState option"
  limits :: SizeLimits
  writes :: "WriteOp list"
  guards :: "(key \<times> Precondition) list"
  range_guards :: "(key \<times> key) list"
  snap_entries :: "KeyDirEntry option list"

definition WritePlan_new :: "SizeLimits \<Rightarrow> WritePlan" where
  "WritePlan_new l = \<lparr>snap = None, limits = l, writes = [], guards = [], range_guards = [],
     snap_entries = []\<rparr>"

definition WritePlan_snapshot :: "EngineState \<Rightarrow> SizeLimits \<Rightarrow> WritePlan" where
  "WritePlan_snapshot s l = (WritePlan_new l)\<lparr>snap := Some s\<rparr>"

definition check_key_size :: "nat \<Rightarrow> nat \<Rightarrow> unit result" where
  "check_key_size sz limit = guard (sz \<le> limit) (InvalidArgument ''key size exceeds limit'')"

definition check_range :: "key \<Rightarrow> key \<Rightarrow> unit result" where
  "check_range frm to = guard (frm < to)
     (InvalidArgument ''range [from, to) is empty: from must sort before to'')"

definition check_val_size :: "nat \<Rightarrow> nat \<Rightarrow> unit result" where
  "check_val_size sz limit = guard (sz \<le> limit) (InvalidArgument ''value size exceeds limit'')"

definition plan_put :: "key \<Rightarrow> bytes \<Rightarrow> WritePlan \<Rightarrow> WritePlan result" where
  "plan_put k v p =
    rbind (check_key_size (length k) (max_key_bytes (limits p))) (\<lambda>_.
    rbind (check_val_size (length v) (max_value_bytes (limits p))) (\<lambda>_.
      Inr (p\<lparr>writes := writes p @ [PointPut k v]\<rparr>)))"

definition plan_del :: "key \<Rightarrow> WritePlan \<Rightarrow> WritePlan result" where
  "plan_del k p =
    rbind (check_key_size (length k) (max_key_bytes (limits p))) (\<lambda>_.
      Inr (p\<lparr>writes := writes p @ [PointDel k]\<rparr>))"

definition plan_del_range :: "key \<Rightarrow> key \<Rightarrow> WritePlan \<Rightarrow> WritePlan result" where
  "plan_del_range frm to p =
    rbind (check_key_size (length frm) (max_key_bytes (limits p))) (\<lambda>_.
    rbind (check_key_size (length to) (max_key_bytes (limits p))) (\<lambda>_.
    rbind (check_range frm to) (\<lambda>_.
      Inr (p\<lparr>writes := writes p @ [RangeDelete frm to]\<rparr>))))"

text \<open>The guards are a \<^verbatim>\<open>std::map\<close>: in key order, one per key.\<close>

fun guard_insert :: "key \<Rightarrow> Precondition \<Rightarrow> (key \<times> Precondition) list \<Rightarrow> (key \<times> Precondition) list" where
  "guard_insert k g [] = [(k, g)]"
| "guard_insert k g ((k', g') # gs) =
    (if k < k' then (k, g) # (k', g') # gs
     else if k = k' then (k, g) # gs
     else (k', g') # guard_insert k g gs)"

definition set_precondition :: "key \<Rightarrow> Precondition \<Rightarrow> WritePlan \<Rightarrow> WritePlan result" where
  "set_precondition k pre p =
    (case map_of (guards p) k of
       Some g \<Rightarrow> if g \<noteq> NoPrecondition \<and> g \<noteq> pre
         then Inl (LogicError ''WritePlan: contradictory guards on same key'')
         else Inr (p\<lparr>guards := guard_insert k pre (guards p)\<rparr>)
     | None \<Rightarrow> Inr (p\<lparr>guards := guard_insert k pre (guards p)\<rparr>))"

definition ensure_present :: "key \<Rightarrow> WritePlan \<Rightarrow> WritePlan result" where
  "ensure_present k p =
    rbind (check_key_size (length k) (max_key_bytes (limits p))) (\<lambda>_. set_precondition k MustExist p)"

definition ensure_absent :: "key \<Rightarrow> WritePlan \<Rightarrow> WritePlan result" where
  "ensure_absent k p =
    rbind (check_key_size (length k) (max_key_bytes (limits p))) (\<lambda>_. set_precondition k MustBeAbsent p)"

definition ensure_unchanged :: "key \<Rightarrow> WritePlan \<Rightarrow> WritePlan result" where
  "ensure_unchanged k p =
    rbind (check_key_size (length k) (max_key_bytes (limits p))) (\<lambda>_.
    rbind (guard (snap p \<noteq> None) (LogicError ''WritePlan::ensure_unchanged requires a snapshot'')) (\<lambda>_.
      set_precondition k MustBeUnchanged p))"

definition ensure_range_unchanged :: "key \<Rightarrow> key \<Rightarrow> WritePlan \<Rightarrow> WritePlan result" where
  "ensure_range_unchanged frm to p =
    rbind (check_key_size (length frm) (max_key_bytes (limits p))) (\<lambda>_.
    rbind (check_key_size (length to) (max_key_bytes (limits p))) (\<lambda>_.
    rbind (check_range frm to) (\<lambda>_.
    rbind (guard (snap p \<noteq> None) (LogicError ''WritePlan::ensure_range_unchanged requires a snapshot'')) (\<lambda>_.
      Inr (p\<lparr>range_guards := range_guards p @ [(frm, to)]\<rparr>)))))"

definition plan_empty :: "WritePlan \<Rightarrow> bool" where
  "plan_empty p \<longleftrightarrow> writes p = [] \<and> guards p = [] \<and> range_guards p = []"

definition write_count :: "WritePlan \<Rightarrow> nat" where
  "write_count p = length (writes p)"

fun op_bytes :: "WriteOp \<Rightarrow> nat" where
  "op_bytes (PointPut k v) = entry_size (length k) (length v)"
| "op_bytes (PointDel k) = entry_size (length k) 0"
| "op_bytes (RangeDelete frm to) = entry_size (length frm) (length to)"

definition write_bytes :: "WritePlan \<Rightarrow> nat" where
  "write_bytes p = sum_list (map op_bytes (writes p)) +
     (if length (writes p) > 1 then 2 * (kHeaderSize + kCrcSize) else 0)"

definition resolved_entry :: "WritePlan \<Rightarrow> nat \<Rightarrow> KeyDirEntry option" where
  "resolved_entry p i = (if i < length (snap_entries p) then snap_entries p ! i else None)"

fun resolve_op :: "EngineState \<Rightarrow> WriteOp \<Rightarrow> KeyDirEntry option" where
  "resolve_op s (PointPut k v) = kd_get (key_dir s) k"
| "resolve_op s (PointDel k) = kd_get (key_dir s) k"
| "resolve_op s (RangeDelete frm to) = None"

definition resolve_snapshot_entries :: "WritePlan \<Rightarrow> WritePlan" where
  "resolve_snapshot_entries p = (case snap p of None \<Rightarrow> p
     | Some s \<Rightarrow> p\<lparr>snap_entries := map (resolve_op s) (writes p)\<rparr>)"

definition snapshot_entry :: "WritePlan \<Rightarrow> EngineState \<Rightarrow> nat \<Rightarrow> key \<Rightarrow> KeyDirEntry option" where
  "snapshot_entry p s i k =
    (if i < length (snap_entries p) then snap_entries p ! i else kd_get (key_dir s) k)"

end
