(* ===== verification/Transitions.thy ===== *)
theory Transitions
  imports Engine
begin

text \<open>
  The state transitions of \<^verbatim>\<open>TransientEngineState\<close> (\<^verbatim>\<open>engine_state.cpp\<close>), one definition per
  member function, in the order of the file. \<^verbatim>\<open>reads_keys\<close> is the build constant
  \<^verbatim>\<open>kKeyDirReadsKeys\<close>. A transition that throws returns no working copy: the source leaves it partly
  changed, and every caller drops it.
\<close>

section \<open>Change markers\<close>

definition append_marker :: "change_marker \<Rightarrow> TransientEngineState \<Rightarrow> TransientEngineState" where
  "append_marker m t = t\<lparr>change_markers :=
     Some ((case change_markers t of None \<Rightarrow> [] | Some ms \<Rightarrow> ms) @ [m])\<rparr>"

definition apply_change_marker :: "nat \<Rightarrow> nat \<Rightarrow> TransientEngineState \<Rightarrow> TransientEngineState" where
  "apply_change_marker sequ mid t =
    (let sz = word_of_nat (change_marker_size ChangeMarker);
         t1 = t\<lparr>file_stats := fs_patch (active_file_id t)
                  (delta0\<lparr>total_added := sz, change_marker_added := sz,
                     d_min_sequence := sequ, d_max_sequence := sequ\<rparr>) (file_stats t)\<rparr>;
         t2 = (if sequ \<ge> next_seq t1 then t1\<lparr>next_seq := sequ + 1\<rparr> else t1)
     in append_marker \<lparr>since_sequence = sequ, marker_id = mid\<rparr> t2)"

section \<open>Preconditions\<close>

text \<open>A key's sequence, 0 when it is absent, and what an outcome that read it rests on.\<close>

definition seq_or_0 :: "KeyDirEntry option \<Rightarrow> nat" where
  "seq_or_0 eo = (case eo of None \<Rightarrow> 0 | Some e \<Rightarrow> kde_sequence e)"

definition read_seq :: "TransientEngineState \<Rightarrow> KeyDirEntry option \<Rightarrow> nat" where
  "read_seq t cur = (case cur of None \<Rightarrow> next_seq t - 1 | Some e \<Rightarrow> kde_sequence e)"

text \<open>The point guards: \<^term>\<open>Inl\<close> what the plan lost to, \<^term>\<open>Inr\<close> the latest entry they read.\<close>

fun check_guards ::
  "TransientEngineState \<Rightarrow> EngineState option \<Rightarrow> (key \<times> Precondition) list \<Rightarrow> nat \<Rightarrow> nat + nat" where
  "check_guards t sn [] held_on = Inr held_on"
| "check_guards t sn ((k, g) # gs) held_on =
    (let cur = kd_get (key_dir t) k; held = max held_on (read_seq t cur) in
     case g of
       MustExist \<Rightarrow> if cur = None then Inl (read_seq t None) else check_guards t sn gs held
     | MustBeAbsent \<Rightarrow> if cur \<noteq> None then Inl (read_seq t cur) else check_guards t sn gs held
     | MustBeUnchanged \<Rightarrow>
         if seq_or_0 cur \<noteq> seq_or_0 (kd_get (key_dir (the sn)) k) then Inl (read_seq t cur)
         else check_guards t sn gs held
     | NoPrecondition \<Rightarrow> check_guards t sn gs held_on)"

text \<open>
  Whether a range differs between the snapshot and the head, as what the difference rests on:
  first the keys of the head whose sequence the snapshot does not hold, then the keys of the
  snapshot the head no longer has.
\<close>

definition range_changed ::
  "TransientEngineState \<Rightarrow> EngineState \<Rightarrow> key \<Rightarrow> key \<Rightarrow> nat option" where
  "range_changed t sn frm to =
    (case List.find (\<lambda>(k, e). kde_sequence e \<noteq> seq_or_0 (kd_get (key_dir sn) k))
            (kd_range (key_dir t) frm to) of
       Some (k, e) \<Rightarrow> Some (kde_sequence e)
     | None \<Rightarrow>
         (case List.find (\<lambda>(k, e). kd_get (key_dir t) k = None) (kd_range (key_dir sn) frm to) of
            Some _ \<Rightarrow> Some (next_seq t - 1)
          | None \<Rightarrow> None))"

fun check_range_guards ::
  "TransientEngineState \<Rightarrow> EngineState option \<Rightarrow> (key \<times> key) list \<Rightarrow> nat \<Rightarrow> nat + nat" where
  "check_range_guards t sn [] held_on = Inr held_on"
| "check_range_guards t sn ((frm, to) # rgs) held_on =
    (case range_changed t (the sn) frm to of
       Some r \<Rightarrow> Inl r
     | None \<Rightarrow> check_range_guards t sn rgs (next_seq t - 1))"

definition point_conflict ::
  "bool \<Rightarrow> TransientEngineState \<Rightarrow> WritePlan \<Rightarrow> EngineState \<Rightarrow> nat \<Rightarrow> key \<Rightarrow> nat option" where
  "point_conflict reads_keys t p sn i k =
    (let se = snapshot_entry p sn i k in
     if se \<noteq> None \<and> kd_holds reads_keys (key_dir t) k (the se) then None
     else let cur = kd_get (key_dir t) k;
              appeared = (se = None \<and> cur \<noteq> None);
              deleted = (se \<noteq> None \<and> cur = None);
              modified = (se \<noteq> None \<and> cur \<noteq> None \<and> kde_sequence (the cur) \<noteq> kde_sequence (the se))
          in if \<not> (appeared \<or> deleted \<or> modified) then None else Some (read_seq t cur))"

fun write_conflicts ::
  "bool \<Rightarrow> TransientEngineState \<Rightarrow> WritePlan \<Rightarrow> EngineState \<Rightarrow> nat \<Rightarrow> WriteOp list \<Rightarrow> nat option" where
  "write_conflicts reads_keys t p sn i [] = None"
| "write_conflicts reads_keys t p sn i (w # ws) =
    (case (case w of
             PointPut k v \<Rightarrow> point_conflict reads_keys t p sn i k
           | PointDel k \<Rightarrow> point_conflict reads_keys t p sn i k
           | RangeDelete frm to \<Rightarrow> range_changed t sn frm to) of
       Some r \<Rightarrow> Some r
     | None \<Rightarrow> write_conflicts reads_keys t p sn (Suc i) ws)"

definition validate_preconditions ::
  "bool \<Rightarrow> TransientEngineState \<Rightarrow> WritePlan \<Rightarrow> bool \<Rightarrow> bool \<times> nat" where
  "validate_preconditions reads_keys t p defer_puts =
    (case check_guards t (snap p) (guards p) 0 of
       Inl r \<Rightarrow> (False, r)
     | Inr held1 \<Rightarrow>
         (case check_range_guards t (snap p) (range_guards p) held1 of
            Inl r \<Rightarrow> (False, r)
          | Inr held_on \<Rightarrow>
              (case (if snap p \<noteq> None \<and> \<not> defer_puts
                     then write_conflicts reads_keys t p (the (snap p)) 0 (writes p) else None) of
                 Some r \<Rightarrow> (False, r)
               | None \<Rightarrow> (True, held_on))))"

section \<open>Writing a plan\<close>

fun op_entry :: "nat \<Rightarrow> WriteOp \<Rightarrow> DataEntry" where
  "op_entry sequ (PointPut k v) = \<lparr>e_sequence = sequ, e_type = Put, e_key = k, e_value = v\<rparr>"
| "op_entry sequ (PointDel k) = \<lparr>e_sequence = sequ, e_type = Delete, e_key = k, e_value = []\<rparr>"
| "op_entry sequ (RangeDelete frm to) =
     \<lparr>e_sequence = sequ, e_type = RangeDel, e_key = frm, e_value = to\<rparr>"

fun op_entries :: "nat \<Rightarrow> WriteOp list \<Rightarrow> DataEntry list" where
  "op_entries sequ [] = []"
| "op_entries sequ (w # ws) = op_entry sequ w # op_entries (sequ + 1) ws"

definition prepare_write :: "TransientEngineState \<Rightarrow> WritePlan \<Rightarrow> DataEntry list" where
  "prepare_write t p =
    (let wc = write_count p; multi = wc > 1; s0 = next_seq t in
     if wc = 0 then []
     else if multi then
       \<lparr>e_sequence = s0, e_type = BulkBegin, e_key = [], e_value = []\<rparr> #
       op_entries (s0 + 1) (writes p) @
       [\<lparr>e_sequence = s0 + 1 + wc, e_type = BulkEnd, e_key = [], e_value = []\<rparr>]
     else op_entries s0 (writes p))"

text \<open>The offsets the entries will be written at, from where the file ends.\<close>

fun entry_offsets :: "nat \<Rightarrow> DataEntry list \<Rightarrow> nat list" where
  "entry_offsets off [] = []"
| "entry_offsets off (e # es) =
    off # entry_offsets (off + entry_size (length (e_key e)) (length (e_value e))) es"

definition note_pending :: "bool \<Rightarrow> nat \<Rightarrow> nat \<Rightarrow> key \<Rightarrow> nat \<Rightarrow> TransientEngineState \<Rightarrow> TransientEngineState" where
  "note_pending reads_keys off sequ k vs t =
    (if reads_keys then t\<lparr>pending := AList.update (active_file_id t, off)
        \<lparr>p_sequence = sequ, p_value_size = vs, p_key = k\<rparr> (pending t)\<rparr>
     else t)"

text \<open>The bytes a displaced record takes off its file's live bytes.\<close>

definition drop_live :: "key \<Rightarrow> KeyDirEntry option \<Rightarrow> file_stats \<Rightarrow> file_stats" where
  "drop_live k hit st = (case hit of None \<Rightarrow> st
     | Some h \<Rightarrow> fs_patch (kde_file_id h)
         (delta0\<lparr>live_removed := word_of_nat (entry_size (length k) (kde_value_size h))\<rparr>) st)"

definition put_by :: "bool \<Rightarrow> KeyDirEntry option \<Rightarrow> key_dir \<Rightarrow> key \<Rightarrow> KeyDirEntry \<Rightarrow> key_dir \<times> KeyDirEntry option" where
  "put_by reads_keys at kd k e =
    (case at of
       None \<Rightarrow> kd_put kd k e
     | Some a \<Rightarrow> (case kd_put_at reads_keys kd k a e of
                   Some kd' \<Rightarrow> (kd', Some a)
                 | None \<Rightarrow> kd_put kd k e))"

definition erase_by :: "bool \<Rightarrow> KeyDirEntry option \<Rightarrow> key_dir \<Rightarrow> key \<Rightarrow> key_dir \<times> KeyDirEntry option" where
  "erase_by reads_keys at kd k =
    (case at of
       None \<Rightarrow> kd_erase kd k
     | Some a \<Rightarrow> (case kd_erase_at reads_keys kd k a of
                   Some kd' \<Rightarrow> (kd', Some a)
                 | None \<Rightarrow> kd_erase kd k))"

text \<open>The loop a range delete runs: the keys of the range, each dropped from its file's live bytes.\<close>

definition erase_range :: "key_dir \<Rightarrow> (key \<times> KeyDirEntry) list \<Rightarrow> file_stats \<Rightarrow> key_dir \<times> file_stats" where
  "erase_range kd xs st =
    (kd_erase_all (map fst xs) kd, fold (\<lambda>(k, e). drop_live k (Some e)) xs st)"

fun apply_write ::
  "bool \<Rightarrow> KeyDirEntry option \<Rightarrow> nat \<Rightarrow> WriteOp \<Rightarrow> TransientEngineState \<Rightarrow> TransientEngineState result" where
  "apply_write reads_keys at off (PointPut k v) t =
    rbind (narrow 32 (length v)) (\<lambda>vs.
    rbind (kde_make (next_seq t) off (active_file_id t) vs) (\<lambda>e.
      let t1 = note_pending reads_keys off (next_seq t) k vs t;
          r = put_by reads_keys at (key_dir t1) k e;
          sz = word_of_nat (entry_size (length k) vs);
          st = fs_patch (active_file_id t1) (delta0\<lparr>live_added := sz, total_added := sz\<rparr>)
                 (drop_live k (snd r) (file_stats t1))
      in Inr (t1\<lparr>key_dir := fst r, file_stats := st, next_seq := next_seq t1 + 1\<rparr>)))"
| "apply_write reads_keys at off (PointDel k) t =
    (let r = erase_by reads_keys at (key_dir t) k;
         sz = word_of_nat (entry_size (length k) 0);
         st = fs_patch (active_file_id t) (delta0\<lparr>total_added := sz, tombstone_added := sz\<rparr>)
                (drop_live k (snd r) (file_stats t))
     in Inr (t\<lparr>key_dir := fst r, file_stats := st, next_seq := next_seq t + 1\<rparr>))"
| "apply_write reads_keys at off (RangeDelete frm to) t =
    (let r = erase_range (key_dir t) (kd_range (key_dir t) frm to) (file_stats t);
         sz = word_of_nat (entry_size (length frm) (length to));
         st = fs_patch (active_file_id t) (delta0\<lparr>total_added := sz, tombstone_added := sz\<rparr>) (snd r)
     in Inr (t\<lparr>key_dir := fst r, file_stats := st, next_seq := next_seq t + 1\<rparr>))"

text \<open>A \<^verbatim>\<open>BulkBegin\<close> or \<^verbatim>\<open>BulkEnd\<close> marker: a sequence and its bytes.\<close>

definition apply_bulk_marker :: "TransientEngineState \<Rightarrow> TransientEngineState" where
  "apply_bulk_marker t =
    (let m = word_of_nat (marker_size BulkBegin) in
     t\<lparr>file_stats := fs_patch (active_file_id t) (delta0\<lparr>total_added := m, marker_added := m\<rparr>) (file_stats t),
       next_seq := next_seq t + 1\<rparr>)"

fun apply_write_loop ::
  "bool \<Rightarrow> WritePlan \<Rightarrow> nat list \<Rightarrow> nat \<Rightarrow> nat \<Rightarrow> WriteOp list \<Rightarrow> TransientEngineState \<Rightarrow> TransientEngineState result"
where
  "apply_write_loop reads_keys p offs w_idx io_idx [] t = Inr t"
| "apply_write_loop reads_keys p offs w_idx io_idx (w # ws) t =
    rbind (apply_write reads_keys (resolved_entry p w_idx) (offs ! io_idx) w t)
      (apply_write_loop reads_keys p offs (w_idx + 1) (io_idx + 1) ws)"

definition patch_bounds :: "nat \<Rightarrow> nat \<Rightarrow> TransientEngineState \<Rightarrow> TransientEngineState" where
  "patch_bounds lo hi t = t\<lparr>file_stats := fs_patch (active_file_id t)
     (delta0\<lparr>d_min_sequence := lo, d_max_sequence := hi\<rparr>) (file_stats t)\<rparr>"

definition apply_writes ::
  "bool \<Rightarrow> WritePlan \<Rightarrow> nat list \<Rightarrow> TransientEngineState \<Rightarrow> TransientEngineState result" where
  "apply_writes reads_keys p offs t =
    (let multi = write_count p > 1; start = next_seq t;
         t1 = (if multi then apply_bulk_marker t else t)
     in rbind (apply_write_loop reads_keys p offs 0 (if multi then 1 else 0) (writes p) t1) (\<lambda>t2.
          let t3 = (if multi then apply_bulk_marker t2 else t2)
          in Inr (patch_bounds start (next_seq t3 - 1) t3)))"

section \<open>Puts checked by the descent that applies them\<close>

fun is_point_put :: "WriteOp \<Rightarrow> bool" where
  "is_point_put (PointPut k v) = True"
| "is_point_put _ = False"

definition can_apply_puts_checked :: "bool \<Rightarrow> WritePlan \<Rightarrow> bool" where
  "can_apply_puts_checked reads_keys p =
    (if \<not> reads_keys then False
     else if snap p = None \<or> writes p = [] \<or> length (snap_entries p) \<noteq> length (writes p) then False
     else list_all is_point_put (writes p))"

text \<open>One undo entry per put applied, oldest first: the key, where the plan put it, what it replaced.\<close>

type_synonym undo = "key \<times> KeyDirEntry \<times> KeyDirEntry option"

datatype puts_outcome =
    PutsDone TransientEngineState "undo list" u64
  | PutsAbandoned TransientEngineState "undo list" nat

fun puts_loop ::
  "bool \<Rightarrow> WritePlan \<Rightarrow> nat list \<Rightarrow> nat \<Rightarrow> nat \<Rightarrow> WriteOp list \<Rightarrow> undo list \<Rightarrow> u64 \<Rightarrow>
   TransientEngineState \<Rightarrow> puts_outcome result" where
  "puts_loop rk p offs w_idx io_idx [] undo put_bytes t = Inr (PutsDone t undo put_bytes)"
| "puts_loop rk p offs w_idx io_idx (PointPut k v # ws) undo put_bytes t =
    rbind (narrow 32 (length v)) (\<lambda>vs.
    rbind (kde_make (next_seq t) (offs ! io_idx) (active_file_id t) vs) (\<lambda>e.
      let t1 = note_pending rk (offs ! io_idx) (next_seq t) k vs t;
          bytes' = put_bytes + word_of_nat (entry_size (length k) vs) in
      case resolved_entry p w_idx of
        Some at \<Rightarrow>
          (case kd_put_at rk (key_dir t1) k at e of
             None \<Rightarrow> Inr (PutsAbandoned t1 undo io_idx)
           | Some kd' \<Rightarrow> puts_loop rk p offs (w_idx + 1) (io_idx + 1) ws (undo @ [(k, e, Some at)]) bytes'
               (t1\<lparr>key_dir := kd', next_seq := next_seq t1 + 1\<rparr>))
      | None \<Rightarrow>
          (let r = kd_put (key_dir t1) k e; undo' = undo @ [(k, e, snd r)];
               t2 = t1\<lparr>key_dir := fst r\<rparr> in
           if snd r \<noteq> None then Inr (PutsAbandoned t2 undo' io_idx)
           else puts_loop rk p offs (w_idx + 1) (io_idx + 1) ws undo' bytes'
                  (t2\<lparr>next_seq := next_seq t2 + 1\<rparr>))))"
| "puts_loop rk p offs w_idx io_idx (w # ws) undo put_bytes t = Inl (LogicError ''std::get: wrong index for variant'')"

text \<open>Takes the puts back, newest first, by location.\<close>

fun undo_loop :: "bool \<Rightarrow> undo list \<Rightarrow> key_dir \<Rightarrow> key_dir result" where
  "undo_loop rk [] kd = Inr kd"
| "undo_loop rk ((k, now, was) # us) kd =
    (case (case was of Some w \<Rightarrow> kd_restore rk kd k now w | None \<Rightarrow> kd_remove rk kd k now) of
       None \<Rightarrow> Inl (LogicError ''apply_puts_checked: undo found a key moved from where the plan put it'')
     | Some kd' \<Rightarrow> undo_loop rk us kd')"

definition abandon ::
  "bool \<Rightarrow> nat list \<Rightarrow> nat \<Rightarrow> nat \<Rightarrow> nat \<Rightarrow> undo list \<Rightarrow> TransientEngineState \<Rightarrow> TransientEngineState result" where
  "abandon rk offs first_io io_idx first_seq undo t =
    rbind (undo_loop rk (rev undo) (key_dir t)) (\<lambda>kd.
      Inr (t\<lparr>key_dir := kd,
             pending := fold (\<lambda>i m. AList.delete (active_file_id t, offs ! i) m)
               [first_io..<Suc io_idx] (pending t),
             next_seq := first_seq\<rparr>))"

definition apply_puts_checked ::
  "bool \<Rightarrow> WritePlan \<Rightarrow> nat list \<Rightarrow> TransientEngineState \<Rightarrow> (bool \<times> TransientEngineState) result" where
  "apply_puts_checked rk p offs t =
    (let multi = write_count p > 1; first_seq = next_seq t; first_io = (if multi then 1 else 0);
         t1 = (if multi then t\<lparr>next_seq := next_seq t + 1\<rparr> else t)
     in rbind (puts_loop rk p offs 0 first_io (writes p) [] 0 t1) (\<lambda>oc.
        case oc of
          PutsAbandoned t2 undo io_idx \<Rightarrow>
            rbind (abandon rk offs first_io io_idx first_seq undo t2) (\<lambda>t3. Inr (False, t3))
        | PutsDone t2 undo put_bytes \<Rightarrow>
            let t3 = (if multi then t2\<lparr>next_seq := next_seq t2 + 1\<rparr> else t2);
                markers = (if multi then 2 * word_of_nat (marker_size BulkBegin) else 0);
                st = fs_patch (active_file_id t3)
                       (delta0\<lparr>live_added := put_bytes, total_added := put_bytes + markers,
                          marker_added := markers, d_min_sequence := first_seq,
                          d_max_sequence := next_seq t3 - 1\<rparr>) (file_stats t3);
                st' = fold (\<lambda>(k, now, was). drop_live k was) undo st
            in Inr (True, t3\<lparr>file_stats := st'\<rparr>)))"

section \<open>Ingest\<close>

fun apply_ingest_entry ::
  "bool \<Rightarrow> DataEntry \<Rightarrow> nat \<Rightarrow> TransientEngineState \<Rightarrow> TransientEngineState result" where
  "apply_ingest_entry rk e off t =
    (let act = active_file_id t; st = file_stats t; k = e_key e in
     case e_type e of
       BulkBegin \<Rightarrow> (let m = word_of_nat (marker_size BulkBegin) in
         Inr (t\<lparr>file_stats := fs_patch act (delta0\<lparr>total_added := m, marker_added := m\<rparr>) st\<rparr>))
     | BulkEnd \<Rightarrow> (let m = word_of_nat (marker_size BulkEnd) in
         Inr (t\<lparr>file_stats := fs_patch act (delta0\<lparr>total_added := m, marker_added := m\<rparr>) st\<rparr>))
     | ChangeMarker \<Rightarrow> (let m = word_of_nat (change_marker_size ChangeMarker) in
         Inr (append_marker \<lparr>since_sequence = e_sequence e, marker_id = decode_marker_id (e_value e)\<rparr>
           (t\<lparr>file_stats := fs_patch act (delta0\<lparr>total_added := m, change_marker_added := m\<rparr>) st\<rparr>)))
     | Put \<Rightarrow>
         rbind (narrow 32 (length (e_value e))) (\<lambda>vs.
         rbind (kde_make (e_sequence e) off act vs) (\<lambda>kde.
           let t1 = note_pending rk off (e_sequence e) k vs t;
               r = kd_put (key_dir t1) k kde;
               sz = word_of_nat (entry_size (length k) vs)
           in Inr (t1\<lparr>key_dir := fst r,
                file_stats := fs_patch act (delta0\<lparr>live_added := sz, total_added := sz\<rparr>)
                  (drop_live k (snd r) (file_stats t1))\<rparr>)))
     | Delete \<Rightarrow>
         (let r = kd_erase (key_dir t) k; sz = word_of_nat (entry_size (length k) 0)
          in Inr (t\<lparr>key_dir := fst r,
               file_stats := fs_patch act (delta0\<lparr>total_added := sz, tombstone_added := sz\<rparr>)
                 (drop_live k (snd r) st)\<rparr>))
     | RangeDel \<Rightarrow>
         (let r = erase_range (key_dir t) (kd_range (key_dir t) k (e_value e)) st;
              sz = word_of_nat (entry_size (length k) (length (e_value e)))
          in Inr (t\<lparr>key_dir := fst r,
               file_stats := fs_patch act (delta0\<lparr>total_added := sz, tombstone_added := sz\<rparr>) (snd r)\<rparr>))
     | UnknownType b \<Rightarrow> Inr t)"

fun apply_ingest_loop ::
  "bool \<Rightarrow> (DataEntry \<times> nat) list \<Rightarrow> nat \<Rightarrow> TransientEngineState \<Rightarrow> (nat \<times> TransientEngineState) result" where
  "apply_ingest_loop rk [] max_seq t = Inr (max_seq, t)"
| "apply_ingest_loop rk ((e, off) # es) max_seq t =
    rbind (apply_ingest_entry rk e off t)
      (apply_ingest_loop rk es (if e_sequence e > max_seq then e_sequence e else max_seq))"

definition apply_ingest ::
  "bool \<Rightarrow> DataEntry list \<Rightarrow> nat list \<Rightarrow> TransientEngineState \<Rightarrow> TransientEngineState result" where
  "apply_ingest rk es offs t =
    (if es = [] then Inr t
     else rbind (apply_ingest_loop rk (zip es offs) 0 t) (\<lambda>(max_seq, t1).
       let t2 = (if max_seq \<ge> next_seq t1 then t1\<lparr>next_seq := max_seq + 1\<rparr> else t1)
       in Inr (patch_bounds (e_sequence (hd es)) max_seq t2)))"

section \<open>Files\<close>

definition apply_rotate_file :: "path \<Rightarrow> path \<Rightarrow> nat \<Rightarrow> TransientEngineState \<Rightarrow> TransientEngineState" where
  "apply_rotate_file sealed_old new_file new_file_id t =
    t\<lparr>files := AList.update new_file_id new_file (AList.update (active_file_id t) sealed_old (files t)),
      active_file_id := new_file_id,
      file_stats := fs_set new_file_id FileStats_empty (file_stats t)\<rparr>"

definition file_ids_left :: "TransientEngineState \<Rightarrow> nat" where
  "file_ids_left t = (if next_file_id t > kMaxFileId then 0 else kMaxFileId - next_file_id t + 1)"

definition reserve_file_id :: "TransientEngineState \<Rightarrow> (nat \<times> TransientEngineState) result" where
  "reserve_file_id t =
    (if file_ids_left t = 0 then Inl (RuntimeError ''file id space exhausted'')
     else Inr (next_file_id t, t\<lparr>next_file_id := next_file_id t + 1\<rparr>))"

section \<open>Vacuum\<close>

record VacuumMapping =
  m_key :: key
  m_new_offset :: nat
  m_sequence :: nat
  m_value_size :: nat

record VacuumScanResult =
  sc_cancelled :: bool
  sc_mappings :: "VacuumMapping list"
  sc_live_bytes :: u64
  sc_total_bytes :: u64
  sc_min_sequence :: nat
  sc_max_sequence :: nat
  sc_tombstone_bytes :: u64
  sc_marker_bytes :: u64
  sc_change_marker_bytes :: u64
  sc_tombstones_dropped :: nat

fun remap_loop ::
  "nat \<Rightarrow> VacuumMapping list \<Rightarrow> u64 \<Rightarrow> key_dir \<Rightarrow> (u64 \<times> key_dir) result" where
  "remap_loop dest [] live kd = Inr (live, kd)"
| "remap_loop dest (m # ms) live kd =
    (case kd_get kd (m_key m) of
       Some cur \<Rightarrow>
         if kde_sequence cur = m_sequence m then
           rbind (kde_make (m_sequence m) (m_new_offset m) dest (m_value_size m)) (\<lambda>e.
             remap_loop dest ms live (fst (kd_put kd (m_key m) e)))
         else remap_loop dest ms (live - word_of_nat (entry_size (length (m_key m)) (m_value_size m))) kd
     | None \<Rightarrow> remap_loop dest ms (live - word_of_nat (entry_size (length (m_key m)) (m_value_size m))) kd)"

definition apply_vacuum ::
  "nat \<Rightarrow> VacuumScanResult \<Rightarrow> path option \<Rightarrow> nat \<Rightarrow> TransientEngineState \<Rightarrow> TransientEngineState result" where
  "apply_vacuum old sc new_sealed dest t =
    (case new_sealed of
       None \<Rightarrow>
         if sc_mappings sc \<noteq> [] then Inl (LogicError ''apply_vacuum: live entries without a destination'')
         else Inr (t\<lparr>files := AList.delete old (files t), file_stats := fs_erase old (file_stats t)\<rparr>)
     | Some f \<Rightarrow>
         rbind (remap_loop dest (sc_mappings sc) (sc_live_bytes sc) (key_dir t)) (\<lambda>(live, kd).
           Inr (t\<lparr>key_dir := kd,
             files := AList.delete old (AList.update dest f (files t)),
             file_stats := fs_set dest
               \<lparr>live_bytes = live, total_bytes = sc_total_bytes sc,
                min_sequence = sc_min_sequence sc, max_sequence = sc_max_sequence sc,
                tombstone_bytes = sc_tombstone_bytes sc, marker_bytes = sc_marker_bytes sc,
                change_marker_bytes = sc_change_marker_bytes sc\<rparr>
               (fs_erase old (file_stats t))\<rparr>)))"

section \<open>Resume\<close>

record ResumeEntry =
  r_sequence :: nat
  r_type :: EntryType
  r_file_offset :: nat
  r_value_size :: nat
  r_key :: key
  r_range_end :: key
  r_marker_id :: nat

fun resume_entry :: "nat \<Rightarrow> ResumeEntry \<Rightarrow> TransientEngineState \<Rightarrow> TransientEngineState result" where
  "resume_entry fid e t =
    (let k = r_key e; existing = kd_get (key_dir t) k in
     case r_type e of
       Put \<Rightarrow>
         if existing = None \<or> kde_sequence (the existing) < r_sequence e then
           rbind (kde_make (r_sequence e) (r_file_offset e) fid (r_value_size e)) (\<lambda>kde.
             let st = fs_patch fid
                   (delta0\<lparr>live_added := word_of_nat (entry_size (length k) (r_value_size e))\<rparr>)
                   (drop_live k existing (file_stats t))
             in Inr (t\<lparr>file_stats := st, key_dir := fst (kd_put (key_dir t) k kde)\<rparr>))
         else Inr t
     | Delete \<Rightarrow>
         if existing \<noteq> None \<and> kde_sequence (the existing) < r_sequence e then
           Inr (t\<lparr>file_stats := drop_live k existing (file_stats t),
                  key_dir := fst (kd_erase (key_dir t) k)\<rparr>)
         else Inr t
     | RangeDel \<Rightarrow>
         (let xs = filter (\<lambda>(k', e'). \<not> kde_sequence e' \<ge> r_sequence e) (kd_range (key_dir t) k (r_range_end e));
              r = erase_range (key_dir t) xs (file_stats t)
          in Inr (t\<lparr>key_dir := fst r, file_stats := snd r\<rparr>))
     | ChangeMarker \<Rightarrow>
         if (case change_markers t of None \<Rightarrow> True | Some ms \<Rightarrow> since_sequence (last ms) < r_sequence e)
         then Inr (append_marker \<lparr>since_sequence = r_sequence e, marker_id = r_marker_id e\<rparr> t)
         else Inr t
     | _ \<Rightarrow> Inr t)"

definition apply_resume ::
  "nat \<Rightarrow> ResumeEntry list \<Rightarrow> nat \<Rightarrow> TransientEngineState \<Rightarrow> TransientEngineState result" where
  "apply_resume fid es valid_offset t =
    rbind (rfold (resume_entry fid) es t) (\<lambda>t1.
      let max_seq = foldl (\<lambda>m e. if r_sequence e > m then r_sequence e else m) 0 es;
          seq_min = foldl (\<lambda>m e. if m = 0 then r_sequence e else m) 0 es;
          tomb = foldl (\<lambda>b e. b + word_of_nat (tombstone_size (r_type e) (length (r_key e)) (length (r_range_end e)))) 0 es;
          mark = foldl (\<lambda>b e. b + word_of_nat (marker_size (r_type e))) 0 es;
          cm = foldl (\<lambda>b e. b + word_of_nat (change_marker_size (r_type e))) 0 es;
          t2 = (if max_seq \<ge> next_seq t1 then t1\<lparr>next_seq := max_seq + 1\<rparr> else t1)
      in Inr (case fs_get (file_stats t2) fid of
           None \<Rightarrow> t2
         | Some fs \<Rightarrow> t2\<lparr>file_stats := fs_set fid
             (fs\<lparr>total_bytes := word_of_nat valid_offset, min_sequence := seq_min,
                max_sequence := max_seq, tombstone_bytes := tomb, marker_bytes := mark,
                change_marker_bytes := cm\<rparr>) (file_stats t2)\<rparr>))"

section \<open>Durability and mode\<close>

definition apply_sync :: "nat \<Rightarrow> TransientEngineState \<Rightarrow> TransientEngineState" where
  "apply_sync batch_max_seq t =
    (if batch_max_seq > durable_seq t then t\<lparr>durable_seq := batch_max_seq\<rparr> else t)"

definition note_sync_requested :: "nat \<Rightarrow> TransientEngineState \<Rightarrow> TransientEngineState" where
  "note_sync_requested sequ t = t\<lparr>sync_requested_seq := max (sync_requested_seq t) sequ\<rparr>"

definition apply_set_mode :: "Mode \<Rightarrow> TransientEngineState \<Rightarrow> TransientEngineState" where
  "apply_set_mode m t = t\<lparr>mode := m\<rparr>"

definition apply_degrade :: "string \<Rightarrow> TransientEngineState \<Rightarrow> TransientEngineState" where
  "apply_degrade reason t = t\<lparr>degraded := True, degraded_reason := reason\<rparr>"

definition apply_clear_degraded :: "TransientEngineState \<Rightarrow> TransientEngineState" where
  "apply_clear_degraded t = t\<lparr>degraded := False, degraded_reason := []\<rparr>"

end
