(* ===== verification/StateInv.thy ===== *)
theory StateInv
  imports Transitions
begin

text \<open>
  The invariant of the engine state and the proof that writing a plan keeps it. The invariant is
  what \<^verbatim>\<open>validate_state_consistency\<close> (\<^verbatim>\<open>db_state.cpp\<close>) checks: every key points into the committed
  extent of a registered file, live bytes are what the key directory says, sequences are below
  the next one, and the marker list and the per-file sequence bounds are in order.
\<close>

section \<open>The invariant\<close>

definition extent :: "'a EngineState_scheme \<Rightarrow> nat \<Rightarrow> nat" where
  "extent s f = (case fs_get (file_stats s) f of None \<Rightarrow> 0 | Some st \<Rightarrow> unat (total_bytes st))"

definition entry_inv :: "'a EngineState_scheme \<Rightarrow> key \<Rightarrow> KeyDirEntry \<Rightarrow> bool" where
  "entry_inv s k e \<longleftrightarrow> kde_file_id e \<in> dom (fs_get (file_stats s)) \<and>
     0 < kde_sequence e \<and> kde_sequence e < next_seq s \<and>
     kde_file_offset e + entry_size (length k) (kde_value_size e) \<le> extent s (kde_file_id e)"

definition keys_inv :: "'a EngineState_scheme \<Rightarrow> bool" where
  "keys_inv s \<longleftrightarrow> kd_sorted (key_dir s) \<and>
     (\<forall>k e. kd_get (key_dir s) k = Some e \<longrightarrow> entry_inv s k e)"

definition live_inv :: "'a EngineState_scheme \<Rightarrow> bool" where
  "live_inv s \<longleftrightarrow> (\<forall>f st. fs_get (file_stats s) f = Some st \<longrightarrow>
     live_bytes st = word_of_nat (kd_live (key_dir s) f))"

definition bounds_inv :: "'a EngineState_scheme \<Rightarrow> bool" where
  "bounds_inv s \<longleftrightarrow> (\<forall>f st. fs_get (file_stats s) f = Some st \<longrightarrow>
     (min_sequence st = 0 \<longleftrightarrow> max_sequence st = 0) \<and> min_sequence st \<le> max_sequence st)"

definition markers_inv :: "'a EngineState_scheme \<Rightarrow> bool" where
  "markers_inv s \<longleftrightarrow> (case change_markers s of None \<Rightarrow> True
     | Some ms \<Rightarrow> ms \<noteq> [] \<and> sorted_wrt (<) (map since_sequence ms) \<and>
         (\<forall>m \<in> set ms. 0 < since_sequence m \<and> since_sequence m < next_seq s))"

definition files_inv :: "'a EngineState_scheme \<Rightarrow> bool" where
  "files_inv s \<longleftrightarrow> dom (map_of (files s)) = dom (fs_get (file_stats s)) \<and>
     active_file_id s \<in> dom (map_of (files s)) \<and>
     (\<forall>f \<in> dom (map_of (files s)). f < next_file_id s)"

definition state_inv :: "'a EngineState_scheme \<Rightarrow> bool" where
  "state_inv s \<longleftrightarrow> keys_inv s \<and> live_inv s \<and> bounds_inv s \<and> markers_inv s \<and> files_inv s \<and> 0 < next_seq s"

section \<open>How the statistics move\<close>

lemma fs_apply_delta0 [simp]: "fs_apply delta0 s = s"
  by (simp add: fs_apply_def delta0_def)

lemma fs_apply_simps [simp]:
  "live_bytes (fs_apply d s) = live_bytes s + live_added d - live_removed d"
  "total_bytes (fs_apply d s) = total_bytes s + total_added d"
  "min_sequence (fs_apply d s) = (if min_sequence s = 0 then d_min_sequence d else min_sequence s)"
  "max_sequence (fs_apply d s) = max (max_sequence s) (d_max_sequence d)"
  by (simp_all add: fs_apply_def)

lemma delta0_simps [simp]:
  "live_added delta0 = 0" "live_removed delta0 = 0" "total_added delta0 = 0"
  "d_min_sequence delta0 = 0" "d_max_sequence delta0 = 0"
  by (simp_all add: delta0_def)

text \<open>Dropping a displaced record changes live bytes only, by the bytes it had in each file.\<close>

lemma drop_live_get:
  "fs_get (drop_live k hit st) f =
    map_option (\<lambda>s. s\<lparr>live_bytes := live_bytes s - word_of_nat (kd_part f k hit)\<rparr>) (fs_get st f)"
proof (cases hit)
  case None
  then show ?thesis by (cases "fs_get st f") (simp_all add: drop_live_def)
next
  case (Some h)
  have *: "fs_apply (delta0\<lparr>live_removed := x\<rparr>) s = s\<lparr>live_bytes := live_bytes s - x\<rparr>" for x s
    by (cases s) (simp add: fs_apply_def delta0_def)
  show ?thesis
    by (cases "fs_get st f") (auto simp: Some drop_live_def fs_get_patch kd_part_def *)
qed

lemma drop_live_all_get:
  "fs_get (fold (\<lambda>(k, e). drop_live k (Some e)) xs st) f =
    map_option (\<lambda>s. s\<lparr>live_bytes := live_bytes s -
      word_of_nat (sum_list (map (\<lambda>(k, e). kd_part f k (Some e)) xs))\<rparr>) (fs_get st f)"
proof (induction xs arbitrary: st)
  case (Cons x xs)
  obtain k e where "x = (k, e)" by fastforce
  then show ?case
    using Cons by (cases "fs_get st f") (simp_all add: drop_live_get diff_diff_eq)
qed (simp add: option.map_ident)

text \<open>
  A change of the state that appends one record of \<^term>\<open>sz\<close> bytes to the active file and moves the
  key directory, as every write does.
\<close>

definition moves ::
  "TransientEngineState \<Rightarrow> nat \<Rightarrow> TransientEngineState \<Rightarrow> bool" where
  "moves t sz t' \<longleftrightarrow>
     kd_sorted (key_dir t') \<and> files t' = files t \<and> active_file_id t' = active_file_id t \<and>
     next_file_id t' = next_file_id t \<and>
     (\<forall>f. map_option (\<lambda>s. (total_bytes s, min_sequence s, max_sequence s, live_bytes s)) (fs_get (file_stats t') f) =
        map_option (\<lambda>s. (total_bytes s + (if f = active_file_id t then word_of_nat sz else 0),
            min_sequence s, max_sequence s,
            live_bytes s + word_of_nat (kd_live (key_dir t') f) - word_of_nat (kd_live (key_dir t) f)))
          (fs_get (file_stats t) f))"

lemma moves_dom: "moves t sz t' \<Longrightarrow> dom (fs_get (file_stats t')) = dom (fs_get (file_stats t))"
proof -
  assume "moves t sz t'"
  then have "fs_get (file_stats t') f = None \<longleftrightarrow> fs_get (file_stats t) f = None" for f
    unfolding moves_def by (elim conjE allE[of _ f]) (drule arg_cong[of _ _ "\<lambda>x. x = None"], simp)
  then show ?thesis by (simp add: dom_def)
qed

lemma moves_get:
  assumes "moves t sz t'" and "fs_get (file_stats t') f = Some st'"
  obtains st where "fs_get (file_stats t) f = Some st"
    "total_bytes st' = total_bytes st + (if f = active_file_id t then word_of_nat sz else 0)"
    "min_sequence st' = min_sequence st" "max_sequence st' = max_sequence st"
    "live_bytes st' = live_bytes st + word_of_nat (kd_live (key_dir t') f) - word_of_nat (kd_live (key_dir t) f)"
proof -
  have "map_option (\<lambda>s. (total_bytes s, min_sequence s, max_sequence s, live_bytes s)) (fs_get (file_stats t') f) =
        map_option (\<lambda>s. (total_bytes s + (if f = active_file_id t then word_of_nat sz else 0),
            min_sequence s, max_sequence s,
            live_bytes s + word_of_nat (kd_live (key_dir t') f) - word_of_nat (kd_live (key_dir t) f)))
          (fs_get (file_stats t) f)"
    using assms(1) unfolding moves_def by blast
  with assms(2) that show thesis by (cases "fs_get (file_stats t) f") auto
qed

lemma unat_add_nat:
  "unat (x :: u64) + n < 2 ^ 64 \<Longrightarrow> unat (x + word_of_nat n) = unat x + n"
  by (simp add: unat_word_ariths unat_of_nat)

lemma moves_extent:
  assumes "moves t sz t'" and "extent t (active_file_id t) + sz < 2 ^ 64"
    and "active_file_id t \<in> dom (fs_get (file_stats t))"
  shows "extent t' f = extent t f + (if f = active_file_id t then sz else 0)"
proof (cases "fs_get (file_stats t') f")
  case None
  then show ?thesis using moves_dom[OF assms(1)] assms(3) by (auto simp: extent_def split: option.splits)
next
  case (Some st')
  from moves_get[OF assms(1) Some] obtain st where st: "fs_get (file_stats t) f = Some st"
    "total_bytes st' = total_bytes st + (if f = active_file_id t then word_of_nat sz else 0)" .
  then show ?thesis
    using Some assms(2) unat_add_nat[of "total_bytes st" sz]
    by (auto simp: extent_def)
qed

lemma moves_live: "live_inv t \<Longrightarrow> moves t sz t' \<Longrightarrow> live_inv t'"
  unfolding live_inv_def
  by (intro allI impI, erule moves_get, assumption) simp

lemma moves_bounds: "bounds_inv t \<Longrightarrow> moves t sz t' \<Longrightarrow> bounds_inv t'"
  unfolding bounds_inv_def
  by (intro allI impI, erule moves_get, assumption) simp

lemma moves_files: "files_inv t \<Longrightarrow> moves t sz t' \<Longrightarrow> files_inv t'"
  using moves_dom[of t sz t'] unfolding files_inv_def moves_def by (elim conjE) simp

lemma entry_inv_grows:
  assumes "entry_inv s k e" and "dom (fs_get (file_stats s)) \<subseteq> dom (fs_get (file_stats s'))"
    and "\<And>f. extent s f \<le> extent s' f" and "next_seq s \<le> next_seq s'"
  shows "entry_inv s' k e"
  using assms(1,2,4) assms(3)[of "kde_file_id e"] unfolding entry_inv_def by force

text \<open>A write keeps the invariant when the entries it adds lie in the bytes it appends.\<close>

lemma moves_inv:
  assumes inv: "state_inv t" and mv: "moves t sz t'"
    and room: "extent t (active_file_id t) + sz < 2 ^ 64"
    and seq: "next_seq t \<le> next_seq t'" and markers: "markers_inv t'"
    and fresh: "\<And>k e. kd_get (key_dir t') k = Some e \<Longrightarrow>
      kd_get (key_dir t) k = Some e \<or>
      (kde_file_id e = active_file_id t \<and> 0 < kde_sequence e \<and> kde_sequence e < next_seq t' \<and>
       kde_file_offset e + entry_size (length k) (kde_value_size e) \<le> extent t (active_file_id t) + sz)"
  shows "state_inv t'"
proof -
  have act: "active_file_id t \<in> dom (fs_get (file_stats t))"
    using inv unfolding state_inv_def files_inv_def by blast
  note ext = moves_extent[OF mv room act]
  have "entry_inv t' k e" if "kd_get (key_dir t') k = Some e" for k e
    using fresh[OF that]
  proof
    assume "kd_get (key_dir t) k = Some e"
    then have "entry_inv t k e" using inv by (simp add: state_inv_def keys_inv_def)
    then show ?thesis
      by (rule entry_inv_grows) (use moves_dom[OF mv] seq ext in auto)
  next
    assume "kde_file_id e = active_file_id t \<and> 0 < kde_sequence e \<and> kde_sequence e < next_seq t' \<and>
       kde_file_offset e + entry_size (length k) (kde_value_size e) \<le> extent t (active_file_id t) + sz"
    then show ?thesis
      using act ext moves_dom[OF mv] by (simp add: entry_inv_def)
  qed
  then show ?thesis
    using inv mv seq markers moves_live[OF _ mv] moves_bounds[OF _ mv] moves_files[OF _ mv]
    by (auto simp: state_inv_def keys_inv_def moves_def)
qed

section \<open>Each write\<close>

text \<open>
  A record location names one record: an entry resolved earlier that the key still points at is
  the key's entry.
\<close>

definition at_ok :: "KeyDirEntry option \<Rightarrow> key_dir \<Rightarrow> key \<Rightarrow> bool" where
  "at_ok at kd k \<longleftrightarrow> (\<forall>a e. at = Some a \<longrightarrow> kd_get kd k = Some e \<longrightarrow> same_record e a \<longrightarrow> e = a)"

lemma put_by_eq: "at_ok at kd k \<Longrightarrow> put_by rk at kd k e = kd_put kd k e"
  by (auto simp: put_by_def kd_put_at_def kd_put_def kd_holds_def at_ok_def split: option.splits)

lemma erase_by_eq: "at_ok at kd k \<Longrightarrow> erase_by rk at kd k = kd_erase kd k"
  by (auto simp: erase_by_def kd_erase_at_def kd_erase_def kd_holds_def at_ok_def split: option.splits)

lemma word_of_nat_diff_eq:
  "a + b = c + d \<Longrightarrow> (word_of_nat a :: u64) = word_of_nat c + word_of_nat d - word_of_nat b"
  by (metis add_diff_cancel_right' of_nat_add)

lemma word_of_nat_minus_eq:
  "a + b = c \<Longrightarrow> (word_of_nat a :: u64) = word_of_nat c - word_of_nat b"
  by (metis add_diff_cancel_right' of_nat_add)

text \<open>The statistics after a displaced record is dropped and a record is accounted to a file.\<close>

lemma account_get:
  assumes "live_removed d = 0" "d_min_sequence d = 0" "d_max_sequence d = 0"
  shows "map_option (\<lambda>s. (total_bytes s, min_sequence s, max_sequence s, live_bytes s))
      (fs_get (fs_patch g d st) f) =
    map_option (\<lambda>s. (total_bytes s + (if f = g then total_added d else 0), min_sequence s,
      max_sequence s, live_bytes s + (if f = g then live_added d else 0))) (fs_get st f)"
  using assms by (cases "fs_get st f") (auto simp: fs_get_patch)

lemma map_option_trans:
  assumes "map_option p x = map_option q y" and "\<And>a b. y = Some b \<Longrightarrow> p a = q b \<Longrightarrow> p' a = q' b"
  shows "map_option p' x = map_option q' y"
  using assms by (cases x; cases y) auto

lemma note_pending_simps [simp]:
  "key_dir (note_pending rk off s k vs t) = key_dir t"
  "files (note_pending rk off s k vs t) = files t"
  "file_stats (note_pending rk off s k vs t) = file_stats t"
  "active_file_id (note_pending rk off s k vs t) = active_file_id t"
  "next_file_id (note_pending rk off s k vs t) = next_file_id t"
  "next_seq (note_pending rk off s k vs t) = next_seq t"
  "durable_seq (note_pending rk off s k vs t) = durable_seq t"
  "sync_requested_seq (note_pending rk off s k vs t) = sync_requested_seq t"
  "change_markers (note_pending rk off s k vs t) = change_markers t"
  "mode (note_pending rk off s k vs t) = mode t"
  by (simp_all add: note_pending_def)

lemma moves_put:
  assumes "kd_sorted (key_dir t)" and "kde_file_id e = active_file_id t"
    and "sz = entry_size (length k) (kde_value_size e)"
    and "t' = t1\<lparr>key_dir := fst (kd_put (key_dir t) k e),
      file_stats := fs_patch (active_file_id t) (delta0\<lparr>live_added := word_of_nat sz, total_added := word_of_nat sz\<rparr>)
        (drop_live k (kd_get (key_dir t) k) (file_stats t)), next_seq := n\<rparr>"
    and "files t1 = files t" "active_file_id t1 = active_file_id t" "next_file_id t1 = next_file_id t"
  shows "moves t sz t'"
proof -
  have live: "word_of_nat (kd_live (fst (kd_put (key_dir t) k e)) f) =
      word_of_nat (kd_live (key_dir t) f) + (if f = active_file_id t then word_of_nat sz else 0)
        - (word_of_nat (kd_part f k (kd_get (key_dir t) k)) :: u64)" for f
    using word_of_nat_diff_eq[OF kd_live_put[OF assms(1), of k e f]] assms(2,3)
    by (auto simp: kd_part_def)
  show ?thesis
    using assms(1,4-) kd.wf_put[OF assms(1)] unfolding moves_def
    by (simp add: account_get drop_live_get option.map_comp comp_def live) (simp add: algebra_simps)
qed

lemma moves_erase:
  assumes "kd_sorted (key_dir t)"
    and "t' = t\<lparr>key_dir := fst (kd_erase (key_dir t) k),
      file_stats := fs_patch (active_file_id t) (delta0\<lparr>total_added := word_of_nat sz, tombstone_added := tb\<rparr>)
        (drop_live k (kd_get (key_dir t) k) (file_stats t)), next_seq := n\<rparr>"
  shows "moves t sz t'"
proof -
  have "word_of_nat (kd_live (fst (kd_erase (key_dir t) k)) f) =
      word_of_nat (kd_live (key_dir t) f) - (word_of_nat (kd_part f k (kd_get (key_dir t) k)) :: u64)" for f
    by (rule word_of_nat_minus_eq[OF kd_live_erase[OF assms(1)]])
  then show ?thesis
    using assms kd.wf_erase[OF assms(1)] unfolding moves_def
    by (simp add: account_get drop_live_get option.map_comp comp_def)
qed

lemma moves_erase_range:
  assumes "kd_sorted (key_dir t)" and "distinct (map fst xs)"
    and "\<forall>(k, e) \<in> set xs. kd_get (key_dir t) k = Some e"
    and "t' = t\<lparr>key_dir := fst (erase_range (key_dir t) xs (file_stats t)),
      file_stats := fs_patch (active_file_id t) (delta0\<lparr>total_added := word_of_nat sz, tombstone_added := tb\<rparr>)
        (snd (erase_range (key_dir t) xs (file_stats t))), next_seq := n\<rparr>"
  shows "moves t sz t'"
proof -
  have "word_of_nat (kd_live (kd_erase_all (map fst xs) (key_dir t)) f) =
      word_of_nat (kd_live (key_dir t) f) -
      (word_of_nat (sum_list (map (\<lambda>(k, e). kd_part f k (Some e)) xs)) :: u64)" for f
    by (rule word_of_nat_minus_eq[OF kd_live_erase_all[OF assms(1-3)]])
  then show ?thesis
    using assms kd_sorted_erase_all[OF assms(1)] unfolding moves_def
    by (simp add: account_get drop_live_all_get option.map_comp comp_def erase_range_def)
qed

lemma moves_bulk:
  assumes "kd_sorted (key_dir t)"
  shows "moves t (marker_size BulkBegin) (apply_bulk_marker t)"
  using assms unfolding moves_def apply_bulk_marker_def Let_def
  by (simp add: account_get del: marker_size.simps)

text \<open>What a write leaves alone.\<close>

definition same_frame :: "TransientEngineState \<Rightarrow> TransientEngineState \<Rightarrow> bool" where
  "same_frame t t' \<longleftrightarrow> files t' = files t \<and> active_file_id t' = active_file_id t \<and>
     next_file_id t' = next_file_id t \<and> durable_seq t' = durable_seq t \<and>
     sync_requested_seq t' = sync_requested_seq t \<and> mode t' = mode t \<and>
     degraded t' = degraded t \<and> degraded_reason t' = degraded_reason t \<and>
     change_markers t' = change_markers t"

lemma same_frame_trans: "same_frame a b \<Longrightarrow> same_frame b c \<Longrightarrow> same_frame a c"
  by (simp add: same_frame_def)

text \<open>The specification of a write on the map a reader sees.\<close>

fun write_map :: "KeyDirEntry \<Rightarrow> WriteOp \<Rightarrow> (key \<Rightarrow> KeyDirEntry option) \<Rightarrow> key \<Rightarrow> KeyDirEntry option" where
  "write_map e (PointPut k v) m = m(k \<mapsto> e)"
| "write_map e (PointDel k) m = m(k := None)"
| "write_map e (RangeDelete frm to) m = m |` {k. \<not> (frm \<le> k \<and> k < to)}"

fun op_value_size :: "WriteOp \<Rightarrow> nat" where
  "op_value_size (PointPut k v) = length v"
| "op_value_size _ = 0"

fun op_at_ok :: "KeyDirEntry option \<Rightarrow> key_dir \<Rightarrow> WriteOp \<Rightarrow> bool" where
  "op_at_ok at kd (PointPut k v) = at_ok at kd k"
| "op_at_ok at kd (PointDel k) = at_ok at kd k"
| "op_at_ok at kd (RangeDelete frm to) = True"

lemma markers_inv_mono:
  assumes "markers_inv s" and "change_markers s' = change_markers s" and "next_seq s \<le> next_seq s'"
  shows "markers_inv s'"
proof (cases "change_markers s")
  case (Some ms)
  then show ?thesis using assms by (auto simp: markers_inv_def intro: less_le_trans)
qed (use assms in \<open>simp add: markers_inv_def\<close>)

definition write_post ::
  "TransientEngineState \<Rightarrow> nat \<Rightarrow> (key \<Rightarrow> KeyDirEntry option) \<Rightarrow> TransientEngineState \<Rightarrow> bool" where
  "write_post t sz m t' \<longleftrightarrow> state_inv t' \<and> same_frame t t' \<and> next_seq t' = next_seq t + 1 \<and>
     extent t' (active_file_id t) = extent t (active_file_id t) + sz \<and> kd_get (key_dir t') = m"

lemma write_postI:
  assumes inv: "state_inv t" and mv: "moves t sz t'" and frame: "same_frame t t'"
    and n: "next_seq t' = next_seq t + 1" and m: "kd_get (key_dir t') = m"
    and room: "extent t (active_file_id t) + sz < 2 ^ 64"
    and fresh: "\<And>k e. m k = Some e \<Longrightarrow> kd_get (key_dir t) k = Some e \<or>
        (kde_file_id e = active_file_id t \<and> 0 < kde_sequence e \<and> kde_sequence e < next_seq t' \<and>
         kde_file_offset e + entry_size (length k) (kde_value_size e) \<le> extent t (active_file_id t) + sz)"
  shows "write_post t sz m t'"
proof -
  have act: "active_file_id t \<in> dom (fs_get (file_stats t))"
    using inv unfolding state_inv_def files_inv_def by blast
  have "markers_inv t'"
    by (rule markers_inv_mono[of t]) (use inv frame n in \<open>simp_all add: state_inv_def same_frame_def\<close>)
  then have "state_inv t'"
    using moves_inv[OF inv mv room] n fresh m by simp
  then show ?thesis
    using frame n m moves_extent[OF mv room act] by (simp add: write_post_def)
qed

lemma same_frame_upd [simp]:
  "same_frame t (t\<lparr>key_dir := kd, file_stats := st, next_seq := n\<rparr>)"
  "same_frame t ((note_pending rk off sq k vs t)\<lparr>key_dir := kd, file_stats := st, next_seq := n\<rparr>)"
  "same_frame t (t\<lparr>file_stats := st, next_seq := n\<rparr>)"
  by (simp_all add: same_frame_def note_pending_def)

lemma apply_put_ok:
  assumes inv: "state_inv t" and at: "at_ok at (key_dir t) k"
    and off: "off = extent t (active_file_id t)"
    and fits: "next_seq t \<le> kMaxSequence" "active_file_id t \<le> kMaxFileId" "off \<le> kMaxFileOffset"
      "length v \<le> kMaxValueSize" "off + entry_size (length k) (length v) < 2 ^ 64"
  shows "\<exists>t'. apply_write rk at off (PointPut k v) t = Inr t' \<and>
    write_post t (entry_size (length k) (length v))
      ((kd_get (key_dir t))(k \<mapsto> kde_pack (next_seq t) off (active_file_id t) (length v))) t'"
proof -
  let ?e = "kde_pack (next_seq t) off (active_file_id t) (length v)"
  let ?sz = "entry_size (length k) (length v)"
  let ?t1 = "note_pending rk off (next_seq t) k (length v) t"
  let ?t' = "?t1\<lparr>key_dir := fst (kd_put (key_dir t) k ?e),
      file_stats := fs_patch (active_file_id t) (delta0\<lparr>live_added := word_of_nat ?sz, total_added := word_of_nat ?sz\<rparr>)
        (drop_live k (kd_get (key_dir t) k) (file_stats t)), next_seq := next_seq t + 1\<rparr>"
  have sorted: "kd_sorted (key_dir t)" using inv by (simp add: state_inv_def keys_inv_def)
  have make: "kde_make (next_seq t) off (active_file_id t) (length v) = Inr ?e"
    using fits by (simp add: kde_make_iff)
  note fld = kde_make_fields[OF make]
  have "length v < 2 ^ 32" using fits by simp
  then have run: "apply_write rk at off (PointPut k v) t = Inr ?t'"
    using make by (simp add: put_by_eq[OF at] Let_def kd.put_hit[OF sorted])
  have "write_post t ?sz ((kd_get (key_dir t))(k \<mapsto> ?e)) ?t'"
  proof (rule write_postI[OF inv])
    show "moves t ?sz ?t'"
      by (rule moves_put[OF sorted, where e = ?e and k = k and ?t1.0 = ?t1]) (simp_all add: fld)
    show "kd_get (key_dir ?t') = (kd_get (key_dir t))(k \<mapsto> ?e)"
      using kd.get_put[OF sorted] by simp
  qed (use fits off fld inv in \<open>auto simp: state_inv_def split: if_splits\<close>)
  with run show ?thesis by blast
qed

lemma apply_del_ok:
  assumes inv: "state_inv t" and at: "at_ok at (key_dir t) k"
    and room: "extent t (active_file_id t) + entry_size (length k) 0 < 2 ^ 64"
  shows "\<exists>t'. apply_write rk at off (PointDel k) t = Inr t' \<and>
    write_post t (entry_size (length k) 0) ((kd_get (key_dir t))(k := None)) t'"
proof -
  let ?sz = "entry_size (length k) 0"
  let ?t' = "t\<lparr>key_dir := fst (kd_erase (key_dir t) k),
      file_stats := fs_patch (active_file_id t) (delta0\<lparr>total_added := word_of_nat ?sz, tombstone_added := word_of_nat ?sz\<rparr>)
        (drop_live k (kd_get (key_dir t) k) (file_stats t)), next_seq := next_seq t + 1\<rparr>"
  have sorted: "kd_sorted (key_dir t)" using inv by (simp add: state_inv_def keys_inv_def)
  have run: "apply_write rk at off (PointDel k) t = Inr ?t'"
    by (simp add: erase_by_eq[OF at] Let_def kd.erase_hit[OF sorted])
  have "write_post t ?sz ((kd_get (key_dir t))(k := None)) ?t'"
  proof (rule write_postI[OF inv])
    show "moves t ?sz ?t'" by (rule moves_erase[OF sorted]) simp
    show "kd_get (key_dir ?t') = (kd_get (key_dir t))(k := None)"
      using kd.get_erase[OF sorted] by simp
  qed (use room in \<open>auto split: if_splits\<close>)
  with run show ?thesis by blast
qed

lemma apply_range_ok:
  assumes inv: "state_inv t"
    and room: "extent t (active_file_id t) + entry_size (length frm) (length to) < 2 ^ 64"
  shows "\<exists>t'. apply_write rk at off (RangeDelete frm to) t = Inr t' \<and>
    write_post t (entry_size (length frm) (length to))
      ((kd_get (key_dir t)) |` {k. \<not> (frm \<le> k \<and> k < to)}) t'"
proof -
  let ?sz = "entry_size (length frm) (length to)"
  let ?r = "erase_range (key_dir t) (kd_range (key_dir t) frm to) (file_stats t)"
  let ?t' = "t\<lparr>key_dir := fst ?r,
      file_stats := fs_patch (active_file_id t) (delta0\<lparr>total_added := word_of_nat ?sz, tombstone_added := word_of_nat ?sz\<rparr>)
        (snd ?r), next_seq := next_seq t + 1\<rparr>"
  have sorted: "kd_sorted (key_dir t)" using inv by (simp add: state_inv_def keys_inv_def)
  have run: "apply_write rk at off (RangeDelete frm to) t = Inr ?t'"
    by (simp add: Let_def)
  have "write_post t ?sz ((kd_get (key_dir t)) |` {k. \<not> (frm \<le> k \<and> k < to)}) ?t'"
  proof (rule write_postI[OF inv])
    show "moves t ?sz ?t'"
      by (rule moves_erase_range[OF sorted kd_range_distinct[OF sorted, of frm to]])
         (auto simp: kd_range_iff[OF sorted])
    show "kd_get (key_dir ?t') = (kd_get (key_dir t)) |` {k. \<not> (frm \<le> k \<and> k < to)}"
      using kd_get_erase_range[OF sorted] by (simp add: erase_range_def)
  qed (use room in \<open>auto simp: restrict_map_def split: if_splits\<close>)
  with run show ?thesis by blast
qed

lemma apply_bulk_ok:
  assumes inv: "state_inv t" and room: "extent t (active_file_id t) + 19 < 2 ^ 64"
  shows "write_post t 19 (kd_get (key_dir t)) (apply_bulk_marker t)"
proof (rule write_postI[OF inv])
  have "kd_sorted (key_dir t)" using inv by (simp add: state_inv_def keys_inv_def)
  from moves_bulk[OF this] show "moves t 19 (apply_bulk_marker t)" by (simp add: entry_size_def)
qed (use room in \<open>simp_all add: apply_bulk_marker_def Let_def\<close>)

text \<open>One write, whichever it is: it succeeds and does to the map what the specification says.\<close>

lemma apply_write_ok:
  assumes inv: "state_inv t" and at: "op_at_ok at (key_dir t) w"
    and off: "off = extent t (active_file_id t)"
    and fits: "next_seq t \<le> kMaxSequence" "active_file_id t \<le> kMaxFileId" "off \<le> kMaxFileOffset"
      "op_value_size w \<le> kMaxValueSize" "off + op_bytes w < 2 ^ 64"
  shows "\<exists>t'. apply_write rk at off w t = Inr t' \<and>
    write_post t (op_bytes w)
      (write_map (kde_pack (next_seq t) off (active_file_id t) (op_value_size w)) w (kd_get (key_dir t))) t'"
proof (cases w)
  case (PointPut k v)
  then show ?thesis using apply_put_ok[OF inv _ off fits(1,2,3)] at fits(4,5) by simp
next
  case (PointDel k)
  then show ?thesis using apply_del_ok[OF inv] at fits(5) off by simp
next
  case (RangeDelete frm to)
  then show ?thesis using apply_range_ok[OF inv] fits(5) off by simp
qed

section \<open>A whole plan\<close>

text \<open>
  What a plan does to the map a reader sees: its writes in order, each put at the next sequence and
  at the offset after the records before it.
\<close>

fun plan_map ::
  "nat \<Rightarrow> nat \<Rightarrow> nat \<Rightarrow> WriteOp list \<Rightarrow> (key \<Rightarrow> KeyDirEntry option) \<Rightarrow> key \<Rightarrow> KeyDirEntry option" where
  "plan_map sq off fid [] m = m"
| "plan_map sq off fid (w # ws) m =
    plan_map (sq + 1) (off + op_bytes w) fid ws (write_map (kde_pack sq off fid (op_value_size w)) w m)"

text \<open>
  The entries a plan resolved in its snapshot name records: an entry of the head at the same
  location is that entry, and none lies past the end of the active file.
\<close>

definition resolved_ok :: "WritePlan \<Rightarrow> TransientEngineState \<Rightarrow> bool" where
  "resolved_ok p t \<longleftrightarrow> (\<forall>i a. resolved_entry p i = Some a \<longrightarrow>
     (\<forall>k e. kd_get (key_dir t) k = Some e \<longrightarrow> same_record e a \<longrightarrow> e = a) \<and>
     (kde_file_id a = active_file_id t \<longrightarrow> kde_file_offset a < extent t (active_file_id t)))"

definition op_fits :: "WriteOp \<Rightarrow> bool" where
  "op_fits w \<longleftrightarrow> op_value_size w \<le> kMaxValueSize"

lemma resolved_ok_at: "resolved_ok p t \<Longrightarrow> op_at_ok (resolved_entry p i) (key_dir t) w"
  by (cases w) (auto simp: resolved_ok_def at_ok_def)

lemma write_map_Some:
  "write_map e w m k = Some e' \<Longrightarrow> m k = Some e' \<or> (e' = e \<and> (\<exists>v. w = PointPut k v))"
  by (cases w) (auto simp: restrict_map_def split: if_splits)

lemma resolved_ok_write:
  assumes ok: "resolved_ok p t"
    and post: "write_post t sz (write_map (kde_pack sq off (active_file_id t) vs) w (kd_get (key_dir t))) t'"
    and off: "off = extent t (active_file_id t)"
    and fits: "sq \<le> kMaxSequence" "active_file_id t \<le> kMaxFileId" "off \<le> kMaxFileOffset" "vs \<le> kMaxValueSize"
  shows "resolved_ok p t'"
  unfolding resolved_ok_def
proof (intro allI impI conjI)
  fix i a
  assume r: "resolved_entry p i = Some a"
  have act: "active_file_id t' = active_file_id t" and ext: "extent t' (active_file_id t) = off + sz"
    using post off by (simp_all add: write_post_def same_frame_def)
  show "kde_file_offset a < extent t' (active_file_id t')" if "kde_file_id a = active_file_id t'"
    using ok r that act ext off by (force simp: resolved_ok_def)
  fix k e
  assume e: "kd_get (key_dir t') k = Some e" and same: "same_record e a"
  have new: "kde_file_id (kde_pack sq off (active_file_id t) vs) = active_file_id t"
      "kde_file_offset (kde_pack sq off (active_file_id t) vs) = off"
    using kde_pack_fields[of sq "active_file_id t" off vs] fits by simp_all
  from e post have "write_map (kde_pack sq off (active_file_id t) vs) w (kd_get (key_dir t)) k = Some e"
    by (simp add: write_post_def)
  from write_map_Some[OF this] consider "kd_get (key_dir t) k = Some e"
    | "e = kde_pack sq off (active_file_id t) vs" by blast
  then show "e = a"
  proof cases
    case 1
    then show ?thesis using ok r same by (simp add: resolved_ok_def)
  next
    case 2
    then have "kde_file_id a = active_file_id t" "kde_file_offset a = off"
      using same new by (auto simp: same_record_def)
    then show ?thesis using ok r off by (force simp: resolved_ok_def)
  qed
qed

lemma op_entry_size [simp]:
  "entry_size (length (e_key (op_entry sq w))) (length (e_value (op_entry sq w))) = op_bytes w"
  by (cases w) simp_all

lemma entry_offsets_op_Cons [simp]:
  "entry_offsets off (op_entries sq (w # ws) @ es) =
     off # entry_offsets (off + op_bytes w) (op_entries (sq + 1) ws @ es)"
  by simp

definition loop_post ::
  "TransientEngineState \<Rightarrow> nat \<Rightarrow> nat \<Rightarrow> (key \<Rightarrow> KeyDirEntry option) \<Rightarrow> TransientEngineState \<Rightarrow> bool" where
  "loop_post t n sz m t' \<longleftrightarrow> state_inv t' \<and> same_frame t t' \<and> next_seq t' = next_seq t + n \<and>
     extent t' (active_file_id t) = extent t (active_file_id t) + sz \<and> kd_get (key_dir t') = m"

lemma loop_post_write: "write_post t sz m t' \<longleftrightarrow> loop_post t 1 sz m t'"
  by (simp add: write_post_def loop_post_def)

lemma loop_post_trans:
  "loop_post t n1 s1 m1 t1 \<Longrightarrow> loop_post t1 n2 s2 m2 t2 \<Longrightarrow> loop_post t (n1 + n2) (s1 + s2) m2 t2"
  by (simp add: loop_post_def same_frame_def)

lemma drop_Cons_split: "drop i xs = y # ys \<Longrightarrow> xs ! i = y \<and> drop (i + 1) xs = ys"
  by (induction xs arbitrary: i) (auto simp: drop_Cons split: nat.splits)

lemma apply_write_loop_ok:
  assumes "state_inv t" "resolved_ok p t" "\<forall>w \<in> set ws. op_fits w"
    and "drop io_idx offs = entry_offsets (extent t (active_file_id t)) (op_entries (next_seq t) ws @ es)"
    and "next_seq t + length ws \<le> 2 ^ 48" "active_file_id t \<le> kMaxFileId"
    and "extent t (active_file_id t) + sum_list (map op_bytes ws) \<le> 2 ^ 32"
  shows "\<exists>t'. apply_write_loop rk p offs w_idx io_idx ws t = Inr t' \<and>
    loop_post t (length ws) (sum_list (map op_bytes ws))
      (plan_map (next_seq t) (extent t (active_file_id t)) (active_file_id t) ws (kd_get (key_dir t))) t'"
  using assms
proof (induction ws arbitrary: t w_idx io_idx)
  case Nil
  then show ?case by (simp add: loop_post_def same_frame_def)
next
  case (Cons w ws)
  let ?act = "active_file_id t" and ?off = "extent t (active_file_id t)"
  let ?m = "write_map (kde_pack (next_seq t) ?off ?act (op_value_size w)) w (kd_get (key_dir t))"
  have pos: "0 < op_bytes w" by (cases w) (simp_all add: entry_size_def)
  have fits: "next_seq t \<le> kMaxSequence" "?act \<le> kMaxFileId" "?off \<le> kMaxFileOffset"
      "op_value_size w \<le> kMaxValueSize" "?off + op_bytes w < 2 ^ 64"
    using Cons.prems pos by (simp_all add: op_fits_def)
  have d: "drop io_idx offs = ?off # entry_offsets (?off + op_bytes w) (op_entries (next_seq t + 1) ws @ es)"
    using Cons.prems(4) by simp
  then have o: "offs ! io_idx = ?off"
    and d': "drop (io_idx + 1) offs = entry_offsets (?off + op_bytes w) (op_entries (next_seq t + 1) ws @ es)"
    using drop_Cons_split[OF d] by simp_all
  obtain t1 where run: "apply_write rk (resolved_entry p w_idx) ?off w t = Inr t1"
    and post: "write_post t (op_bytes w) ?m t1"
    using apply_write_ok[OF Cons.prems(1) resolved_ok_at[OF Cons.prems(2)] refl fits] by blast
  have res: "resolved_ok p t1"
    by (rule resolved_ok_write[OF Cons.prems(2) post refl fits(1,2,3,4)])
  have t1: "state_inv t1" "active_file_id t1 = ?act" "next_seq t1 = next_seq t + 1"
      "extent t1 ?act = ?off + op_bytes w" "kd_get (key_dir t1) = ?m"
    using post by (simp_all add: write_post_def same_frame_def)
  have "\<exists>t'. apply_write_loop rk p offs (w_idx + 1) (io_idx + 1) ws t1 = Inr t' \<and>
    loop_post t1 (length ws) (sum_list (map op_bytes ws))
      (plan_map (next_seq t1) (extent t1 (active_file_id t1)) (active_file_id t1) ws (kd_get (key_dir t1))) t'"
    by (rule Cons.IH) (use t1 res d' Cons.prems(3-) in simp_all)
  then obtain t' where "apply_write_loop rk p offs (w_idx + 1) (io_idx + 1) ws t1 = Inr t'"
    "loop_post t1 (length ws) (sum_list (map op_bytes ws))
      (plan_map (next_seq t + 1) (?off + op_bytes w) ?act ws ?m) t'"
    using t1 by auto
  moreover have "loop_post t 1 (op_bytes w) ?m t1" using post by (simp add: loop_post_write)
  ultimately show ?case
    using run o loop_post_trans[of t 1 "op_bytes w" ?m t1] by auto
qed

text \<open>Recording the sequences of a batch touches only the bounds.\<close>

lemma patch_bounds_simps [simp]:
  "key_dir (patch_bounds lo hi t) = key_dir t"
  "next_seq (patch_bounds lo hi t) = next_seq t"
  "extent (patch_bounds lo hi t) f = extent t f"
  "same_frame u (patch_bounds lo hi t) = same_frame u t"
  by (auto simp: patch_bounds_def extent_def same_frame_def fs_get_patch split: option.splits)

lemma patch_bounds_inv:
  assumes inv: "state_inv t" and "0 < lo" "lo \<le> hi"
  shows "state_inv (patch_bounds lo hi t)"
proof -
  let ?t' = "patch_bounds lo hi t"
  have dom: "dom (fs_get (file_stats ?t')) = dom (fs_get (file_stats t))"
    by (auto simp: patch_bounds_def fs_get_patch split: if_splits)
  have "keys_inv ?t'"
    using inv dom by (auto simp: state_inv_def keys_inv_def entry_inv_def)
  moreover have "live_inv ?t'" "bounds_inv ?t'"
    using inv assms(2,3)
    by (auto simp: state_inv_def live_inv_def bounds_inv_def patch_bounds_def fs_get_patch
        le_max_iff_disj split: if_splits)
  moreover have "markers_inv ?t'"
    by (rule markers_inv_mono[of t]) (use inv in \<open>simp_all add: state_inv_def patch_bounds_def\<close>)
  moreover have "files_inv ?t'"
    using inv dom unfolding state_inv_def files_inv_def
    by (elim conjE) (simp add: patch_bounds_def)
  ultimately show ?thesis using inv by (simp add: state_inv_def)
qed

text \<open>Where a plan's own writes start: after the \<^verbatim>\<open>BulkBegin\<close> of a plan of several.\<close>

definition plan_first_seq :: "TransientEngineState \<Rightarrow> WritePlan \<Rightarrow> nat" where
  "plan_first_seq t p = next_seq t + (if write_count p > 1 then 1 else 0)"

definition plan_first_off :: "TransientEngineState \<Rightarrow> WritePlan \<Rightarrow> nat" where
  "plan_first_off t p = extent t (active_file_id t) + (if write_count p > 1 then 19 else 0)"

text \<open>The hypotheses under which the commit path applies a plan.\<close>

definition plan_fits :: "TransientEngineState \<Rightarrow> WritePlan \<Rightarrow> bool" where
  "plan_fits t p \<longleftrightarrow> writes p \<noteq> [] \<and> list_all op_fits (writes p) \<and>
     next_seq t + write_count p + 2 \<le> 2 ^ 48 \<and> active_file_id t \<le> kMaxFileId \<and>
     extent t (active_file_id t) + write_bytes p \<le> 2 ^ 32"

lemma resolved_ok_bulk:
  assumes "resolved_ok p t" and "write_post t sz (kd_get (key_dir t)) t'"
  shows "resolved_ok p t'"
  using assms by (force simp: resolved_ok_def write_post_def same_frame_def)

lemma op_entries_length [simp]: "length (op_entries sq ws) = length ws"
  by (induction ws arbitrary: sq) simp_all

lemma prepare_write_length:
  "writes p \<noteq> [] \<Longrightarrow> length (prepare_write t p) = write_count p + (if write_count p > 1 then 2 else 0)"
  by (simp add: prepare_write_def Let_def write_count_def)

lemma apply_writes_ok:
  assumes inv: "state_inv t" and res: "resolved_ok p t" and fits: "plan_fits t p"
  shows "\<exists>t'. apply_writes rk p (entry_offsets (extent t (active_file_id t)) (prepare_write t p)) t = Inr t' \<and>
    loop_post t (length (prepare_write t p)) (write_bytes p)
      (plan_map (plan_first_seq t p) (plan_first_off t p) (active_file_id t) (writes p) (kd_get (key_dir t))) t'"
proof -
  let ?act = "active_file_id t" and ?ext = "extent t (active_file_id t)" and ?ws = "writes p"
  let ?offs = "entry_offsets ?ext (prepare_write t p)"
  have ops: "\<forall>w \<in> set ?ws. op_fits w" using fits by (simp add: plan_fits_def list_all_iff)
  have pos: "0 < next_seq t" using inv by (simp add: state_inv_def)
  show ?thesis
  proof (cases "write_count p > 1")
    case False
    then have one: "write_count p = 1" using fits by (cases ?ws) (auto simp: plan_fits_def write_count_def)
    have offs: "drop 0 ?offs = entry_offsets ?ext (op_entries (next_seq t) ?ws @ [])"
      using one by (simp add: prepare_write_def)
    obtain t2 where run: "apply_write_loop rk p ?offs 0 0 ?ws t = Inr t2"
      and post: "loop_post t 1 (write_bytes p)
        (plan_map (plan_first_seq t p) (plan_first_off t p) ?act ?ws (kd_get (key_dir t))) t2"
      using apply_write_loop_ok[OF inv res ops offs, of rk 0] fits one
      by (auto simp: plan_fits_def write_count_def write_bytes_def plan_first_seq_def plan_first_off_def)
    have "state_inv (patch_bounds (next_seq t) (next_seq t2 - 1) t2)"
      using post pos by (intro patch_bounds_inv) (auto simp: loop_post_def)
    moreover have "length (prepare_write t p) = 1"
      using one by (simp add: prepare_write_def write_count_def)
    ultimately show ?thesis
      using run post one by (auto simp: apply_writes_def Let_def loop_post_def write_count_def)
  next
    case True
    let ?t1 = "apply_bulk_marker t"
    have wb: "write_bytes p = 38 + sum_list (map op_bytes ?ws)"
      using True by (simp add: write_bytes_def write_count_def)
    have b1: "write_post t 19 (kd_get (key_dir t)) ?t1"
      using fits wb by (intro apply_bulk_ok[OF inv]) (simp add: plan_fits_def)
    then have t1: "state_inv ?t1" "active_file_id ?t1 = ?act" "next_seq ?t1 = next_seq t + 1"
      "extent ?t1 ?act = ?ext + 19" "kd_get (key_dir ?t1) = kd_get (key_dir t)"
      by (simp_all add: write_post_def same_frame_def)
    have offs: "drop 1 ?offs = entry_offsets (extent ?t1 (active_file_id ?t1))
        (op_entries (next_seq ?t1) ?ws @ [\<lparr>e_sequence = next_seq t + 1 + write_count p, e_type = BulkEnd, e_key = [], e_value = []\<rparr>])"
      using True t1 by (simp add: prepare_write_def Let_def entry_size_def)
    obtain t2 where run: "apply_write_loop rk p ?offs 0 1 ?ws ?t1 = Inr t2"
      and post: "loop_post ?t1 (write_count p) (sum_list (map op_bytes ?ws))
        (plan_map (plan_first_seq t p) (plan_first_off t p) ?act ?ws (kd_get (key_dir t))) t2"
      using apply_write_loop_ok[OF t1(1) resolved_ok_bulk[OF res b1] ops offs, of rk 0] fits wb t1 True
      by (auto simp: plan_fits_def write_count_def plan_first_seq_def plan_first_off_def)
    have t2: "state_inv t2" "active_file_id t2 = ?act"
        "extent t2 ?act = ?ext + 19 + sum_list (map op_bytes ?ws)"
      using post t1 by (simp_all add: loop_post_def same_frame_def)
    have b2: "write_post t2 19 (kd_get (key_dir t2)) (apply_bulk_marker t2)"
      using fits wb t2 by (intro apply_bulk_ok) (simp_all add: plan_fits_def)
    have all: "loop_post t (write_count p + 2) (write_bytes p)
        (plan_map (plan_first_seq t p) (plan_first_off t p) ?act ?ws (kd_get (key_dir t))) (apply_bulk_marker t2)"
      using loop_post_trans[OF loop_post_trans[OF b1[unfolded loop_post_write] post] b2[unfolded loop_post_write]] wb post
      by (simp add: loop_post_def)
    have "state_inv (patch_bounds (next_seq t) (next_seq (apply_bulk_marker t2) - 1) (apply_bulk_marker t2))"
      using all pos by (intro patch_bounds_inv) (auto simp: loop_post_def)
    moreover have "length (prepare_write t p) = write_count p + 2"
      using True by (subst prepare_write_length) (auto simp: write_count_def)
    ultimately show ?thesis
      using run all True by (auto simp: apply_writes_def Let_def loop_post_def)
  qed
qed

section \<open>The statistics a plan leaves\<close>

text \<open>
  What the writes of a plan do to the counters of the active file apart from its live bytes, which
  follow from the key directory.
\<close>

fun op_tombstone_bytes :: "WriteOp \<Rightarrow> nat" where
  "op_tombstone_bytes (PointPut k v) = 0"
| "op_tombstone_bytes w = op_bytes w"

definition dead :: "FileStats \<Rightarrow> FileStats" where
  "dead s = s\<lparr>live_bytes := 0\<rparr>"

definition grown :: "nat \<Rightarrow> nat \<Rightarrow> nat \<Rightarrow> FileStats \<Rightarrow> FileStats" where
  "grown n tomb mark s = s\<lparr>total_bytes := total_bytes s + word_of_nat n,
     tombstone_bytes := tombstone_bytes s + word_of_nat tomb, marker_bytes := marker_bytes s + word_of_nat mark\<rparr>"

definition dead_at :: "file_stats \<Rightarrow> nat \<Rightarrow> FileStats option" where
  "dead_at st f = map_option dead (fs_get st f)"

definition grows :: "nat \<Rightarrow> nat \<Rightarrow> nat \<Rightarrow> TransientEngineState \<Rightarrow> TransientEngineState \<Rightarrow> bool" where
  "grows n tomb mark t t' \<longleftrightarrow> active_file_id t' = active_file_id t \<and>
     (\<forall>f. dead_at (file_stats t') f =
        (if f = active_file_id t then map_option (grown n tomb mark) (dead_at (file_stats t) f) else dead_at (file_stats t) f))"

lemma grown_0 [simp]: "grown 0 0 0 = id"
  by (simp add: grown_def fun_eq_iff)

lemma grown_grown: "grown a b c (grown a' b' c' s) = grown (a' + a) (b' + b) (c' + c) s"
  by (simp add: grown_def)

lemma grows_refl: "grows 0 0 0 t t"
  by (simp add: grows_def option.map_id)

lemma grows_trans: "grows a b c t t1 \<Longrightarrow> grows a' b' c' t1 t2 \<Longrightarrow> grows (a + a') (b + b') (c + c') t t2"
  by (simp add: grows_def option.map_comp comp_def grown_grown)

lemma drop_live_dead: "dead_at (drop_live k hit st) f = dead_at st f"
  by (cases "fs_get st f") (simp_all add: dead_at_def drop_live_get dead_def)

lemma drop_lives_dead: "dead_at (fold (\<lambda>(k, e). drop_live k (Some e)) xs st) f = dead_at st f"
  by (cases "fs_get st f") (simp_all add: dead_at_def drop_live_all_get dead_def)

lemma patch_dead:
  "dead_at (fs_patch g d st) f =
    (if f = g then map_option (fs_apply (d\<lparr>live_added := 0, live_removed := 0\<rparr>)) (dead_at st f) else dead_at st f)"
  by (cases "fs_get st f") (auto simp: dead_at_def fs_get_patch dead_def fs_apply_def)

lemma fs_apply_grown:
  "fs_apply (delta0\<lparr>total_added := word_of_nat n, tombstone_added := word_of_nat tomb, marker_added := word_of_nat mark\<rparr>) = grown n tomb mark"
  "fs_apply (delta0\<lparr>total_added := word_of_nat n, tombstone_added := word_of_nat tomb\<rparr>) = grown n tomb 0"
  "fs_apply (delta0\<lparr>total_added := word_of_nat n, marker_added := word_of_nat mark\<rparr>) = grown n 0 mark"
  "fs_apply (delta0\<lparr>total_added := word_of_nat n\<rparr>) = grown n 0 0"
  by (auto simp: fs_apply_def delta0_def grown_def)

lemma delta0_no_live: "delta0\<lparr>total_added := a, tombstone_added := b, live_added := 0, live_removed := 0\<rparr> = delta0\<lparr>total_added := a, tombstone_added := b\<rparr>"
  "delta0\<lparr>total_added := a, marker_added := b, live_added := 0, live_removed := 0\<rparr> = delta0\<lparr>total_added := a, marker_added := b\<rparr>"
  "delta0\<lparr>total_added := a, live_added := 0, live_removed := 0\<rparr> = delta0\<lparr>total_added := a\<rparr>"
  "delta0\<lparr>d_min_sequence := x, d_max_sequence := y, live_added := 0, live_removed := 0\<rparr> = delta0\<lparr>d_min_sequence := x, d_max_sequence := y\<rparr>"
  by (simp_all add: delta0_def)

lemma apply_write_grows:
  assumes "apply_write rk at off w t = Inr t'"
  shows "grows (op_bytes w) (op_tombstone_bytes w) 0 t t'"
  using assms
  by (cases w)
    (auto simp: grows_def patch_dead drop_live_dead drop_lives_dead erase_range_def note_pending_def
      fs_apply_grown delta0_no_live result_simps Let_def)

lemma apply_write_loop_grows:
  "apply_write_loop rk p offs i j ws t = Inr t' \<Longrightarrow>
    grows (sum_list (map op_bytes ws)) (sum_list (map op_tombstone_bytes ws)) 0 t t'"
proof (induction ws arbitrary: i j t)
  case Nil
  then show ?case by (simp add: grows_refl)
next
  case (Cons w ws)
  then obtain t1 where t1: "apply_write rk (resolved_entry p i) (offs ! j) w t = Inr t1"
    "apply_write_loop rk p offs (i + 1) (j + 1) ws t1 = Inr t'" by (auto simp: result_simps)
  show ?case using grows_trans[OF apply_write_grows[OF t1(1)] Cons.IH[OF t1(2)]] by simp
qed

lemma apply_bulk_marker_grows: "grows 19 0 19 t (apply_bulk_marker t)"
  by (simp add: apply_bulk_marker_def grows_def patch_dead delta0_no_live fs_apply_grown Let_def) (simp add: entry_size_def)

text \<open>
  The statistics of a file after a plan: what the key directory says for the live bytes, and for the
  active file the bytes of all records, of the tombstones and of the batch markers, and the sequences.
\<close>

definition plan_marker_bytes :: "WritePlan \<Rightarrow> nat" where
  "plan_marker_bytes p = (if write_count p > 1 then 2 * (kHeaderSize + kCrcSize) else 0)"

definition plan_stats :: "WritePlan \<Rightarrow> nat \<Rightarrow> nat \<Rightarrow> nat \<Rightarrow> key_dir \<Rightarrow> nat \<Rightarrow> FileStats \<Rightarrow> FileStats" where
  "plan_stats p act lo hi kd f s =
    (let s1 = s\<lparr>live_bytes := word_of_nat (kd_live kd f)\<rparr> in
     if f \<noteq> act then s1
     else s1\<lparr>total_bytes := total_bytes s + word_of_nat (write_bytes p),
             tombstone_bytes := tombstone_bytes s + word_of_nat (sum_list (map op_tombstone_bytes (writes p))),
             marker_bytes := marker_bytes s + word_of_nat (plan_marker_bytes p),
             min_sequence := (if min_sequence s = 0 then lo else min_sequence s),
             max_sequence := max (max_sequence s) hi\<rparr>)"

lemma apply_writes_grows:
  assumes "apply_writes rk p offs t = Inr t'"
  shows "\<exists>t3. grows (write_bytes p) (sum_list (map op_tombstone_bytes (writes p))) (plan_marker_bytes p) t t3 \<and>
    t' = patch_bounds (next_seq t) (next_seq t' - 1) t3"
proof -
  let ?multi = "write_count p > 1"
  let ?t1 = "if ?multi then apply_bulk_marker t else t"
  obtain t2 where t2: "apply_write_loop rk p offs 0 (if ?multi then 1 else 0) (writes p) ?t1 = Inr t2"
    "t' = (let t3 = (if ?multi then apply_bulk_marker t2 else t2) in patch_bounds (next_seq t) (next_seq t3 - 1) t3)"
    using assms by (auto simp: apply_writes_def result_simps Let_def split: if_splits)
  let ?t3 = "if ?multi then apply_bulk_marker t2 else t2"
  have "next_seq t' = next_seq ?t3" using t2(2) by (simp add: patch_bounds_def Let_def)
  moreover have "grows (write_bytes p) (sum_list (map op_tombstone_bytes (writes p))) (plan_marker_bytes p) t ?t3"
  proof (cases ?multi)
    case True
    from grows_trans[OF grows_trans[OF apply_bulk_marker_grows[of t] apply_write_loop_grows[OF t2(1)[unfolded if_P[OF True]]]] apply_bulk_marker_grows]
    show ?thesis using True by (simp add: write_bytes_def plan_marker_bytes_def write_count_def add.commute add.left_commute)
  next
    case False
    from apply_write_loop_grows[OF t2(1)] show ?thesis
      using False by (simp add: write_bytes_def plan_marker_bytes_def write_count_def)
  qed
  ultimately show ?thesis using t2(2) by (auto simp: Let_def)
qed

lemma apply_writes_stats:
  assumes run: "apply_writes rk p offs t = Inr t'" and inv: "state_inv t'"
  shows "fs_get (file_stats t') f =
    map_option (plan_stats p (active_file_id t) (next_seq t) (next_seq t' - 1) (key_dir t') f) (fs_get (file_stats t) f)"
proof -
  obtain t3 where g: "grows (write_bytes p) (sum_list (map op_tombstone_bytes (writes p))) (plan_marker_bytes p) t t3"
    and t': "t' = patch_bounds (next_seq t) (next_seq t' - 1) t3" using apply_writes_grows[OF run] by blast
  have act: "active_file_id t3 = active_file_id t" using g by (simp add: grows_def)
  have st: "file_stats t' = fs_patch (active_file_id t) (delta0\<lparr>d_min_sequence := next_seq t, d_max_sequence := next_seq t' - 1\<rparr>) (file_stats t3)"
    using arg_cong[OF t', of file_stats] act by (simp add: patch_bounds_def)
  have dead: "dead_at (file_stats t') f = (if f = active_file_id t
      then map_option (fs_apply (delta0\<lparr>d_min_sequence := next_seq t, d_max_sequence := next_seq t' - 1\<rparr>) \<circ>
        grown (write_bytes p) (sum_list (map op_tombstone_bytes (writes p))) (plan_marker_bytes p)) (dead_at (file_stats t) f)
      else dead_at (file_stats t) f)"
    using g unfolding st patch_dead delta0_no_live grows_def by (simp add: option.map_comp)
  show ?thesis
  proof (cases "fs_get (file_stats t') f")
    case None
    then show ?thesis using dead by (auto simp: dead_at_def split: if_splits)
  next
    case (Some s')
    then obtain s where s: "fs_get (file_stats t) f = Some s"
      using dead by (cases "fs_get (file_stats t) f") (auto simp: dead_at_def split: if_splits)
    have live: "live_bytes s' = word_of_nat (kd_live (key_dir t') f)"
      using inv Some by (simp add: state_inv_def live_inv_def)
    have "dead s' = dead (plan_stats p (active_file_id t) (next_seq t) (next_seq t' - 1) (key_dir t') f s)"
      using dead Some s by (auto simp: dead_at_def dead_def plan_stats_def grown_def fs_apply_def delta0_def Let_def split: if_splits)
    moreover have "live_bytes (plan_stats p (active_file_id t) (next_seq t) (next_seq t' - 1) (key_dir t') f s) = live_bytes s'"
      using live by (simp add: plan_stats_def Let_def)
    moreover have "a = b" if "dead a = dead b" "live_bytes b = live_bytes a" for a b
      using that by (cases a; cases b) (simp add: dead_def)
    ultimately show ?thesis using Some s by simp
  qed
qed

section \<open>The records a plan leaves pending\<close>

text \<open>A record noted as pending lies in the bytes already placed in the active file.\<close>

definition pending_below :: "TransientEngineState \<Rightarrow> bool" where
  "pending_below t \<longleftrightarrow> (\<forall>x \<in> set (pending t). fst (fst x) = active_file_id t \<longrightarrow> snd (fst x) < extent t (active_file_id t))"

lemma apply_write_pending:
  "apply_write rk at off w t = Inr t' \<Longrightarrow>
    fst ` set (pending t') \<subseteq> insert (active_file_id t, off) (fst ` set (pending t)) \<and> active_file_id t' = active_file_id t"
  by (cases w) (auto simp: note_pending_def result_simps Let_def dom_update[symmetric] dom_map_of_conv_image_fst[symmetric]
      AList.update_conv' split: if_splits)

lemma apply_write_loop_pending:
  "apply_write_loop rk p offs i j ws t = Inr t' \<Longrightarrow>
    fst ` set (pending t') \<subseteq> fst ` set (pending t) \<union> (\<lambda>n. (active_file_id t, offs ! n)) ` {j..<j + length ws}"
proof (induction ws arbitrary: i j t)
  case (Cons w ws)
  then obtain t1 where t1: "apply_write rk (resolved_entry p i) (offs ! j) w t = Inr t1"
    "apply_write_loop rk p offs (i + 1) (j + 1) ws t1 = Inr t'" by (auto simp: result_simps)
  have up: "{j..<j + length (w # ws)} = insert j {j + 1..<j + 1 + length ws}" by auto
  have one: "fst ` set (pending t1) \<subseteq> insert (active_file_id t, offs ! j) (fst ` set (pending t))" "active_file_id t1 = active_file_id t"
    using apply_write_pending[OF t1(1)] by simp_all
  show ?case using one(1) Cons.IH[OF t1(2)] unfolding up one(2) image_insert by blast
qed simp

lemma entry_offsets_below:
  "j < length es \<Longrightarrow>
    entry_offsets off es ! j < off + sum_list (map (\<lambda>e. entry_size (length (e_key e)) (length (e_value e))) es)"
proof (induction es arbitrary: off j)
  case (Cons e es)
  show ?case
  proof (cases j)
    case 0
    then show ?thesis by (simp add: entry_size_def)
  next
    case (Suc i)
    then show ?thesis
      using Cons.IH[of i "off + entry_size (length (e_key e)) (length (e_value e))"] Cons.prems by (simp add: add.assoc)
  qed
qed simp

lemma op_entries_bytes:
  "sum_list (map (\<lambda>e. entry_size (length (e_key e)) (length (e_value e))) (op_entries sq ws)) = sum_list (map op_bytes ws)"
proof (induction ws arbitrary: sq)
  case (Cons w ws)
  then show ?case by (cases w) simp_all
qed simp

lemma prepare_write_bytes:
  "writes p \<noteq> [] \<Longrightarrow>
    sum_list (map (\<lambda>e. entry_size (length (e_key e)) (length (e_value e))) (prepare_write t p)) = write_bytes p"
  by (simp add: prepare_write_def write_bytes_def write_count_def op_entries_bytes entry_size_def[of 0 0] Let_def)

lemma apply_writes_pending:
  assumes run: "apply_writes rk p offs t = Inr t'" and ws: "writes p \<noteq> []"
    and offs: "offs = entry_offsets (extent t (active_file_id t)) (prepare_write t p)"
    and ext: "extent t' (active_file_id t) = extent t (active_file_id t) + write_bytes p"
    and act: "active_file_id t' = active_file_id t" and below: "pending_below t"
  shows "pending_below t'"
proof -
  let ?multi = "write_count p > 1"
  let ?io = "if ?multi then 1 else 0 :: nat"
  let ?t1 = "if ?multi then apply_bulk_marker t else t"
  obtain t2 where t2: "apply_write_loop rk p offs 0 ?io (writes p) ?t1 = Inr t2" "pending t' = pending t2"
    using run unfolding apply_writes_def Let_def rbind_Inr_iff
    by (auto simp: patch_bounds_def apply_bulk_marker_def Let_def)
  have t1: "pending ?t1 = pending t" "active_file_id ?t1 = active_file_id t" by (simp_all add: apply_bulk_marker_def Let_def)
  have offs_lt: "offs ! n < extent t' (active_file_id t)" if "n \<in> {?io..<?io + length (writes p)}" for n
  proof -
    have "n < length (prepare_write t p)" unfolding prepare_write_length[OF ws] using that by (simp add: write_count_def split: if_splits)
    from entry_offsets_below[OF this, of "extent t (active_file_id t)"] show ?thesis
      unfolding offs ext prepare_write_bytes[OF ws] .
  qed
  have sub: "fst ` set (pending t') \<subseteq> fst ` set (pending t) \<union> (\<lambda>n. (active_file_id t, offs ! n)) ` {?io..<?io + length (writes p)}"
    using apply_write_loop_pending[OF t2(1)] unfolding t1 t2(2) .
  show ?thesis
    unfolding pending_below_def act
  proof (intro ballI impI)
    fix x assume x: "x \<in> set (pending t')" "fst (fst x) = active_file_id t"
    then have "fst x \<in> fst ` set (pending t) \<union> (\<lambda>n. (active_file_id t, offs ! n)) ` {?io..<?io + length (writes p)}"
      using sub by blast
    then show "snd (fst x) < extent t' (active_file_id t)"
    proof
      assume "fst x \<in> fst ` set (pending t)"
      then obtain y where y: "y \<in> set (pending t)" "fst x = fst y" by (rule imageE)
      then have "snd (fst y) < extent t (active_file_id t)" using below x(2) unfolding pending_below_def by simp
      then show ?thesis unfolding y(2) ext by simp
    next
      assume "fst x \<in> (\<lambda>n. (active_file_id t, offs ! n)) ` {?io..<?io + length (writes p)}"
      then obtain n where n: "fst x = (active_file_id t, offs ! n)" "n \<in> {?io..<?io + length (writes p)}" by (rule imageE)
      show ?thesis unfolding n(1) using offs_lt[OF n(2)] by simp
    qed
  qed
qed

section \<open>Applying a plan\<close>

text \<open>
  C2. Applying a plan. When the plan fits (its sequences, the file id, the offsets and the value
  sizes are within the packed limits) applying it cannot fail. The state after it satisfies the
  invariant; the next sequence moved by exactly the number of entries the plan writes and the
  active file's extent by exactly their bytes; and the key directory is the map the writes of the
  plan describe, in order, each put at its own sequence and offset. The statistics of every file
  are accounted in full: the live bytes are those of the new key directory; the active file's
  total, tombstone and marker bytes grew by the bytes of all records, of the deletes and of the
  batch markers, and its sequence bounds cover the plan; no other counter of any file changed. The
  records noted as pending lie in the placed bytes if they did before. Nothing else changed.
\<close>

theorem apply_writes_correct:
  assumes "state_inv t" and "resolved_ok p t" and "plan_fits t p"
  shows "\<exists>t'. apply_writes rk p (entry_offsets (extent t (active_file_id t)) (prepare_write t p)) t = Inr t' \<and>
    state_inv t' \<and> same_frame t t' \<and>
    next_seq t' = next_seq t + length (prepare_write t p) \<and>
    extent t' (active_file_id t) = extent t (active_file_id t) + write_bytes p \<and>
    kd_get (key_dir t') =
      plan_map (plan_first_seq t p) (plan_first_off t p) (active_file_id t) (writes p) (kd_get (key_dir t)) \<and>
    (\<forall>f. fs_get (file_stats t') f =
      map_option (plan_stats p (active_file_id t) (next_seq t) (next_seq t' - 1) (key_dir t') f) (fs_get (file_stats t) f)) \<and>
    (pending_below t \<longrightarrow> pending_below t')"
proof -
  obtain t' where run: "apply_writes rk p (entry_offsets (extent t (active_file_id t)) (prepare_write t p)) t = Inr t'"
    and post: "loop_post t (length (prepare_write t p)) (write_bytes p)
      (plan_map (plan_first_seq t p) (plan_first_off t p) (active_file_id t) (writes p) (kd_get (key_dir t))) t'"
    using apply_writes_ok[OF assms] by blast
  have "writes p \<noteq> []" using assms(3) by (simp add: plan_fits_def)
  then show ?thesis
    using run post apply_writes_stats[OF run] apply_writes_pending[OF run _ refl]
    by (intro exI[of _ t']) (simp add: loop_post_def same_frame_def)
qed

definition demo_state :: EngineState where
  "demo_state = EngineState_new\<lparr>files := [(1, ''a'')], file_stats := [(1, FileStats_empty)],
     active_file_id := 1, next_file_id := 2\<rparr>"

definition demo_plan :: WritePlan where
  "demo_plan = (WritePlan_new \<lparr>max_key_bytes = 4096, max_value_bytes = 4096\<rparr>)
     \<lparr>writes := [PointPut [1] [9], PointDel [2]]\<rparr>"

lemma demo_state_inv: "state_inv (transient demo_state)"
  by (simp add: state_inv_def keys_inv_def live_inv_def bounds_inv_def markers_inv_def files_inv_def
      demo_state_def EngineState_new_def transient_def EngineState.defs kd_get_def
      fs_get_def[abs_def] FileStats_empty_def)

lemma demo_plan_ok: "resolved_ok demo_plan (transient demo_state)" "plan_fits (transient demo_state) demo_plan"
  by (simp_all add: resolved_ok_def resolved_entry_def plan_fits_def demo_plan_def WritePlan_new_def
      demo_state_def EngineState_new_def transient_def EngineState.defs op_fits_def write_count_def
      write_bytes_def entry_size_def extent_def fs_get_def FileStats_empty_def)

theorem apply_writes_correct_witness:
  "\<exists>t'. apply_writes True demo_plan
      (entry_offsets 0 (prepare_write (transient demo_state) demo_plan)) (transient demo_state) = Inr t' \<and>
    state_inv t' \<and> next_seq t' = 5 \<and> kd_get (key_dir t') [1] = Some (kde_pack 2 19 1 1) \<and>
    map_option tombstone_bytes (fs_get (file_stats t') 1) = Some 20 \<and>
    map_option marker_bytes (fs_get (file_stats t') 1) = Some 38 \<and>
    map_option min_sequence (fs_get (file_stats t') 1) = Some 1 \<and> map_option max_sequence (fs_get (file_stats t') 1) = Some 4"
proof -
  have demo: "extent (transient demo_state) (active_file_id (transient demo_state)) = 0"
    "active_file_id (transient demo_state) = 1" "next_seq (transient demo_state) = 1"
    "length (prepare_write (transient demo_state) demo_plan) = 4"
    "plan_first_seq (transient demo_state) demo_plan = 2" "plan_first_off (transient demo_state) demo_plan = 19"
    "writes demo_plan = [PointPut [1] [9], PointDel [2]]" "fs_get (file_stats (transient demo_state)) 1 = Some FileStats_empty"
    by (simp_all add: demo_plan_def WritePlan_new_def demo_state_def EngineState_new_def transient_def
        EngineState.defs extent_def fs_get_def FileStats_empty_def prepare_write_def write_count_def
        plan_first_seq_def plan_first_off_def)
  obtain t' where t': "apply_writes True demo_plan
      (entry_offsets 0 (prepare_write (transient demo_state) demo_plan)) (transient demo_state) = Inr t'"
    "state_inv t'" "next_seq t' = 5" "kd_get (key_dir t') [1] = Some (kde_pack 2 19 1 1)"
    "fs_get (file_stats t') 1 = Some (plan_stats demo_plan 1 1 4 (key_dir t') 1 FileStats_empty)"
    using apply_writes_correct[OF demo_state_inv demo_plan_ok, of True] demo by auto
  then show ?thesis
    by (simp add: plan_stats_def plan_marker_bytes_def write_count_def demo(7) FileStats_empty_def entry_size_def)
qed

end
