(* ===== verification/PutsChecked.thy ===== *)
theory PutsChecked
  imports StateInv
begin

text \<open>
  \<^verbatim>\<open>apply_puts_checked\<close> against \<^verbatim>\<open>apply_writes\<close>: the routine that folds the write-write checks into
  the descents that apply the puts either does exactly what the two-pass path does, or takes
  every change back.
\<close>

section \<open>A key directory is determined by its map\<close>

lemma kd_sorted_unique:
  assumes "kd_sorted a" and "kd_sorted b" and "map_of a = map_of b"
  shows "a = b"
proof -
  have canon: "c = map (\<lambda>k. (k, the (map_of c k))) (map fst c)" if "kd_sorted c" for c :: key_dir
  proof -
    have "(fst x, the (map_of c (fst x))) = x" if "x \<in> set c" for x
      using that kd_sorted_distinct[OF \<open>kd_sorted c\<close>]
      by (metis map_of_is_SomeI option.sel prod.collapse)
    then show ?thesis by (simp add: map_idI comp_def)
  qed
  have "fst ` set a = fst ` set b"
    using assms(3) by (metis dom_map_of_conv_image_fst)
  then have "map fst a = map fst b"
    using assms(1,2) by (intro strict_sorted_equal) (simp_all add: kd_sorted_def)
  then show ?thesis using canon[OF assms(1)] canon[OF assms(2)] assms(3) by metis
qed

lemma kd_upsert_back:
  assumes "kd_sorted kd" and "kd_get kd k = Some w"
  shows "kd_upsert (kd_upsert kd k e) k w = kd"
  using assms by (intro kd_sorted_unique) (auto simp: kd_sorted_upsert map_of_upsert kd_get_def)

lemma kd_erase_back:
  assumes "kd_sorted kd" and "kd_get kd k = None"
  shows "fst (kd_erase (kd_upsert kd k e) k) = kd"
  using assms by (intro kd_sorted_unique)
    (auto simp: kd_erase_def kd_sorted_upsert kd_sorted_filter map_of_filter_key map_of_upsert kd_get_def)

section \<open>Undoing\<close>

definition undoes :: "undo list \<Rightarrow> key_dir \<Rightarrow> key_dir \<Rightarrow> bool" where
  "undoes undo kd kd0 \<longleftrightarrow> kd_sorted kd \<and> undo_loop True (rev undo) kd = Inr kd0"

lemma undoes_put:
  assumes "undoes undo kd kd0" and "was = kd_get kd k"
  shows "undoes (undo @ [(k, e, was)]) (kd_upsert kd k e) kd0"
proof -
  have sorted: "kd_sorted kd" using assms(1) by (simp add: undoes_def)
  have "kd_get (kd_upsert kd k e) k = Some e"
    using map_of_upsert[OF sorted] by (simp add: kd_get_def)
  then have holds: "kd_holds True (kd_upsert kd k e) k e"
    by (simp add: kd_holds_def same_record_def)
  show ?thesis
  proof (cases was)
    case None
    then show ?thesis
      using assms holds kd_erase_back[OF sorted, of k e]
      by (simp add: undoes_def kd_sorted_upsert kd_remove_def kd_erase_at_def)
  next
    case (Some w)
    then show ?thesis
      using assms holds kd_upsert_back[OF sorted, of k w e]
      by (simp add: undoes_def kd_sorted_upsert kd_restore_def kd_put_at_def)
  qed
qed

section \<open>The effect of patches\<close>

definition eff :: "(nat \<Rightarrow> FileStatsDelta) \<Rightarrow> file_stats \<Rightarrow> file_stats" where
  "eff D st = map (\<lambda>(g, s). (g, fs_apply (D g) s)) st"

definition removed :: "nat \<Rightarrow> undo list \<Rightarrow> u64" where
  "removed g undo = sum_list (map (\<lambda>(k, now, was). word_of_nat (kd_part g k was)) undo)"

text \<open>What the two-pass path has recorded after a list of puts.\<close>

definition puts_delta :: "nat \<Rightarrow> undo list \<Rightarrow> u64 \<Rightarrow> nat \<Rightarrow> FileStatsDelta" where
  "puts_delta act undo pb g = delta0\<lparr>live_added := (if g = act then pb else 0),
     live_removed := removed g undo, total_added := (if g = act then pb else 0)\<rparr>"

lemma eff_eff: "eff D2 (eff D1 st) = eff (\<lambda>g. fs_combine (D1 g) (D2 g)) st"
  by (induction st) (auto simp: eff_def fs.app_com)

lemma delta0_live_removed [simp]: "delta0\<lparr>live_removed := 0\<rparr> = delta0"
  by (simp add: delta0_def)

lemma eff_id [simp]: "eff (\<lambda>g. delta0) st = st"
  by (induction st) (auto simp: eff_def)

lemma fs_patch_eff: "fs_patch f d st = eff (\<lambda>g. if g = f then d else delta0) st"
  by (auto simp: fs_patch_def eff_def)

lemma drop_live_eff: "drop_live k hit st = eff (\<lambda>g. delta0\<lparr>live_removed := word_of_nat (kd_part g k hit)\<rparr>) st"
proof (cases hit)
  case None
  then show ?thesis by (simp add: drop_live_def)
next
  case (Some h)
  then show ?thesis
    by (auto simp: drop_live_def fs_patch_eff kd_part_def intro!: arg_cong[where f = "\<lambda>D. eff D st"])
qed

lemma drop_live_undo_eff:
  "fold (\<lambda>(k, now, was). drop_live k was) undo st = eff (\<lambda>g. delta0\<lparr>live_removed := removed g undo\<rparr>) st"
proof (induction undo arbitrary: st)
  case Nil
  show ?case by (simp add: removed_def)
next
  case (Cons u undo)
  obtain k now was where u: "u = (k, now, was)" by (cases u) auto
  have "fold (\<lambda>(k, now, was). drop_live k was) (u # undo) st
      = eff (\<lambda>g. delta0\<lparr>live_removed := removed g undo\<rparr>) (drop_live k was st)"
    using Cons by (simp add: u)
  then show ?case
    unfolding drop_live_eff eff_eff by (simp add: u removed_def fs_combine_def delta0_def)
qed

lemma puts_delta_empty [simp]: "eff (puts_delta act [] 0) st = st"
proof -
  have "puts_delta act [] 0 = (\<lambda>g. delta0)"
    by (rule ext) (simp add: puts_delta_def removed_def delta0_def)
  then show ?thesis by simp
qed

lemma puts_delta_step:
  "fs_patch act (delta0\<lparr>live_added := sz, total_added := sz\<rparr>)
     (drop_live k was (eff (puts_delta act undo pb) st))
   = eff (puts_delta act (undo @ [(k, e, was)]) (pb + sz)) st"
  unfolding fs_patch_eff drop_live_eff eff_eff
  by (rule arg_cong[where f = "\<lambda>D. eff D st"])
     (auto simp: fun_eq_iff puts_delta_def fs_combine_def delta0_def removed_def)

section \<open>The two loops\<close>

text \<open>
  While every put is confirmed, the checked loop and the plain loop build the same key directory,
  pending records and sequence; the plain loop has also recorded the statistics.
\<close>

lemma note_pending_stats:
  "note_pending rk off sq k vs (t\<lparr>file_stats := S\<rparr>) = (note_pending rk off sq k vs t)\<lparr>file_stats := S\<rparr>"
  by (simp add: note_pending_def)

lemma puts_loop_done:
  assumes "puts_loop True p offs w_idx io_idx ws undo pb t = Inr (PutsDone t2 undo2 pb2)"
  shows "apply_write_loop True p offs w_idx io_idx ws
      (t\<lparr>file_stats := eff (puts_delta (active_file_id t) undo pb) st\<rparr>)
    = Inr (t2\<lparr>file_stats := eff (puts_delta (active_file_id t) undo2 pb2) st\<rparr>) \<and>
    file_stats t2 = file_stats t \<and> active_file_id t2 = active_file_id t"
  using assms
proof (induction ws arbitrary: w_idx io_idx undo pb t)
  case (Cons w ws)
  then obtain k v where w: "w = PointPut k v" by (cases w) simp_all
  let ?off = "offs ! io_idx" and ?act = "active_file_id t"
  obtain e where vs: "length v < 2 ^ 32" and make: "kde_make (next_seq t) ?off ?act (length v) = Inr e"
    using Cons.prems by (auto simp: w result_simps)
  let ?t1 = "note_pending True ?off (next_seq t) k (length v) t"
  let ?sz = "word_of_nat (entry_size (length k) (length v)) :: u64"
  let ?S = "eff (puts_delta ?act undo pb) st"
  have step: "apply_write True (resolved_entry p w_idx) ?off w (t\<lparr>file_stats := ?S\<rparr>) =
      Inr ((?t1\<lparr>key_dir := kd', next_seq := next_seq t + 1\<rparr>)
        \<lparr>file_stats := eff (puts_delta ?act (undo @ [(k, e, was)]) (pb + ?sz)) st\<rparr>)"
    if "put_by True (resolved_entry p w_idx) (key_dir t) k e = (kd', was)" for kd' was
    using vs make that puts_delta_step[where e = e]
    by (simp add: w note_pending_stats Let_def)
  show ?case
  proof (cases "resolved_entry p w_idx")
    case (Some at)
    then obtain kd' where put: "kd_put_at True (key_dir t) k at e = Some kd'"
      and rec: "puts_loop True p offs (w_idx + 1) (io_idx + 1) ws (undo @ [(k, e, Some at)]) (pb + ?sz)
        (?t1\<lparr>key_dir := kd', next_seq := next_seq t + 1\<rparr>) = Inr (PutsDone t2 undo2 pb2)"
      using Cons.prems vs make by (auto simp: w Let_def split: option.splits)
    have "put_by True (resolved_entry p w_idx) (key_dir t) k e = (kd', Some at)"
      using Some put by (simp add: put_by_def)
    from step[OF this] Cons.IH[OF rec] show ?thesis by simp
  next
    case None
    then have none: "kd_get (key_dir t) k = None"
      and rec: "puts_loop True p offs (w_idx + 1) (io_idx + 1) ws (undo @ [(k, e, None)]) (pb + ?sz)
        (?t1\<lparr>key_dir := kd_upsert (key_dir t) k e, next_seq := next_seq t + 1\<rparr>) = Inr (PutsDone t2 undo2 pb2)"
      using Cons.prems vs make by (auto simp: w Let_def kd_put_def split: if_splits)
    have "put_by True (resolved_entry p w_idx) (key_dir t) k e = (kd_upsert (key_dir t) k e, None)"
      using None none by (simp add: put_by_def kd_put_def)
    from step[OF this] Cons.IH[OF rec] show ?thesis by simp
  qed
qed simp

text \<open>Until a put is refused, the undo list takes the key directory back to where the plan found it.\<close>

definition locations_ok :: "WritePlan \<Rightarrow> nat list \<Rightarrow> nat \<Rightarrow> TransientEngineState \<Rightarrow> bool" where
  "locations_ok p offs io t \<longleftrightarrow> (\<forall>i a. resolved_entry p i = Some a \<longrightarrow>
     (\<forall>k e. kd_get (key_dir t) k = Some e \<longrightarrow> same_record e a \<longrightarrow> e = a) \<and>
     (kde_file_id a = active_file_id t \<longrightarrow> (\<forall>j. io \<le> j \<longrightarrow> j < length offs \<longrightarrow> kde_file_offset a \<noteq> offs ! j)))"

definition puts_back :: "nat list \<Rightarrow> nat \<Rightarrow> nat \<Rightarrow> TransientEngineState \<Rightarrow> TransientEngineState \<Rightarrow> bool" where
  "puts_back offs io n t t2 \<longleftrightarrow> file_stats t2 = file_stats t \<and> io \<le> n \<and> n < length offs \<and>
     same_frame t t2 \<and> closed t2 = closed t \<and>
     (\<exists>rs. length rs = Suc n - io \<and> pending t2 =
        fold (\<lambda>(o1, r) m. AList.update (active_file_id t, o1) r m)
          (zip (map ((!) offs) [io..<Suc n]) rs) (pending t))"

lemma puts_back_one:
  assumes "io < length offs"
    and "t2 = (note_pending True (offs ! io) sq k vs t)\<lparr>key_dir := kd'\<rparr>"
  shows "puts_back offs io io t t2"
  using assms unfolding puts_back_def same_frame_def note_pending_def
  by (auto intro!: exI[of _ "[\<lparr>p_sequence = sq, p_value_size = vs, p_key = k\<rparr>]"])

lemma puts_back_step:
  assumes "puts_back offs (io + 1) n ((note_pending True (offs ! io) sq k vs t)\<lparr>key_dir := kd', next_seq := m\<rparr>) t2"
  shows "puts_back offs io n t t2"
proof -
  let ?r = "\<lparr>p_sequence = sq, p_value_size = vs, p_key = k\<rparr>"
  have le: "io + 1 \<le> n" using assms by (simp add: puts_back_def)
  obtain rs where rs: "length rs = Suc n - (io + 1)"
    "pending t2 = fold (\<lambda>(o1, r) m. AList.update (active_file_id t, o1) r m)
          (zip (map ((!) offs) [io + 1..<Suc n]) rs)
          (AList.update (active_file_id t, offs ! io) ?r (pending t))"
    using assms unfolding puts_back_def note_pending_def by auto
  have up: "[io..<Suc n] = io # [io + 1..<Suc n]" using le by (simp add: upt_conv_Cons)
  have "pending t2 = fold (\<lambda>(o1, r) m. AList.update (active_file_id t, o1) r m)
          (zip (map ((!) offs) [io..<Suc n]) (?r # rs)) (pending t)"
    unfolding up using rs(2) by simp
  moreover have "length (?r # rs) = Suc n - io" using rs(1) le by simp
  moreover have "file_stats t2 = file_stats t" "io \<le> n" "n < length offs" "same_frame t t2" "closed t2 = closed t"
    using assms le unfolding puts_back_def same_frame_def by (simp_all add: note_pending_def)
  ultimately show ?thesis
    unfolding puts_back_def by blast
qed

lemma puts_loop_abandoned:
  assumes "puts_loop True p offs w_idx io_idx ws undo pb t = Inr (PutsAbandoned t2 undo2 n)"
    and "undoes undo (key_dir t) kd0" and "locations_ok p offs io_idx t"
    and "io_idx + length ws \<le> length offs"
  shows "undoes undo2 (key_dir t2) kd0 \<and> puts_back offs io_idx n t t2"
  using assms
proof (induction ws arbitrary: w_idx io_idx undo pb t)
  case (Cons w ws)
  then obtain k v where w: "w = PointPut k v" by (cases w) simp_all
  let ?off = "offs ! io_idx" and ?act = "active_file_id t"
  obtain e where vs: "length v < 2 ^ 32" and make: "kde_make (next_seq t) ?off ?act (length v) = Inr e"
    using Cons.prems(1) by (auto simp: w result_simps)
  note fld = kde_make_fields[OF make]
  let ?t1 = "note_pending True ?off (next_seq t) k (length v) t"
  let ?sz = "word_of_nat (entry_size (length k) (length v)) :: u64"
  have io: "io_idx < length offs" using Cons.prems(4) by simp
  have sorted: "kd_sorted (key_dir t)" using Cons.prems(2) by (simp add: undoes_def)
  have loc: "locations_ok p offs (io_idx + 1) (?t1\<lparr>key_dir := kd_upsert (key_dir t) k e, next_seq := m\<rparr>)" for m
    using Cons.prems(3) io fld map_of_upsert[OF sorted, of k e]
    unfolding locations_ok_def
    by (auto simp: kd_get_def same_record_def split: if_splits) (metis order_refl)
  show ?case
  proof (cases "resolved_entry p w_idx")
    case (Some at)
    show ?thesis
    proof (cases "kd_put_at True (key_dir t) k at e")
      case None
      then have "t2 = ?t1" "undo2 = undo" "n = io_idx"
        using Cons.prems(1) vs make Some by (auto simp: w Let_def)
      then show ?thesis
        using Cons.prems(2)
          puts_back_one[OF io, where sq = "next_seq t" and k = k and vs = "length v" and t = t and kd' = "key_dir t"]
        by (simp add: note_pending_def)
    next
      case (Some kd')
      then obtain x where kd': "kd' = kd_upsert (key_dir t) k e" and x: "kd_get (key_dir t) k = Some x" "same_record x at"
        by (auto simp: kd_put_at_def kd_holds_def split: if_splits option.splits)
      then have was: "Some at = kd_get (key_dir t) k"
        using Cons.prems(3) \<open>resolved_entry p w_idx = Some at\<close> unfolding locations_ok_def by metis
      have rec: "puts_loop True p offs (w_idx + 1) (io_idx + 1) ws (undo @ [(k, e, Some at)]) (pb + ?sz)
          (?t1\<lparr>key_dir := kd', next_seq := next_seq t + 1\<rparr>) = Inr (PutsAbandoned t2 undo2 n)"
        using Cons.prems(1) vs make Some \<open>resolved_entry p w_idx = Some at\<close> by (simp add: w Let_def)
      have "undoes undo2 (key_dir t2) kd0 \<and>
          puts_back offs (io_idx + 1) n (?t1\<lparr>key_dir := kd', next_seq := next_seq t + 1\<rparr>) t2"
        by (rule Cons.IH[OF rec]) (use loc kd' undoes_put[OF Cons.prems(2) was] Cons.prems(4) in simp_all)
      then show ?thesis using puts_back_step by blast
    qed
  next
    case None
    let ?kd = "kd_upsert (key_dir t) k e" and ?was = "kd_get (key_dir t) k"
    have und: "undoes (undo @ [(k, e, ?was)]) ?kd kd0"
      by (rule undoes_put[OF Cons.prems(2) refl])
    show ?thesis
    proof (cases ?was)
      case (Some x)
      then have "t2 = ?t1\<lparr>key_dir := ?kd\<rparr>" "undo2 = undo @ [(k, e, ?was)]" "n = io_idx"
        using Cons.prems(1) vs make None by (auto simp: w Let_def kd_put_def)
      then show ?thesis
        using und puts_back_one[OF io, where sq = "next_seq t" and k = k and vs = "length v" and t = t and kd' = ?kd]
        by simp
    next
      case none: None
      then have rec: "puts_loop True p offs (w_idx + 1) (io_idx + 1) ws (undo @ [(k, e, ?was)]) (pb + ?sz)
          (?t1\<lparr>key_dir := ?kd, next_seq := next_seq t + 1\<rparr>) = Inr (PutsAbandoned t2 undo2 n)"
        using Cons.prems(1) vs make None by (simp add: w Let_def kd_put_def)
      have "undoes undo2 (key_dir t2) kd0 \<and>
          puts_back offs (io_idx + 1) n (?t1\<lparr>key_dir := ?kd, next_seq := next_seq t + 1\<rparr>) t2"
        by (rule Cons.IH[OF rec]) (use loc und Cons.prems(4) in simp_all)
      then show ?thesis using puts_back_step by blast
    qed
  qed
qed simp

section \<open>The routine\<close>

lemma filter_update:
  "P k \<Longrightarrow> filter (\<lambda>x. \<not> P (fst x)) (AList.update k r m) = filter (\<lambda>x. \<not> P (fst x)) m"
  by (induction m) auto

lemma filter_updates:
  assumes "\<forall>o1 \<in> set os. P (f, o1)"
  shows "filter (\<lambda>x. \<not> P (fst x)) (fold (\<lambda>(o1, r) m. AList.update (f, o1) r m) (zip os rs) m)
    = filter (\<lambda>x. \<not> P (fst x)) m"
  using assms
proof (induction os arbitrary: rs m)
  case (Cons o1 os)
  then show ?case by (cases rs) (simp_all add: filter_update)
qed simp

lemma fold_delete_filter:
  "fold (\<lambda>i m. AList.delete (f, g i) m) is m = filter (\<lambda>x. \<not> fst x \<in> (\<lambda>i. (f, g i)) ` set is) m"
proof (induction "is" arbitrary: m)
  case (Cons i "is")
  then show ?case
    by (simp add: AList.delete_eq case_prod_unfold) (rule filter_cong, auto)
qed simp

lemma pending_back:
  assumes "length rs = Suc n - io"
    and "\<forall>j. io \<le> j \<and> j \<le> n \<longrightarrow> (f, offs ! j) \<notin> fst ` set m"
  shows "fold (\<lambda>i m. AList.delete (f, offs ! i) m) [io..<Suc n]
      (fold (\<lambda>(o1, r) m. AList.update (f, o1) r m) (zip (map ((!) offs) [io..<Suc n]) rs) m) = m"
proof -
  let ?P = "\<lambda>x. x \<in> (\<lambda>i. (f, offs ! i)) ` set [io..<Suc n]"
  have "fold (\<lambda>i m. AList.delete (f, offs ! i) m) [io..<Suc n]
      (fold (\<lambda>(o1, r) m. AList.update (f, o1) r m) (zip (map ((!) offs) [io..<Suc n]) rs) m)
    = filter (\<lambda>x. \<not> ?P (fst x)) m"
    unfolding fold_delete_filter by (rule filter_updates) auto
  also have "\<dots> = m"
    using assms(2) by (intro filter_True) (force simp: less_Suc_eq_le)
  finally show ?thesis .
qed

lemma entry_offsets_length [simp]: "length (entry_offsets off es) = length es"
  by (induction es arbitrary: off) simp_all

lemma entry_offsets_ge: "j < length es \<Longrightarrow> off \<le> entry_offsets off es ! j"
proof (induction es arbitrary: off j)
  case (Cons e es)
  show ?case
  proof (cases j)
    case (Suc i)
    then show ?thesis
      using Cons.IH[of i "off + entry_size (length (e_key e)) (length (e_value e))"] Cons.prems by simp
  qed simp
qed simp

lemma locations_ok_initial:
  assumes "resolved_ok p t" and "offs = entry_offsets (extent t (active_file_id t)) es"
  shows "locations_ok p offs io t"
  using assms entry_offsets_ge[of _ es "extent t (active_file_id t)"]
  unfolding resolved_ok_def locations_ok_def by (metis entry_offsets_length not_le)

text \<open>The statistics the two paths record for the same puts.\<close>

definition two_pass_stats ::
  "bool \<Rightarrow> nat \<Rightarrow> nat \<Rightarrow> nat \<Rightarrow> undo list \<Rightarrow> u64 \<Rightarrow> file_stats \<Rightarrow> file_stats" where
  "two_pass_stats multi act lo hi undo pb st =
    (let m = word_of_nat (marker_size BulkBegin);
         mark = (\<lambda>st. if multi then fs_patch act (delta0\<lparr>total_added := m, marker_added := m\<rparr>) st else st)
     in fs_patch act (delta0\<lparr>d_min_sequence := lo, d_max_sequence := hi\<rparr>)
          (mark (eff (puts_delta act undo pb) (mark st))))"

definition checked_stats ::
  "bool \<Rightarrow> nat \<Rightarrow> nat \<Rightarrow> nat \<Rightarrow> undo list \<Rightarrow> u64 \<Rightarrow> file_stats \<Rightarrow> file_stats" where
  "checked_stats multi act lo hi undo pb st =
    (let markers = (if multi then 2 * word_of_nat (marker_size BulkBegin) else 0)
     in fold (\<lambda>(k, now, was). drop_live k was) undo
          (fs_patch act (delta0\<lparr>live_added := pb, total_added := pb + markers, marker_added := markers,
             d_min_sequence := lo, d_max_sequence := hi\<rparr>) st))"

lemma checked_stats_eq:
  "checked_stats multi act lo hi undo pb st = two_pass_stats multi act lo hi undo pb st"
  unfolding checked_stats_def two_pass_stats_def Let_def drop_live_undo_eff fs_patch_eff
  by (cases multi; simp only: if_True if_False eff_eff)
     (rule arg_cong[where f = "\<lambda>D. eff D st"],
      auto simp: fun_eq_iff puts_delta_def fs_combine_def delta0_def removed_def)+

section \<open>When the routine confirms\<close>

text \<open>The key of a put, and whether it is where the plan's snapshot saw it.\<close>

fun op_key :: "WriteOp \<Rightarrow> key" where
  "op_key (PointPut k v) = k"
| "op_key (PointDel k) = k"
| "op_key (RangeDelete frm to) = frm"

definition still_there :: "key_dir \<Rightarrow> key \<Rightarrow> KeyDirEntry option \<Rightarrow> bool" where
  "still_there kd k at \<longleftrightarrow>
    (case at of None \<Rightarrow> kd_get kd k = None
     | Some a \<Rightarrow> (case kd_get kd k of None \<Rightarrow> False | Some e \<Rightarrow> same_record e a))"

definition puts_fit :: "nat list \<Rightarrow> nat \<Rightarrow> WriteOp list \<Rightarrow> TransientEngineState \<Rightarrow> bool" where
  "puts_fit offs io ws t \<longleftrightarrow> list_all (\<lambda>w. is_point_put w \<and> op_fits w) ws \<and> next_seq t + length ws \<le> Suc kMaxSequence \<and>
     active_file_id t \<le> kMaxFileId \<and> io + length ws \<le> length offs \<and> (\<forall>j < length offs. offs ! j \<le> kMaxFileOffset)"

lemma still_there_other:
  assumes "kd_sorted kd" and "k' \<noteq> k"
  shows "still_there (kd_upsert kd k e) k' at = still_there kd k' at"
proof -
  have "kd_get (kd_upsert kd k e) k' = kd_get kd k'" using assms by (simp add: kd_get_def map_of_upsert)
  then show ?thesis by (cases at) (simp_all add: still_there_def)
qed

lemma still_there_moved:
  assumes "kd_sorted kd" and "\<And>a. at = Some a \<Longrightarrow> \<not> same_record e a"
  shows "\<not> still_there (kd_upsert kd k e) k at"
proof -
  have "kd_get (kd_upsert kd k e) k = Some e" using assms(1) by (simp add: kd_get_def map_of_upsert)
  then show ?thesis using assms(2) by (simp add: still_there_def split: option.splits)
qed

lemma puts_loop_step:
  assumes fit: "puts_fit offs io (PointPut k v # ws) t"
  shows "\<exists>e. kde_make (next_seq t) (offs ! io) (active_file_id t) (length v) = Inr e \<and>
    puts_loop True p offs i io (PointPut k v # ws) undo pb t =
      (let t1 = note_pending True (offs ! io) (next_seq t) k (length v) t; at = resolved_entry p i in
       if still_there (key_dir t) k at
       then puts_loop True p offs (i + 1) (io + 1) ws (undo @ [(k, e, at)]) (pb + word_of_nat (entry_size (length k) (length v)))
              (t1\<lparr>key_dir := kd_upsert (key_dir t) k e, next_seq := next_seq t + 1\<rparr>)
       else case at of
         Some a \<Rightarrow> Inr (PutsAbandoned t1 undo io)
       | None \<Rightarrow> Inr (PutsAbandoned (t1\<lparr>key_dir := kd_upsert (key_dir t) k e\<rparr>) (undo @ [(k, e, kd_get (key_dir t) k)]) io))"
proof -
  have "length v \<le> kMaxValueSize" "next_seq t \<le> kMaxSequence" "offs ! io \<le> kMaxFileOffset" "active_file_id t \<le> kMaxFileId"
    using fit by (simp_all add: puts_fit_def op_fits_def)
  then obtain e where e: "kde_make (next_seq t) (offs ! io) (active_file_id t) (length v) = Inr e"
    by (simp add: kde_make_iff)
  have v: "length v < 2 ^ 32" using fit by (simp add: puts_fit_def op_fits_def)
  show ?thesis
    using e v
    by (intro exI[of _ e])
      (auto simp: Let_def still_there_def kd_put_def kd_put_at_def kd_holds_def note_pending_def split: option.splits)
qed

lemma puts_loop_decides:
  assumes "puts_fit offs io ws t" and "kd_sorted (key_dir t)" and "locations_ok p offs io t"
  shows "\<exists>oc. puts_loop True p offs i io ws undo pb t = Inr oc \<and>
    ((\<exists>t2 u b. oc = PutsDone t2 u b) \<longleftrightarrow> distinct (map op_key ws) \<and>
      (\<forall>j < length ws. still_there (key_dir t) (op_key (ws ! j)) (resolved_entry p (i + j))))"
  using assms
proof (induction ws arbitrary: i io undo pb t)
  case (Cons w ws)
  obtain k v where w: "w = PointPut k v" using Cons.prems(1) by (cases w) (simp_all add: puts_fit_def)
  obtain e where e: "kde_make (next_seq t) (offs ! io) (active_file_id t) (length v) = Inr e"
    and step: "puts_loop True p offs i io (w # ws) undo pb t =
      (let t1 = note_pending True (offs ! io) (next_seq t) k (length v) t; at = resolved_entry p i in
       if still_there (key_dir t) k at
       then puts_loop True p offs (i + 1) (io + 1) ws (undo @ [(k, e, at)]) (pb + word_of_nat (entry_size (length k) (length v)))
              (t1\<lparr>key_dir := kd_upsert (key_dir t) k e, next_seq := next_seq t + 1\<rparr>)
       else case at of
         Some a \<Rightarrow> Inr (PutsAbandoned t1 undo io)
       | None \<Rightarrow> Inr (PutsAbandoned (t1\<lparr>key_dir := kd_upsert (key_dir t) k e\<rparr>) (undo @ [(k, e, kd_get (key_dir t) k)]) io))"
    using puts_loop_step[of offs io k v ws t p i undo pb] Cons.prems(1) unfolding w by blast
  let ?kd = "kd_upsert (key_dir t) k e"
  let ?t1 = "(note_pending True (offs ! io) (next_seq t) k (length v) t)\<lparr>key_dir := ?kd, next_seq := next_seq t + 1\<rparr>"
  have all: "(\<forall>j < length (w # ws). still_there (key_dir t) (op_key ((w # ws) ! j)) (resolved_entry p (i + j))) \<longleftrightarrow>
      still_there (key_dir t) k (resolved_entry p i) \<and>
      (\<forall>j < length ws. still_there (key_dir t) (op_key (ws ! j)) (resolved_entry p (i + 1 + j)))"
    by (simp add: w All_less_Suc2)
  show ?case
  proof (cases "still_there (key_dir t) k (resolved_entry p i)")
    case False
    then show ?thesis unfolding step all Let_def if_not_P[OF False] by (cases "resolved_entry p i") simp_all
  next
    case True
    have io: "io < length offs" using Cons.prems(1) by (simp add: puts_fit_def)
    note fld = kde_make_fields[OF e]
    have loc: "locations_ok p offs (io + 1) ?t1"
      using Cons.prems(3) io fld map_of_upsert[OF Cons.prems(2), of k e] unfolding locations_ok_def
      by (auto simp: kd_get_def same_record_def note_pending_def split: if_splits) (metis order_refl)
    have moved: "\<not> still_there ?kd k (resolved_entry p n)" for n
    proof (rule still_there_moved[OF Cons.prems(2)])
      fix a assume "resolved_entry p n = Some a"
      then show "\<not> same_record e a" using Cons.prems(3) io fld unfolding locations_ok_def same_record_def by (metis order_refl)
    qed
    have rest: "distinct (map op_key ws) \<and> (\<forall>j < length ws. still_there ?kd (op_key (ws ! j)) (resolved_entry p (i + 1 + j))) \<longleftrightarrow>
        distinct (map op_key (w # ws)) \<and> (\<forall>j < length ws. still_there (key_dir t) (op_key (ws ! j)) (resolved_entry p (i + 1 + j)))"
    proof -
      have "k \<notin> set (map op_key ws) \<longleftrightarrow> (\<forall>j < length ws. op_key (ws ! j) \<noteq> k)" by (force simp: in_set_conv_nth)
      moreover have "still_there ?kd (op_key x) (resolved_entry p n) \<longleftrightarrow> op_key x \<noteq> k \<and> still_there (key_dir t) (op_key x) (resolved_entry p n)" for x n
        using moved[of n] still_there_other[OF Cons.prems(2), of "op_key x" k e] by (cases "op_key x = k") auto
      ultimately show ?thesis by (auto simp: w)
    qed
    have IH: "\<exists>oc. puts_loop True p offs (i + 1) (io + 1) ws (undo @ [(k, e, resolved_entry p i)])
        (pb + word_of_nat (entry_size (length k) (length v))) ?t1 = Inr oc \<and>
      ((\<exists>t2 u b. oc = PutsDone t2 u b) \<longleftrightarrow> distinct (map op_key ws) \<and>
        (\<forall>j < length ws. still_there (key_dir ?t1) (op_key (ws ! j)) (resolved_entry p (i + 1 + j))))"
      by (rule Cons.IH[OF _ _ loc]) (use Cons.prems(1,2) in \<open>simp_all add: puts_fit_def note_pending_def kd_sorted_upsert\<close>)
    have key: "key_dir ?t1 = ?kd" by simp
    show ?thesis unfolding step all Let_def if_P[OF True] using IH[unfolded key rest] True by blast
  qed
qed simp

text \<open>A put that is where the snapshot saw it has no conflict.\<close>

lemma write_conflicts_none:
  assumes "list_all is_point_put ws" and "i + length ws = length (snap_entries p)"
    and "\<forall>j < length ws. still_there (key_dir t) (op_key (ws ! j)) (resolved_entry p (i + j))"
  shows "write_conflicts True t p sn i ws = None"
  using assms
proof (induction ws arbitrary: i)
  case (Cons w ws)
  obtain k v where w: "w = PointPut k v" using Cons.prems(1) by (cases w) simp_all
  have "still_there (key_dir t) k (resolved_entry p i)" using Cons.prems(3) w by force
  moreover have "snapshot_entry p sn i k = resolved_entry p i"
    using Cons.prems(2) by (simp add: snapshot_entry_def resolved_entry_def)
  ultimately have "point_conflict True t p sn i k = None"
    by (auto simp: point_conflict_def still_there_def kd_holds_def Let_def split: option.splits)
  moreover have "write_conflicts True t p sn (Suc i) ws = None"
    by (rule Cons.IH) (use Cons.prems in force)+
  ultimately show ?case by (simp add: w)
qed simp

section \<open>The routine as a whole\<close>

lemma checked_run_done:
  assumes loop: "puts_loop True p offs 0 (if write_count p > 1 then 1 else 0) (writes p) []  0
      (if write_count p > 1 then t\<lparr>next_seq := next_seq t + 1\<rparr> else t) = Inr (PutsDone t2 undo pb)"
  shows "\<exists>t'. apply_puts_checked True p offs t = Inr (True, t') \<and> apply_writes True p offs t = Inr t'"
proof -
  let ?multi = "write_count p > 1"
  let ?io = "if ?multi then 1 else 0 :: nat"
  let ?t1 = "if ?multi then t\<lparr>next_seq := next_seq t + 1\<rparr> else t"
  let ?st0 = "if ?multi then fs_patch (active_file_id t)
      (delta0\<lparr>total_added := word_of_nat (marker_size BulkBegin), marker_added := word_of_nat (marker_size BulkBegin)\<rparr>)
      (file_stats t) else file_stats t"
  have "apply_write_loop True p offs 0 ?io (writes p)
      (?t1\<lparr>file_stats := eff (puts_delta (active_file_id ?t1) [] 0) ?st0\<rparr>)
    = Inr (t2\<lparr>file_stats := eff (puts_delta (active_file_id ?t1) undo pb) ?st0\<rparr>) \<and>
    file_stats t2 = file_stats ?t1 \<and> active_file_id t2 = active_file_id ?t1"
    by (rule puts_loop_done[OF loop])
  then have run: "apply_write_loop True p offs 0 ?io (writes p) (?t1\<lparr>file_stats := ?st0\<rparr>)
    = Inr (t2\<lparr>file_stats := eff (puts_delta (active_file_id t) undo pb) ?st0\<rparr>)"
    and t2: "file_stats t2 = file_stats t" "active_file_id t2 = active_file_id t"
    by (simp_all split: if_splits)
  let ?n = "if ?multi then next_seq t2 + 1 else next_seq t2"
  have start: "(if ?multi then apply_bulk_marker t else t) = ?t1\<lparr>file_stats := ?st0\<rparr>"
    by (simp add: apply_bulk_marker_def Let_def)
  have "apply_writes True p offs t = Inr (t2\<lparr>next_seq := ?n,
      file_stats := two_pass_stats ?multi (active_file_id t) (next_seq t) (?n - 1) undo pb (file_stats t)\<rparr>)"
    using run t2 unfolding apply_writes_def Let_def start two_pass_stats_def
    by (simp add: apply_bulk_marker_def patch_bounds_def Let_def)
  moreover have "apply_puts_checked True p offs t = Inr (True, t2\<lparr>next_seq := ?n,
      file_stats := checked_stats ?multi (active_file_id t) (next_seq t) (?n - 1) undo pb (file_stats t)\<rparr>)"
    using loop t2 by (auto simp: apply_puts_checked_def Let_def checked_stats_def)
  ultimately show ?thesis by (simp add: checked_stats_eq)
qed

lemma checked_run_abandoned:
  assumes inv: "state_inv t" and res: "resolved_ok p t" and below: "pending_below t" and ws: "writes p \<noteq> []"
    and offs: "offs = entry_offsets (extent t (active_file_id t)) (prepare_write t p)"
    and loop: "puts_loop True p offs 0 (if write_count p > 1 then 1 else 0) (writes p) [] 0
      (if write_count p > 1 then t\<lparr>next_seq := next_seq t + 1\<rparr> else t) = Inr (PutsAbandoned t2 undo n)"
  shows "apply_puts_checked True p offs t = Inr (False, t)"
proof -
  let ?multi = "write_count p > 1"
  let ?io = "if ?multi then 1 else 0 :: nat"
  let ?t1 = "if ?multi then t\<lparr>next_seq := next_seq t + 1\<rparr> else t"
  have und: "undoes [] (key_dir ?t1) (key_dir t)"
    using inv by (simp add: undoes_def state_inv_def keys_inv_def)
  have loc: "locations_ok p offs ?io ?t1"
    using locations_ok_initial[OF res offs, of ?io] by (simp add: locations_ok_def)
  have len: "?io + length (writes p) \<le> length offs"
    using offs prepare_write_length[OF ws, of t] by (simp add: write_count_def)
  from puts_loop_abandoned[OF loop und loc len]
  have bk: "undoes undo (key_dir t2) (key_dir t)" "puts_back offs ?io n ?t1 t2" by blast+
  then obtain rs where rs: "length rs = Suc n - ?io"
    "pending t2 = fold (\<lambda>(o1, r) m. AList.update (active_file_id t, o1) r m)
        (zip (map ((!) offs) [?io..<Suc n]) rs) (pending t)"
    by (auto simp: puts_back_def)
  have "(active_file_id t, offs ! j) \<notin> fst ` set (pending t)" if "j \<le> n" for j
  proof -
    have "j < length (prepare_write t p)" using that bk(2) by (simp add: puts_back_def offs)
    from entry_offsets_ge[OF this, of "extent t (active_file_id t)"]
    show ?thesis using below unfolding pending_below_def offs by fastforce
  qed
  then have "fold (\<lambda>i m. AList.delete (active_file_id t, offs ! i) m) [?io..<Suc n] (pending t2) = pending t"
    unfolding rs(2) by (intro pending_back[OF rs(1)]) simp
  moreover have "active_file_id t2 = active_file_id t"
    using bk(2) by (simp add: puts_back_def same_frame_def split: if_splits)
  ultimately have "abandon True offs ?io n (next_seq t) undo t2 =
      Inr (t2\<lparr>key_dir := key_dir t, pending := pending t, next_seq := next_seq t\<rparr>)"
    using bk(1) by (simp add: abandon_def undoes_def)
  moreover have "t2\<lparr>key_dir := key_dir t, pending := pending t, next_seq := next_seq t\<rparr> = t"
    using bk(2) by (cases t; cases t2) (simp add: puts_back_def same_frame_def split: if_splits)
  ultimately show ?thesis using loop by (simp add: apply_puts_checked_def Let_def)
qed

lemma puts_fit_plan:
  assumes "plan_fits t p" and "can_apply_puts_checked True p"
    and "offs = entry_offsets (extent t (active_file_id t)) (prepare_write t p)"
  shows "puts_fit offs (if write_count p > 1 then 1 else 0) (writes p) (if write_count p > 1 then t\<lparr>next_seq := next_seq t + 1\<rparr> else t)"
proof -
  have ws: "writes p \<noteq> []" using assms(1) by (simp add: plan_fits_def)
  have "offs ! j \<le> kMaxFileOffset" if "j < length offs" for j
  proof -
    have "j < length (prepare_write t p)" using that by (simp add: assms(3))
    from entry_offsets_below[OF this, of "extent t (active_file_id t)"]
    show ?thesis using assms(1) unfolding assms(3) prepare_write_bytes[OF ws] by (simp add: plan_fits_def)
  qed
  then show ?thesis
    using assms prepare_write_length[OF ws, of t]
    by (auto simp: puts_fit_def plan_fits_def can_apply_puts_checked_def list_all_iff write_count_def split: if_splits)
qed

text \<open>
  C4. The puts whose checks are folded into the descents, for a plan of puts with a snapshot that
  fits, on any working copy whose pending records lie in the bytes already placed: that of the
  first slot of a commit group and of every later one. The routine always returns. It confirms
  exactly when the plan writes no key twice and every key is where the snapshot saw it: absent, or
  at the same record; then no key changed since the snapshot. When it confirms, its result is
  exactly the state \<^verbatim>\<open>apply_writes\<close> builds: key directory, statistics, pending records and
  sequences. When it does not, it has taken every change back: the state is the one it was given.
\<close>

theorem apply_puts_checked_correct:
  assumes "state_inv t" and "resolved_ok p t" and "plan_fits t p" and "can_apply_puts_checked True p"
    and "offs = entry_offsets (extent t (active_file_id t)) (prepare_write t p)" and "pending_below t"
  shows "\<exists>ok t'. apply_puts_checked True p offs t = Inr (ok, t') \<and>
    (ok \<longleftrightarrow> distinct (map op_key (writes p)) \<and>
      (\<forall>i < length (writes p). still_there (key_dir t) (op_key (writes p ! i)) (resolved_entry p i))) \<and>
    (ok \<longrightarrow> write_conflicts True t p (the (snap p)) 0 (writes p) = None) \<and>
    (if ok then apply_writes True p offs t = Inr t' else t' = t)"
proof -
  let ?multi = "write_count p > 1"
  let ?t1 = "if ?multi then t\<lparr>next_seq := next_seq t + 1\<rparr> else t"
  let ?good = "distinct (map op_key (writes p)) \<and>
      (\<forall>i < length (writes p). still_there (key_dir t) (op_key (writes p ! i)) (resolved_entry p i))"
  have ws: "writes p \<noteq> []" using assms(3) by (simp add: plan_fits_def)
  have kd: "kd_sorted (key_dir ?t1)" "key_dir ?t1 = key_dir t" using assms(1) by (simp_all add: state_inv_def keys_inv_def)
  have loc: "locations_ok p offs (if ?multi then 1 else 0) ?t1"
    using locations_ok_initial[OF assms(2,5)] by (simp add: locations_ok_def)
  obtain oc where loop: "puts_loop True p offs 0 (if ?multi then 1 else 0) (writes p) [] 0 ?t1 = Inr oc"
    and dec: "(\<exists>t2 u b. oc = PutsDone t2 u b) \<longleftrightarrow> ?good"
    using puts_loop_decides[OF puts_fit_plan[OF assms(3,4,5)] kd(1) loc, of 0 "[]" 0] unfolding kd(2) by auto
  show ?thesis
  proof (cases oc)
    case (PutsDone t2 undo pb)
    then have good: ?good using dec by blast
    have "write_conflicts True t p (the (snap p)) 0 (writes p) = None"
      by (rule write_conflicts_none) (use good assms(4) in \<open>auto simp: can_apply_puts_checked_def split: if_splits\<close>)
    then show ?thesis using checked_run_done[OF loop[unfolded PutsDone]] good by auto
  next
    case (PutsAbandoned t2 undo n)
    then have "\<not> ?good" using dec by blast
    then show ?thesis using checked_run_abandoned[OF assms(1,2,6) ws assms(5) loop[unfolded PutsAbandoned]] by auto
  qed
qed

text \<open>The working copy of a group whose first slot put the key that the second one puts.\<close>

definition demo_live :: TransientEngineState where
  "demo_live = (transient (demo_state\<lparr>key_dir := [([1], kde_pack 3 40 1 1)], next_seq := 5,
     file_stats := [(1, FileStats_empty\<lparr>live_bytes := 21, total_bytes := 80\<rparr>)]\<rparr>))
     \<lparr>pending := [((1, 40), \<lparr>p_sequence = 3, p_value_size = 1, p_key = [1]\<rparr>)]\<rparr>"

definition demo_put :: "KeyDirEntry option \<Rightarrow> WritePlan" where
  "demo_put at = (WritePlan_snapshot demo_state \<lparr>max_key_bytes = 4096, max_value_bytes = 4096\<rparr>)
     \<lparr>writes := [PointPut [1] [5]], snap_entries := [at]\<rparr>"

lemmas demo_live_defs = demo_live_def demo_put_def demo_state_def EngineState_new_def transient_def
  EngineState.defs WritePlan_snapshot_def WritePlan_new_def

lemma demo_live_inv: "state_inv demo_live"
proof -
  have "kd_live (key_dir demo_live) f = (if f = 1 then 21 else 0)" for f
    by (simp add: demo_live_defs kd_part_def kde_pack_fields entry_size_def)
  then show ?thesis
    by (auto simp: state_inv_def keys_inv_def entry_inv_def live_inv_def bounds_inv_def markers_inv_def
        files_inv_def demo_live_defs kd_get_def fs_get_def[abs_def] extent_def kde_pack_fields
        entry_size_def FileStats_empty_def split: if_splits)
qed

lemma demo_put_ok:
  assumes "at = Some (kde_pack 3 40 1 1) \<or> at = None"
  shows "resolved_ok (demo_put at) demo_live" "plan_fits demo_live (demo_put at)" "can_apply_puts_checked True (demo_put at)"
    "[80] = entry_offsets (extent demo_live (active_file_id demo_live)) (prepare_write demo_live (demo_put at))"
    "pending_below demo_live"
  using assms
  by (auto simp: resolved_ok_def resolved_entry_def can_apply_puts_checked_def demo_live_defs kd_get_def plan_fits_def op_fits_def
      extent_def fs_get_def prepare_write_def write_count_def write_bytes_def entry_size_def pending_below_def FileStats_empty_def
      kde_pack_fields split: if_splits)

theorem apply_puts_checked_correct_witness:
  "(\<exists>t'. apply_puts_checked True (demo_put (Some (kde_pack 3 40 1 1))) [80] demo_live = Inr (True, t') \<and>
     apply_writes True (demo_put (Some (kde_pack 3 40 1 1))) [80] demo_live = Inr t') \<and>
   apply_puts_checked True (demo_put None) [80] demo_live = Inr (False, demo_live)"
proof -
  define a where "a = kde_pack 3 40 1 1"
  have there: "still_there (key_dir demo_live) [1] (Some a)" "\<not> still_there (key_dir demo_live) [1] None"
    by (simp_all add: a_def demo_live_defs still_there_def kd_get_def same_record_def)
  have plan: "writes (demo_put x) = [PointPut [1] [5]]" "resolved_entry (demo_put x) 0 = x" for x
    by (simp_all add: demo_put_def resolved_entry_def)
  have "\<exists>ok t'. apply_puts_checked True (demo_put x) [80] demo_live = Inr (ok, t') \<and>
      (ok \<longleftrightarrow> still_there (key_dir demo_live) [1] x) \<and>
      (if ok then apply_writes True (demo_put x) [80] demo_live = Inr t' else t' = demo_live)"
    if "x = Some a \<or> x = None" for x
    using apply_puts_checked_correct[OF demo_live_inv demo_put_ok[OF that[unfolded a_def]]] by (auto simp: plan)
  from this[of "Some a"] this[of None] show ?thesis using there unfolding a_def[symmetric] by auto
qed

end
