(* ===== verification/DataFile.thy ===== *)
theory DataFile
  imports Codec
begin

text \<open>
  Sweeping a data file: \<^verbatim>\<open>DataFileIterator\<close> (\<^verbatim>\<open>data_file.cppm\<close>), which frames raw records out of
  a file's bytes, and \<^verbatim>\<open>CommittedEntryIterator\<close> (\<^verbatim>\<open>batch_iterator.cppm\<close>), which yields only
  whole atomic batches. A file is its bytes up to \<^verbatim>\<open>size()\<close>. A sweep is lazy in the source; here
  it is the list of what it yields together with the exception that ends it, if any.
\<close>

datatype OnDamage = Throw | Stop

type_synonym item = "DataEntry \<times> nat \<times> nat"

abbreviation (input) item_entry :: "item \<Rightarrow> DataEntry" where "item_entry \<equiv> fst"
abbreviation (input) item_offset :: "item \<Rightarrow> nat" where "item_offset x \<equiv> fst (snd x)"
abbreviation (input) item_next :: "item \<Rightarrow> nat" where "item_next x \<equiv> snd (snd x)"

section \<open>The raw sweep\<close>

text \<open>
  One \<^verbatim>\<open>advance()\<close> at \<^term>\<open>off\<close>: \<^term>\<open>None\<close> when the sweep ends there, otherwise the entry and the
  offset past it.
\<close>

definition record_view :: "crc_fn \<Rightarrow> bytes \<Rightarrow> EntryHeader \<Rightarrow> bool \<Rightarrow> DataEntry result" where
  "record_view crc raw h verify =
    rbind (if verify then parse_header_and_verify crc raw else Inr h) (\<lambda>_. Inr (entry_of h raw))"

definition sweep_advance ::
  "crc_fn \<Rightarrow> OnDamage \<Rightarrow> bytes \<Rightarrow> nat \<Rightarrow> (DataEntry \<times> nat) option result" where
  "sweep_advance crc d file off =
    (if off + kHeaderSize > length file then Inr None
     else let h = read_header (take kHeaderSize (drop off file)) in
     if h_sequence h = 0 then Inr None
     else if \<not> is_known_entry_type (h_entry_type h) then
       (if d = Stop then Inr None else Inl (RuntimeError ''bytecask: unknown entry type''))
     else if malformed_change_marker h then
       (if d = Stop then Inr None else Inl (RuntimeError ''bytecask: malformed change marker''))
     else let total = header_record_bytes h in
     if off + total > length file then Inr None
     else let raw = take total (drop off file) in
     if d = Stop \<and> \<not> crc_matches crc raw then Inr None
     else rbind (record_view crc raw h (d = Throw)) (\<lambda>e. Inr (Some (e, off + total))))"

lemma sweep_advance_progress:
  "sweep_advance crc d file off = Inr (Some (e, n)) \<Longrightarrow> off < n \<and> n \<le> length file"
  by (auto simp: sweep_advance_def record_view_def Let_def header_record_bytes_def result_simps
      split: if_splits)

function sweep :: "crc_fn \<Rightarrow> OnDamage \<Rightarrow> bytes \<Rightarrow> nat \<Rightarrow> item list \<times> error option" where
  "sweep crc d file off =
    (case sweep_advance crc d file off of
       Inl err \<Rightarrow> ([], Some err)
     | Inr None \<Rightarrow> ([], None)
     | Inr (Some (e, n)) \<Rightarrow> (case sweep crc d file n of (xs, err) \<Rightarrow> ((e, off, n) # xs, err)))"
  by pat_completeness auto
termination
  by (relation "measure (\<lambda>(crc, d, file, off). length file - off)")
     (auto dest!: sweep_advance_progress)

declare sweep.simps [simp del]

section \<open>The committed sweep\<close>

text \<open>
  The inner loop of \<^verbatim>\<open>advance()\<close> after a \<^verbatim>\<open>BulkBegin\<close>: the batch up to its \<^verbatim>\<open>BulkEnd\<close> with the offset
  past it and what follows, or the end of the entries first, or a change marker inside.
\<close>

datatype batch_scan =
    BatchEof
  | BatchMarker
  | BatchDone "(DataEntry \<times> nat) list" nat "item list"

fun scan_batch :: "item list \<Rightarrow> (DataEntry \<times> nat) list \<Rightarrow> batch_scan" where
  "scan_batch [] acc = BatchEof"
| "scan_batch ((e, off, n) # xs) acc =
    (if e_type e = ChangeMarker then BatchMarker
     else if e_type e = BulkEnd then BatchDone (acc @ [(e, off)]) n xs
     else scan_batch xs (acc @ [(e, off)]))"

lemma scan_batch_shorter:
  "scan_batch xs acc = BatchDone b n rest \<Longrightarrow> length rest < length xs"
  by (induction xs acc rule: scan_batch.induct) (auto split: if_splits)

text \<open>
  What the committed iterator yields, its \<^verbatim>\<open>committed_offset()\<close> after exhaustion, and the exception
  that ended it. \<^term>\<open>err\<close> is the exception the raw sweep ends in.
\<close>

function committed ::
  "OnDamage \<Rightarrow> error option \<Rightarrow> item list \<Rightarrow> nat \<Rightarrow> (DataEntry \<times> nat) list \<times> nat \<times> error option"
where
  "committed d err [] off = ([], off, err)"
| "committed d err ((e, o1, n) # xs) off =
    (if e_type e = BulkBegin then
       (case scan_batch xs [(e, o1)] of
          BatchEof \<Rightarrow> ([], off, err)
        | BatchMarker \<Rightarrow> ([], off, if d = Stop then None
             else Some (RuntimeError ''bytecask: change marker inside an atomic batch''))
        | BatchDone b m rest \<Rightarrow>
            (case committed d err rest m of (ys, c, er) \<Rightarrow> (b @ ys, c, er)))
     else (case committed d err xs n of (ys, c, er) \<Rightarrow> ((e, o1) # ys, c, er)))"
  by pat_completeness auto
termination
  by (relation "measure (\<lambda>(d, err, xs, off). length xs)") (auto dest: scan_batch_shorter)

definition scan_committed ::
  "crc_fn \<Rightarrow> OnDamage \<Rightarrow> bytes \<Rightarrow> nat \<Rightarrow> (DataEntry \<times> nat) list \<times> nat \<times> error option" where
  "scan_committed crc d file start =
    (case sweep crc d file start of (xs, err) \<Rightarrow> committed d err xs 0)"

section \<open>Logs: entries written one after another\<close>

definition log_bytes :: "crc_fn \<Rightarrow> DataEntry list \<Rightarrow> bytes" where
  "log_bytes crc es = concat (map (entry_bytes crc) es)"

definition log_size :: "DataEntry list \<Rightarrow> nat" where
  "log_size es = sum_list (map record_bytes es)"

fun layout :: "nat \<Rightarrow> DataEntry list \<Rightarrow> item list" where
  "layout off [] = []"
| "layout off (e # es) = (e, off, off + record_bytes e) # layout (off + record_bytes e) es"

definition placed :: "nat \<Rightarrow> DataEntry list \<Rightarrow> (DataEntry \<times> nat) list" where
  "placed off es = map (\<lambda>(e, o1, n). (e, o1)) (layout off es)"

text \<open>What the write path appends: well formed, and never sequence 0.\<close>

definition writable :: "DataEntry \<Rightarrow> bool" where
  "writable e \<longleftrightarrow> entry_ok e \<and> 0 < e_sequence e"

text \<open>Bytes at which a sweep stops without an error.\<close>

definition tail_end :: "crc_fn \<Rightarrow> OnDamage \<Rightarrow> bytes \<Rightarrow> bool" where
  "tail_end crc d t \<longleftrightarrow> sweep_advance crc d t 0 = Inr None"

lemma log_bytes_simps [simp]:
  "log_bytes crc [] = []"
  "log_bytes crc (e # es) = entry_bytes crc e @ log_bytes crc es"
  "log_bytes crc (xs @ ys) = log_bytes crc xs @ log_bytes crc ys"
  by (simp_all add: log_bytes_def)

lemma log_size_simps [simp]:
  "log_size [] = 0"
  "log_size (e # es) = record_bytes e + log_size es"
  "log_size (xs @ ys) = log_size xs + log_size ys"
  by (simp_all add: log_size_def)

lemma length_log_bytes [simp]: "length (log_bytes crc es) = log_size es"
  by (induction es) simp_all

lemma layout_append: "layout off (xs @ ys) = layout off xs @ layout (off + log_size xs) ys"
  by (induction xs arbitrary: off) (simp_all add: add.assoc)

lemma placed_simps [simp]:
  "placed off [] = []"
  "placed off (e # es) = (e, off) # placed (off + record_bytes e) es"
  "placed off (xs @ ys) = placed off xs @ placed (off + log_size xs) ys"
  by (simp_all add: placed_def layout_append)

lemma record_bytes_ge: "19 \<le> record_bytes e"
  by (simp add: record_bytes_def)

lemma take_header [simp]: "take 15 (entry_bytes crc e) = header_bytes e"
  by (simp add: entry_bytes_def)

lemma record_bytes_minus [simp]: "15 - record_bytes e = 0"
  by (simp add: record_bytes_def)

lemma sweep_advance_entry:
  assumes "writable e"
  shows "sweep_advance crc d (pre @ entry_bytes crc e @ rest) (length pre)
    = Inr (Some (e, length pre + record_bytes e))"
proof -
  let ?h = "\<lparr>h_sequence = e_sequence e, h_entry_type = e_type e,
    h_key_size = length (e_key e), h_value_size = length (e_value e)\<rparr>"
  have ok: "entry_ok e" "0 < e_sequence e" using assms by (simp_all add: writable_def)
  have hdr: "read_header (header_bytes e) = ?h"
    using read_header_bytes[OF ok(1), of "[]"] by simp
  have total: "header_record_bytes ?h = record_bytes e"
    by (simp add: header_record_bytes_def record_bytes_def)
  have view: "record_view crc (entry_bytes crc e) ?h b = Inr e" for b
    using ok(1) entry_of_entry_bytes[of e crc "[]"] by (simp add: record_view_def parse_entry_bytes)
  show ?thesis
    using ok record_bytes_ge[of e] unfolding sweep_advance_def Let_def
    by (simp add: hdr total view malformed_change_marker_def entry_ok_def)
qed

lemma sweep_advance_shift:
  "sweep_advance crc d (pre @ t) (length pre) = Inr None \<longleftrightarrow> tail_end crc d t"
  by (auto simp: sweep_advance_def tail_end_def Let_def result_simps)

lemma sweep_tail: "tail_end crc d t \<Longrightarrow> sweep crc d (pre @ t) (length pre) = ([], None)"
  using sweep_advance_shift[of crc d pre t] by (subst sweep.simps) simp

text \<open>The sweep of a log is its entries, whatever it stops at.\<close>

lemma sweep_log:
  assumes "\<forall>e \<in> set es. writable e" and "tail_end crc d t"
  shows "sweep crc d (pre @ log_bytes crc es @ t) (length pre) = (layout (length pre) es, None)"
  using assms(1)
proof (induction es arbitrary: pre)
  case Nil
  then show ?case using assms(2) by (simp add: sweep_tail)
next
  case (Cons e es)
  have "sweep crc d ((pre @ entry_bytes crc e) @ log_bytes crc es @ t) (length (pre @ entry_bytes crc e))
    = (layout (length (pre @ entry_bytes crc e)) es, None)"
    using Cons by (intro Cons.IH) simp
  moreover have "sweep_advance crc d (pre @ entry_bytes crc e @ log_bytes crc es @ t) (length pre)
    = Inr (Some (e, length pre + record_bytes e))"
    using Cons.prems by (simp add: sweep_advance_entry)
  ultimately show ?case
    by (subst sweep.simps) simp
qed

subsection \<open>Where a sweep stops\<close>

lemma tail_end_short: "length t < kHeaderSize \<Longrightarrow> tail_end crc d t"
  by (simp add: tail_end_def sweep_advance_def)

lemma read_le_zeros: "read_le n (replicate m 0) off = 0" if "off + n \<le> m"
  using that by (induction n) (simp_all add: read_le_def)

lemma tail_end_zeros: "tail_end crc d (replicate n 0)"
proof (cases "n < 15")
  case False
  moreover have "h_sequence (read_header (replicate 15 0)) = 0"
    by (simp add: read_header_def read_le_zeros)
  ultimately show ?thesis
    by (simp add: tail_end_def sweep_advance_def min_def)
qed (simp add: tail_end_short)

lemma tail_end_torn:
  assumes "writable e" and "n < record_bytes e"
  shows "tail_end crc d (take n (entry_bytes crc e))"
proof (cases "n < 15")
  case False
  let ?h = "\<lparr>h_sequence = e_sequence e, h_entry_type = e_type e,
    h_key_size = length (e_key e), h_value_size = length (e_value e)\<rparr>"
  have ok: "entry_ok e" "0 < e_sequence e" using assms(1) by (simp_all add: writable_def)
  have "read_header (header_bytes e) = ?h"
    using read_header_bytes[OF ok(1), of "[]"] by simp
  moreover have "header_record_bytes ?h = record_bytes e"
    by (simp add: header_record_bytes_def record_bytes_def)
  ultimately show ?thesis
    using ok assms(2) False unfolding tail_end_def sweep_advance_def Let_def
    by (simp add: malformed_change_marker_def entry_ok_def min_def)
qed (simp add: tail_end_short)

section \<open>Units: what a log commits\<close>

text \<open>
  A unit is a standalone entry or a whole batch. An open batch is one whose \<^verbatim>\<open>BulkEnd\<close> was not
  written.
\<close>

definition batch_body :: "DataEntry list \<Rightarrow> bool" where
  "batch_body es \<longleftrightarrow> (\<forall>e \<in> set es. e_type e \<noteq> BulkEnd \<and> e_type e \<noteq> ChangeMarker)"

fun log_unit :: "DataEntry list \<Rightarrow> bool" where
  "log_unit [] = False"
| "log_unit [e] = (e_type e \<noteq> BulkBegin)"
| "log_unit (b # es) = (e_type b = BulkBegin \<and> e_type (last es) = BulkEnd \<and> batch_body (butlast es))"

fun open_batch :: "DataEntry list \<Rightarrow> bool" where
  "open_batch [] = True"
| "open_batch (b # es) = (e_type b = BulkBegin \<and> batch_body es)"

lemma log_unit_cases:
  assumes "log_unit u"
  obtains (single) e where "u = [e]" "e_type e \<noteq> BulkBegin"
  | (batch) b es en where "u = b # es @ [en]" "e_type b = BulkBegin" "e_type en = BulkEnd"
      "batch_body es"
  using assms
proof (cases u rule: log_unit.cases)
  case (3 b x xs)
  then have "u = b # butlast (x # xs) @ [last (x # xs)]" by simp
  with batch[OF this] 3 assms show thesis by (simp del: butlast.simps last.simps)
qed (use assms single in auto)

lemma scan_batch_body:
  "batch_body es \<Longrightarrow> scan_batch (layout off es @ rest) acc =
     scan_batch rest (acc @ placed off es)"
  by (induction es arbitrary: off acc) (auto simp: batch_body_def)

lemma committed_unit:
  assumes "log_unit u"
  shows "committed d err (layout off u @ rest) c =
    (case committed d err rest (off + log_size u) of (ys, c', er) \<Rightarrow> (placed off u @ ys, c', er))"
  using assms
proof (cases u rule: log_unit_cases)
  case (batch b es en)
  then show ?thesis
    by (simp add: layout_append scan_batch_body add.assoc)
qed (simp_all add: case_prod_unfold)

lemma committed_open:
  assumes "open_batch ob"
  shows "committed d err (layout off ob) c = ([], c, err)"
  using assms scan_batch_body[of "tl ob" _ "[]"] by (cases ob) simp_all

lemma committed_units:
  assumes "\<forall>u \<in> set us. log_unit u" and "open_batch ob"
  shows "committed d err (layout off (concat us @ ob)) off =
    (placed off (concat us), off + log_size (concat us), err)"
  using assms(1)
proof (induction us arbitrary: off)
  case Nil
  then show ?case using assms(2) by (simp add: committed_open)
next
  case (Cons u us)
  then show ?case
    using committed_unit[of u d err off "layout (off + log_size u) (concat us @ ob)" off]
      Cons.IH[of "off + log_size u"]
    by (simp add: layout_append add.assoc)
qed

lemma scan_committed_units:
  assumes "\<forall>u \<in> set us. log_unit u" and "open_batch ob"
    and "\<forall>e \<in> set (concat us @ ob). writable e" and "tail_end crc d t"
  shows "scan_committed crc d (log_bytes crc (concat us @ ob) @ t) 0 =
    (placed 0 (concat us), log_size (concat us), None)"
  using sweep_log[OF assms(3,4), of "[]"] committed_units[OF assms(1,2), of d None 0]
  by (simp add: scan_committed_def)

subsection \<open>A log cut anywhere\<close>

lemma take_log:
  assumes "\<forall>e \<in> set es. writable e" and "n < log_size es"
  obtains k t where "k < length es" "take n (log_bytes crc es) = log_bytes crc (take k es) @ t"
    "tail_end crc d t"
  using assms
proof (induction es arbitrary: n thesis)
  case (Cons e es)
  show ?case
  proof (cases "n < record_bytes e")
    case True
    then have "take n (log_bytes crc (e # es)) = log_bytes crc (take 0 (e # es)) @ take n (entry_bytes crc e)"
      by simp
    with Cons.prems(1)[of 0] tail_end_torn[of e n crc d] True Cons.prems(2) show ?thesis by simp
  next
    case False
    then have "n - record_bytes e < log_size es" using Cons.prems(3) by simp
    from Cons.IH[OF _ _ this] Cons.prems(2) obtain k t where "k < length es"
      "take (n - record_bytes e) (log_bytes crc es) = log_bytes crc (take k es) @ t" "tail_end crc d t"
      by auto
    with False Cons.prems(1)[of "Suc k" t] show ?thesis by simp
  qed
qed simp

text \<open>How many units lie wholly in the first \<^term>\<open>n\<close> bytes.\<close>

fun units_within :: "nat \<Rightarrow> DataEntry list list \<Rightarrow> nat" where
  "units_within n [] = 0"
| "units_within n (u # us) =
    (if log_size u \<le> n then Suc (units_within (n - log_size u) us) else 0)"

lemma open_batch_take:
  assumes "log_unit u" and "k < length u"
  shows "open_batch (take k u)"
  using assms
proof (cases u rule: log_unit_cases)
  case (batch b es en)
  with assms(2) show ?thesis
    by (cases k) (auto simp: batch_body_def dest: in_set_takeD)
qed simp

lemma take_units:
  assumes "\<forall>u \<in> set us. log_unit u" and "\<forall>e \<in> set (concat us). writable e"
  shows "\<exists>ob t. open_batch ob \<and> (\<forall>e \<in> set ob. writable e) \<and> tail_end crc d t \<and>
    take n (log_bytes crc (concat us)) =
      log_bytes crc (concat (take (units_within n us) us) @ ob) @ t"
  using assms
proof (induction us arbitrary: n)
  case Nil
  show ?case by (rule exI[of _ "[]"], rule exI[of _ "[]"]) (simp add: tail_end_short)
next
  case (Cons u us)
  show ?case
  proof (cases "log_size u \<le> n")
    case True
    with Cons show ?thesis by simp
  next
    case False
    then obtain k t where k: "k < length u"
      "take n (log_bytes crc u) = log_bytes crc (take k u) @ t" "tail_end crc d t"
      using take_log[of u n crc d] Cons.prems(2) by auto
    moreover have "open_batch (take k u)" using Cons.prems(1) k(1) by (simp add: open_batch_take)
    ultimately show ?thesis
      using False Cons.prems(2)
      by (intro exI[of _ "take k u"] exI[of _ t]) (auto dest: in_set_takeD)
  qed
qed

text \<open>
  C1. Crash atomicity of the log. A log of whole units cut at any byte, as a crash that persisted
  only a prefix leaves it, is swept without an error; the sweep yields exactly the entries of the
  units that lie wholly before the cut, at the offsets they were written at, and its committed
  offset is where the last of them ends. No part of a torn batch is ever yielded.
\<close>

theorem scan_committed_cut:
  assumes "\<forall>u \<in> set us. log_unit u" and "\<forall>e \<in> set (concat us). writable e"
  shows "scan_committed crc d (take n (log_bytes crc (concat us))) 0 =
    (let vs = concat (take (units_within n us) us) in (placed 0 vs, log_size vs, None))"
proof -
  let ?vs = "take (units_within n us) us"
  obtain ob t where t: "open_batch ob" "\<forall>e \<in> set ob. writable e" "tail_end crc d t"
    "take n (log_bytes crc (concat us)) = log_bytes crc (concat ?vs @ ob) @ t"
    using take_units[OF assms] by metis
  have "set (concat ?vs) \<subseteq> set (concat us)" by (auto dest: in_set_takeD)
  then have "\<forall>e \<in> set (concat ?vs @ ob). writable e" using assms(2) t(2) by auto
  moreover have "\<forall>u \<in> set ?vs. log_unit u" using assms(1) by (auto dest: in_set_takeD)
  ultimately show ?thesis
    using t by (simp only: scan_committed_units Let_def)
qed

definition demo_log :: "DataEntry list list" where
  "demo_log =
    [[\<lparr>e_sequence = 1, e_type = Put, e_key = [1], e_value = [7]\<rparr>],
     [\<lparr>e_sequence = 2, e_type = BulkBegin, e_key = [], e_value = []\<rparr>,
      \<lparr>e_sequence = 3, e_type = Delete, e_key = [1], e_value = []\<rparr>,
      \<lparr>e_sequence = 4, e_type = BulkEnd, e_key = [], e_value = []\<rparr>]]"

theorem scan_committed_cut_witness:
  "list_all log_unit demo_log \<and> list_all writable (concat demo_log) \<and>
   scan_committed toy_crc Throw (take 70 (log_bytes toy_crc (concat demo_log))) 0 =
     ([(\<lparr>e_sequence = 1, e_type = Put, e_key = [1], e_value = [7]\<rparr>, 0)], 21, None)"
proof -
  have u: "\<forall>u \<in> set demo_log. log_unit u"
    by (simp add: demo_log_def batch_body_def)
  have w: "\<forall>e \<in> set (concat demo_log). writable e"
    by (simp add: demo_log_def writable_def entry_ok_def)
  have "units_within 70 demo_log = 1"
    by (simp add: demo_log_def record_bytes_def)
  then show ?thesis
    using scan_committed_cut[OF u w, of toy_crc Throw 70] u w
    by (simp add: list_all_iff) (simp add: demo_log_def record_bytes_def Let_def)
qed

end
