(* ===== verification/Hint.thy ===== *)
theory Hint
  imports Codec
begin

text \<open>
  The entries of a hint file (\<^verbatim>\<open>hint_entry.cppm\<close>): the three encoders, the decoder, and the run of
  entries a frame holds. A scanner decodes a frame entry by entry, each call consuming what the
  last one left.
\<close>

record HintEntry =
  hn_sequence :: nat
  hn_type :: EntryType
  hn_file_offset :: nat
  hn_key :: bytes
  hn_value_size :: nat
  hn_end_key :: bytes
  hn_marker_id :: nat

abbreviation (input) kHintHeaderSize :: nat where
  "kHintHeaderSize \<equiv> 23"

definition hint_header :: "nat \<Rightarrow> EntryType \<Rightarrow> nat \<Rightarrow> nat \<Rightarrow> nat \<Rightarrow> bytes" where
  "hint_header sequ t off vs kl =
     write_le 8 sequ @ write_le 1 (unat (entry_type_byte t)) @ write_le 8 off @ write_le 4 vs @
     write_le 2 kl"

definition hint_serialize_entry ::
  "nat \<Rightarrow> EntryType \<Rightarrow> nat \<Rightarrow> nat \<Rightarrow> bytes \<Rightarrow> bytes result" where
  "hint_serialize_entry sequ t off vs k =
    rbind (narrow 16 (length k)) (\<lambda>kl. Inr (hint_header sequ t off vs kl @ k))"

definition serialize_range_del_entry :: "nat \<Rightarrow> nat \<Rightarrow> bytes \<Rightarrow> bytes \<Rightarrow> bytes result" where
  "serialize_range_del_entry sequ off sk ek =
    rbind (narrow 32 (length ek)) (\<lambda>vs.
    rbind (narrow 16 (length sk)) (\<lambda>kl.
    rbind (narrow 16 (length ek)) (\<lambda>el.
      Inr (hint_header sequ RangeDel off vs kl @ sk @ write_le 2 el @ ek))))"

definition serialize_change_marker_entry :: "nat \<Rightarrow> nat \<Rightarrow> nat \<Rightarrow> bytes" where
  "serialize_change_marker_entry sequ off mid =
     hint_header sequ ChangeMarker off kChangeMarkerIdBytes 0 @ write_le 8 mid"

definition hint_deserialize_entry :: "bytes \<Rightarrow> (HintEntry \<times> nat) result" where
  "hint_deserialize_entry buf =
    (if length buf < kHintHeaderSize
     then Inl (RuntimeError ''deserialize_entry (hint): truncated header'')
     else
       let t = entry_type_of (word_of_nat (read_le 1 buf 8)); vs = read_le 4 buf 17;
           kl = read_le 2 buf 21; total = kHintHeaderSize + kl;
           e = \<lparr>hn_sequence = read_le 8 buf 0, hn_type = t, hn_file_offset = read_le 8 buf 9,
                hn_key = take kl (drop kHintHeaderSize buf), hn_value_size = vs, hn_end_key = [],
                hn_marker_id = 0\<rparr>
       in if length buf < total
          then Inl (RuntimeError ''deserialize_entry (hint): truncated entry'')
          else if t = RangeDel then
            (if length buf < total + 2
             then Inl (RuntimeError ''deserialize_entry (hint): truncated RangeDel end_key_len'')
             else let el = read_le 2 buf total; total' = total + (2 + el) in
             if length buf < total'
             then Inl (RuntimeError ''deserialize_entry (hint): truncated RangeDel end_key'')
             else Inr (e\<lparr>hn_end_key := take el (drop (total + 2) buf)\<rparr>, total'))
          else if t = ChangeMarker then
            (if kl \<noteq> 0 \<or> vs \<noteq> kChangeMarkerIdBytes
             then Inl (RuntimeError ''deserialize_entry (hint): malformed ChangeMarker entry'')
             else if length buf < total + 8
             then Inl (RuntimeError ''deserialize_entry (hint): truncated ChangeMarker id'')
             else Inr (e\<lparr>hn_marker_id := read_le 8 buf total\<rparr>, total + 8))
          else Inr (e, total))"

text \<open>What a hint writer is given, by the shape \<^verbatim>\<open>flush_hints_for\<close> gives it.\<close>

definition hint_bytes :: "HintEntry \<Rightarrow> bytes result" where
  "hint_bytes h =
    (case hn_type h of
       RangeDel \<Rightarrow> serialize_range_del_entry (hn_sequence h) (hn_file_offset h) (hn_key h) (hn_end_key h)
     | ChangeMarker \<Rightarrow> Inr (serialize_change_marker_entry (hn_sequence h) (hn_file_offset h) (hn_marker_id h))
     | t \<Rightarrow> hint_serialize_entry (hn_sequence h) t (hn_file_offset h) (hn_value_size h) (hn_key h))"

text \<open>
  A scanner over one decoded frame: \<^verbatim>\<open>next()\<close> until the frame is consumed. Every entry takes at
  least a header, so the frame's length bounds the number of calls.
\<close>

function scan_frame :: "bytes \<Rightarrow> HintEntry list result" where
  "scan_frame buf =
    (if buf = [] then Inr []
     else case hint_deserialize_entry buf of
       Inl e \<Rightarrow> Inl e
     | Inr (h, n) \<Rightarrow> rbind (scan_frame (drop n buf)) (\<lambda>hs. Inr (h # hs)))"
  by pat_completeness auto
termination
  by (relation "measure length")
     (auto simp: hint_deserialize_entry_def Let_def split: if_splits)

declare scan_frame.simps [simp del]

section \<open>Round trip\<close>

text \<open>An entry the engine writes a hint for: its fields fit, and only its own type's are set.\<close>

definition hint_ok :: "HintEntry \<Rightarrow> bool" where
  "hint_ok h \<longleftrightarrow> hn_sequence h < 2 ^ 64 \<and> hn_file_offset h < 2 ^ 64 \<and> length (hn_key h) < 2 ^ 16 \<and>
     hn_value_size h < 2 ^ 32 \<and> length (hn_end_key h) < 2 ^ 16 \<and> hn_marker_id h < 2 ^ 64 \<and>
     is_known_entry_type (hn_type h) \<and>
     (hn_type h = RangeDel \<longrightarrow> hn_value_size h = length (hn_end_key h)) \<and>
     (hn_type h \<noteq> RangeDel \<longrightarrow> hn_end_key h = []) \<and>
     (hn_type h = ChangeMarker \<longrightarrow> hn_key h = [] \<and> hn_value_size h = kChangeMarkerIdBytes) \<and>
     (hn_type h \<noteq> ChangeMarker \<longrightarrow> hn_marker_id h = 0)"

lemma length_hint_header [simp]: "length (hint_header sequ t off vs kl) = 23"
  by (simp add: hint_header_def)

lemma read_le_at:
  assumes "length pre = off" and "v < 256 ^ n"
  shows "read_le n (pre @ write_le n v @ post) off = v"
  by (rule read_le_write_le[OF assms])

lemma read_hint_header:
  assumes "sequ < 2 ^ 64" "off < 2 ^ 64" "vs < 2 ^ 32" "kl < 2 ^ 16" "is_known_entry_type t"
  shows "read_le 8 (hint_header sequ t off vs kl @ rest) 0 = sequ"
    "entry_type_of (word_of_nat (read_le 1 (hint_header sequ t off vs kl @ rest) 8)) = t"
    "read_le 8 (hint_header sequ t off vs kl @ rest) 9 = off"
    "read_le 4 (hint_header sequ t off vs kl @ rest) 17 = vs"
    "read_le 2 (hint_header sequ t off vs kl @ rest) 21 = kl"
proof -
  let ?a = "write_le 8 sequ" and ?b = "write_le 1 (unat (entry_type_byte t))"
    and ?c = "write_le 8 off" and ?d = "write_le 4 vs" and ?e = "write_le 2 kl"
  show "read_le 8 (hint_header sequ t off vs kl @ rest) 0 = sequ"
    using read_le_at[of "[]" 0 sequ 8 "?b @ ?c @ ?d @ ?e @ rest"] assms by (simp add: hint_header_def)
  show "entry_type_of (word_of_nat (read_le 1 (hint_header sequ t off vs kl @ rest) 8)) = t"
    using read_le_at[of ?a 8 "unat (entry_type_byte t)" 1 "?c @ ?d @ ?e @ rest"]
      unat_byte_lt[of "entry_type_byte t"] assms(5)
    by (simp add: hint_header_def)
  show "read_le 8 (hint_header sequ t off vs kl @ rest) 9 = off"
    using read_le_at[of "?a @ ?b" 9 off 8 "?d @ ?e @ rest"] assms by (simp add: hint_header_def)
  show "read_le 4 (hint_header sequ t off vs kl @ rest) 17 = vs"
    using read_le_at[of "?a @ ?b @ ?c" 17 vs 4 "?e @ rest"] assms by (simp add: hint_header_def)
  show "read_le 2 (hint_header sequ t off vs kl @ rest) 21 = kl"
    using read_le_at[of "?a @ ?b @ ?c @ ?d" 21 kl 2 rest] assms by (simp add: hint_header_def)
qed

text \<open>Every entry is read back whole from the front of whatever follows it.\<close>

lemma hint_roundtrip:
  assumes "hint_ok h"
  shows "\<exists>b. hint_bytes h = Inr b \<and> b \<noteq> [] \<and>
    hint_deserialize_entry (b @ rest) = Inr (h, length b)"
proof -
  have f: "hn_sequence h < 2 ^ 64" "hn_file_offset h < 2 ^ 64" "hn_value_size h < 2 ^ 32"
    "length (hn_key h) < 2 ^ 16" "is_known_entry_type (hn_type h)"
    using assms by (simp_all add: hint_ok_def)
  let ?hd = "hint_header (hn_sequence h) (hn_type h) (hn_file_offset h) (hn_value_size h) (length (hn_key h))"
  note rd = read_hint_header[OF f(1,2,3,4,5)]
  have app: "(x @ y) @ z = x @ y @ z" for x y z :: bytes by simp
  consider "hn_type h = RangeDel" | "hn_type h = ChangeMarker"
    | "hn_type h \<noteq> RangeDel" "hn_type h \<noteq> ChangeMarker" by blast
  then show ?thesis
  proof cases
    case 1
    let ?b = "?hd @ hn_key h @ write_le 2 (length (hn_end_key h)) @ hn_end_key h"
    have el: "length (hn_end_key h) < 2 ^ 16" "hn_value_size h = length (hn_end_key h)" "hn_marker_id h = 0"
      using assms 1 by (simp_all add: hint_ok_def)
    have "hint_bytes h = Inr ?b"
      using 1 el f by (simp add: hint_bytes_def serialize_range_del_entry_def)
    moreover have "read_le 2 (?b @ rest) (23 + length (hn_key h)) = length (hn_end_key h)"
      using read_le_at[of "?hd @ hn_key h" "23 + length (hn_key h)" "length (hn_end_key h)" 2 "hn_end_key h @ rest"] el
      by simp
    then have "hint_deserialize_entry (?b @ rest) = Inr (h, length ?b)"
      unfolding hint_deserialize_entry_def Let_def app rd using 1 el by simp
    ultimately show ?thesis by (intro exI[of _ ?b]) (simp add: hint_header_def write_le_def)
  next
    case 2
    let ?b = "?hd @ write_le 8 (hn_marker_id h)"
    have k: "hn_key h = []" "hn_value_size h = 8" "hn_marker_id h < 2 ^ 64" "hn_end_key h = []"
      using assms 2 by (simp_all add: hint_ok_def)
    have "hint_bytes h = Inr ?b"
      using 2 k by (simp add: hint_bytes_def serialize_change_marker_entry_def)
    moreover have "read_le 8 (?b @ rest) 23 = hn_marker_id h"
      using read_le_at[of ?hd 23 "hn_marker_id h" 8 rest] k by simp
    then have "hint_deserialize_entry (?b @ rest) = Inr (h, length ?b)"
      unfolding hint_deserialize_entry_def Let_def app rd using 2 k by simp
    ultimately show ?thesis by (intro exI[of _ ?b]) (simp add: hint_header_def write_le_def)
  next
    case 3
    let ?b = "?hd @ hn_key h"
    have k: "hn_end_key h = []" "hn_marker_id h = 0"
      using assms 3 by (simp_all add: hint_ok_def)
    have "hint_bytes h = Inr ?b"
      using 3 f by (simp add: hint_bytes_def hint_serialize_entry_def split: EntryType.splits)
    moreover have "hint_deserialize_entry (?b @ rest) = Inr (h, length ?b)"
      unfolding hint_deserialize_entry_def Let_def app rd using 3 k by simp
    ultimately show ?thesis by (intro exI[of _ ?b]) (simp add: hint_header_def write_le_def)
  qed
qed

text \<open>
  C11. Hint entries round-trip: the entries a hint writer puts into a frame, one after another and
  of any types, are exactly what a scanner of that frame yields, each with the key, the range
  bound or the marker id it was written with, and the frame is consumed to its last byte.
\<close>

theorem scan_frame_roundtrip:
  assumes "\<forall>h \<in> set hs. hint_ok h"
  shows "\<exists>bs. rmap hint_bytes hs = Inr bs \<and> scan_frame (concat bs) = Inr hs"
  using assms
proof (induction hs)
  case Nil
  then show ?case by (simp add: scan_frame.simps)
next
  case (Cons h hs)
  then obtain bs where bs: "rmap hint_bytes hs = Inr bs" "scan_frame (concat bs) = Inr hs" by auto
  obtain b where b: "hint_bytes h = Inr b" "b \<noteq> []"
    "hint_deserialize_entry (b @ concat bs) = Inr (h, length b)"
    using hint_roundtrip[of h "concat bs"] Cons.prems by auto
  have "scan_frame (b @ concat bs) = Inr (h # hs)"
    using b bs(2) by (subst scan_frame.simps) simp
  then show ?case using b bs by simp
qed

definition demo_hints :: "HintEntry list" where
  "demo_hints =
    [\<lparr>hn_sequence = 4, hn_type = RangeDel, hn_file_offset = 30, hn_key = [1], hn_value_size = 2,
       hn_end_key = [9, 9], hn_marker_id = 0\<rparr>,
     \<lparr>hn_sequence = 5, hn_type = ChangeMarker, hn_file_offset = 60, hn_key = [], hn_value_size = 8,
       hn_end_key = [], hn_marker_id = 77\<rparr>,
     \<lparr>hn_sequence = 3, hn_type = Put, hn_file_offset = 0, hn_key = [2, 3], hn_value_size = 11,
       hn_end_key = [], hn_marker_id = 0\<rparr>]"

theorem scan_frame_roundtrip_witness:
  "list_all hint_ok demo_hints \<and>
   (\<exists>bs. rmap hint_bytes demo_hints = Inr bs \<and> scan_frame (concat bs) = Inr demo_hints)"
proof -
  have "\<forall>h \<in> set demo_hints. hint_ok h"
    by (simp add: demo_hints_def hint_ok_def)
  with scan_frame_roundtrip[OF this] show ?thesis by (simp add: list_all_iff)
qed

end
