(* ===== verification/Disk.thy ===== *)
theory Disk
  imports DataFile Hint
begin

text \<open>
  The files of the database directory and the writes to them (\<^verbatim>\<open>data_file.cppm\<close>). Effects are
  functions from a state to a result and a state: an exception keeps what was done before it.
  Every system call that can fail takes the next element of a script of faults, so a theorem about
  every script is a theorem about every pattern of I/O failures. A file remembers how many of its
  bytes the device is known to hold. A failed \<^verbatim>\<open>fdatasync\<close> taints the file: as on Linux, later
  ones then prove nothing until the file is rewritten.
\<close>

section \<open>Effects\<close>

type_synonym ('a, 's) io = "'s \<Rightarrow> 'a result \<times> 's"

definition io_ret :: "'a \<Rightarrow> ('a, 's) io" where
  "io_ret x s = (Inr x, s)"

definition io_throw :: "error \<Rightarrow> ('a, 's) io" where
  "io_throw e s = (Inl e, s)"

definition io_lift :: "'a result \<Rightarrow> ('a, 's) io" where
  "io_lift r s = (r, s)"

definition io_bind :: "('a, 's) io \<Rightarrow> ('a \<Rightarrow> ('b, 's) io) \<Rightarrow> ('b, 's) io" where
  "io_bind m f s = (case m s of (Inl e, s') \<Rightarrow> (Inl e, s') | (Inr x, s') \<Rightarrow> f x s')"

text \<open>\<^verbatim>\<open>try m catch (e) h\<close>\<close>

definition io_try :: "('a, 's) io \<Rightarrow> (error \<Rightarrow> ('a, 's) io) \<Rightarrow> ('a, 's) io" where
  "io_try m h s = (case m s of (Inl e, s') \<Rightarrow> h e s' | (Inr x, s') \<Rightarrow> (Inr x, s'))"

text \<open>A \<^verbatim>\<open>try\<close> block whose outcome the code after it branches on.\<close>

definition io_attempt :: "('a, 's) io \<Rightarrow> ('a result, 's) io" where
  "io_attempt m s = (case m s of (r, s') \<Rightarrow> (Inr r, s'))"

definition io_get :: "('s \<Rightarrow> 'a) \<Rightarrow> ('a, 's) io" where
  "io_get f s = (Inr (f s), s)"

definition io_modify :: "('s \<Rightarrow> 's) \<Rightarrow> (unit, 's) io" where
  "io_modify f s = (Inr (), f s)"

fun io_each :: "('a \<Rightarrow> (unit, 's) io) \<Rightarrow> 'a list \<Rightarrow> (unit, 's) io" where
  "io_each f [] = io_ret ()"
| "io_each f (x # xs) = io_bind (f x) (\<lambda>_. io_each f xs)"

named_theorems io_simps \<open>running effects\<close>

lemma io_run [io_simps]:
  "io_ret x s = (Inr x, s)"
  "io_throw e s = (Inl e, s)"
  "io_lift r s = (r, s)"
  "io_get f s = (Inr (f s), s)"
  "io_modify g s = (Inr (), g s)"
  by (simp_all add: io_ret_def io_throw_def io_lift_def io_get_def io_modify_def)

lemma io_bind_run [io_simps]:
  "m s = (Inr x, s') \<Longrightarrow> io_bind m f s = f x s'"
  "m s = (Inl e, s') \<Longrightarrow> io_bind m f s = (Inl e, s')"
  by (simp_all add: io_bind_def)

lemma io_try_run [io_simps]:
  "m s = (Inr x, s') \<Longrightarrow> io_try m h s = (Inr x, s')"
  "m s = (Inl e, s') \<Longrightarrow> io_try m h s = h e s'"
  by (simp_all add: io_try_def)

section \<open>The directory\<close>

datatype fault = NoFault | Fault error nat

record disk_file =
  f_bytes :: bytes
  f_size :: nat
  f_zeroed :: nat
  f_capacity :: nat
  f_synced :: nat
  f_tainted :: bool

record disk =
  dir :: "(string \<times> disk_file) list"
  hints :: "(string \<times> HintEntry list) list"
  faults :: "fault list"
  stem_at :: "nat \<Rightarrow> string"
  minted :: nat

definition next_fault :: "(fault, 'a disk_scheme) io" where
  "next_fault s = (case faults s of [] \<Rightarrow> (Inr NoFault, s) | f # fs \<Rightarrow> (Inr f, s\<lparr>faults := fs\<rparr>))"

text \<open>A call that can only succeed or fail.\<close>

definition io_point :: "(unit, 'a disk_scheme) io" where
  "io_point = io_bind next_fault (\<lambda>f. case f of NoFault \<Rightarrow> io_ret () | Fault e n \<Rightarrow> io_throw e)"

definition file_at :: "string \<Rightarrow> 'a disk_scheme \<Rightarrow> disk_file" where
  "file_at p s = (case map_of (dir s) p of Some f \<Rightarrow> f
     | None \<Rightarrow> \<lparr>f_bytes = [], f_size = 0, f_zeroed = 0, f_capacity = 0, f_synced = 0, f_tainted = False\<rparr>)"

definition set_file :: "string \<Rightarrow> disk_file \<Rightarrow> 'a disk_scheme \<Rightarrow> 'a disk_scheme" where
  "set_file p f s = s\<lparr>dir := AList.update p f (dir s)\<rparr>"

definition update_file :: "string \<Rightarrow> (disk_file \<Rightarrow> disk_file) \<Rightarrow> (unit, 'a disk_scheme) io" where
  "update_file p g = io_modify (\<lambda>s. set_file p (g (file_at p s)) s)"

section \<open>Writing\<close>

text \<open>\<^verbatim>\<open>pwrite\<close>: past the end the gap reads as zeros.\<close>

definition pwrite :: "bytes \<Rightarrow> nat \<Rightarrow> bytes \<Rightarrow> bytes" where
  "pwrite bs off d = take off (bs @ replicate (off - length bs) 0) @ d @ drop (off + length d) bs"

abbreviation (input) kZeroFillChunkBytes :: nat where "kZeroFillChunkBytes \<equiv> 4 * 1024 * 1024"
abbreviation (input) kInlineValueBytes :: nat where "kInlineValueBytes \<equiv> 4096"
abbreviation (input) kMaxEntriesPerWritev :: nat where "kMaxEntriesPerWritev \<equiv> 256"
abbreviation (input) kMaxBytesPerWritev :: nat where "kMaxBytesPerWritev \<equiv> 2 ^ 30"

definition zero_target :: "disk_file \<Rightarrow> nat \<Rightarrow> nat" where
  "zero_target f write_end =
    (let chunk_end = (write_end + kZeroFillChunkBytes - 1) div kZeroFillChunkBytes * kZeroFillChunkBytes
     in max write_end (min chunk_end (f_capacity f)))"

definition ensure_zeroed :: "string \<Rightarrow> nat \<Rightarrow> (unit, 'a disk_scheme) io" where
  "ensure_zeroed p write_end =
    io_bind (io_get (file_at p)) (\<lambda>f.
    if f_capacity f = 0 \<or> write_end \<le> f_zeroed f then io_ret ()
    else let target = zero_target f write_end; zeros = replicate (target - f_zeroed f) 0 in
    io_bind next_fault (\<lambda>flt. case flt of
        Fault e n \<Rightarrow>
          io_bind (update_file p (\<lambda>f. f\<lparr>f_bytes := pwrite (f_bytes f) (f_zeroed f) (take n zeros)\<rparr>))
            (\<lambda>_. io_throw e)
      | NoFault \<Rightarrow>
          update_file p (\<lambda>f. f\<lparr>f_bytes := pwrite (f_bytes f) (f_zeroed f) zeros, f_zeroed := target\<rparr>)))"

definition serialize :: "crc_fn \<Rightarrow> DataEntry \<Rightarrow> bytes result" where
  "serialize crc e = serialize_entry crc (e_sequence e) (e_type e) (e_key e) (e_value e)"

text \<open>
  One \<^verbatim>\<open>pwritev\<close> of the entries of a chunk at the logical end, which moves over them only when the
  whole write succeeded.
\<close>

definition append_chunk :: "crc_fn \<Rightarrow> string \<Rightarrow> DataEntry list \<Rightarrow> (unit, 'a disk_scheme) io" where
  "append_chunk crc p es =
    io_bind (io_lift (rmap (serialize crc) es)) (\<lambda>bufs.
    let data = concat bufs; total = sum_list (map record_bytes es) in
    io_bind (io_get (\<lambda>s. f_size (file_at p s))) (\<lambda>start.
    io_bind (ensure_zeroed p (start + total)) (\<lambda>_.
    io_bind next_fault (\<lambda>flt. case flt of
        Fault e n \<Rightarrow>
          io_bind (update_file p (\<lambda>f. f\<lparr>f_bytes := pwrite (f_bytes f) start (take n data)\<rparr>))
            (\<lambda>_. io_throw e)
      | NoFault \<Rightarrow>
          update_file p (\<lambda>f. f\<lparr>f_bytes := pwrite (f_bytes f) start data, f_size := start + total\<rparr>)))))"

definition inline_bytes :: "DataEntry \<Rightarrow> nat" where
  "inline_bytes e = (if length (e_value e) \<le> kInlineValueBytes then record_bytes e
     else record_bytes e - length (e_value e))"

text \<open>How many entries the next chunk takes: always one, then up to the limits.\<close>

fun chunk_len :: "nat \<Rightarrow> nat \<Rightarrow> nat \<Rightarrow> nat \<Rightarrow> DataEntry list \<Rightarrow> nat" where
  "chunk_len scratch n chunk_bytes chunk_inline [] = n"
| "chunk_len scratch n chunk_bytes chunk_inline (e # es) =
    (if \<not> n < kMaxEntriesPerWritev then n
     else let chunk_bytes' = chunk_bytes + record_bytes e; next_inline = chunk_inline + inline_bytes e in
     if n > 0 \<and> (chunk_bytes' > kMaxBytesPerWritev \<or> next_inline > scratch) then n
     else chunk_len scratch (n + 1) chunk_bytes' next_inline es)"

lemma chunk_len_ge: "n \<le> chunk_len scratch n cb ci es"
proof (induction es arbitrary: n cb ci)
  case (Cons e es)
  show ?case using Suc_leD[OF Cons[of "Suc n"]] by (simp add: Let_def)
qed simp

lemma chunk_len_pos: "es \<noteq> [] \<Longrightarrow> 0 < chunk_len scratch 0 cb ci es"
  using chunk_len_ge[of 1] by (cases es) (auto simp: Let_def less_le_trans[OF zero_less_one])

function append_entries :: "crc_fn \<Rightarrow> nat \<Rightarrow> string \<Rightarrow> DataEntry list \<Rightarrow> (unit, 'a disk_scheme) io" where
  "append_entries crc scratch p es =
    (if es = [] then io_ret ()
     else let n = chunk_len scratch 0 0 0 es in
       io_bind (append_chunk crc p (take n es)) (\<lambda>_. append_entries crc scratch p (drop n es)))"
  by pat_completeness auto
termination
  by (relation "measure (\<lambda>(crc, scratch, p, es). length es)") (auto simp: chunk_len_pos)

declare append_entries.simps [simp del]

definition append_entry :: "crc_fn \<Rightarrow> string \<Rightarrow> DataEntry \<Rightarrow> (nat, 'a disk_scheme) io" where
  "append_entry crc p e =
    io_bind (io_get (\<lambda>s. f_size (file_at p s))) (\<lambda>off.
    io_bind (append_chunk crc p [e]) (\<lambda>_. io_ret off))"

definition sync_file :: "string \<Rightarrow> (unit, 'a disk_scheme) io" where
  "sync_file p =
    io_bind next_fault (\<lambda>flt. case flt of
        Fault e n \<Rightarrow> io_bind (update_file p (\<lambda>f. f\<lparr>f_tainted := True\<rparr>)) (\<lambda>_. io_throw e)
      | NoFault \<Rightarrow> update_file p (\<lambda>f. if f_tainted f then f else f\<lparr>f_synced := length (f_bytes f)\<rparr>))"

definition truncate_file :: "string \<Rightarrow> nat \<Rightarrow> (unit, 'a disk_scheme) io" where
  "truncate_file p new_size =
    io_bind (update_file p (\<lambda>f. f\<lparr>f_size := new_size, f_zeroed := new_size\<rparr>)) (\<lambda>_.
    io_bind next_fault (\<lambda>flt.
      let cut = update_file p (\<lambda>f. f\<lparr>f_bytes := take new_size (f_bytes f),
                  f_synced := min (f_synced f) new_size\<rparr>) in
      case flt of
        Fault e n \<Rightarrow> if n = 0 then io_throw e else io_bind cut (\<lambda>_. io_throw e)
      | NoFault \<Rightarrow> cut))"

definition shrink_to_fit :: "string \<Rightarrow> (unit, 'a disk_scheme) io" where
  "shrink_to_fit p =
    io_bind io_point (\<lambda>_.
    io_bind (update_file p (\<lambda>f. f\<lparr>f_bytes := take (f_size f) (f_bytes f),
               f_synced := min (f_synced f) (f_size f)\<rparr>)) (\<lambda>_.
    io_bind (sync_file p) (\<lambda>_.
      update_file p (\<lambda>f. f\<lparr>f_zeroed := f_size f\<rparr>))))"

definition rewrite_durably :: "string \<Rightarrow> nat \<Rightarrow> (unit, 'a disk_scheme) io" where
  "rewrite_durably p en =
    io_bind next_fault (\<lambda>flt. case flt of
        Fault e n \<Rightarrow> io_bind (update_file p (\<lambda>f. f\<lparr>f_tainted := True\<rparr>)) (\<lambda>_. io_throw e)
      | NoFault \<Rightarrow> update_file p (\<lambda>f. f\<lparr>f_synced := max (f_synced f) (min en (length (f_bytes f))),
          f_tainted := f_tainted f \<and> en < length (f_bytes f)\<rparr>))"

definition sync_directory :: "(unit, 'a disk_scheme) io" where
  "sync_directory = io_point"

text \<open>
  The stem generator is the clock: the stem it mints at each call. Creating a file on a stem in use
  is a panic.
\<close>

definition make_data_file_stem :: "(string, 'a disk_scheme) io" where
  "make_data_file_stem s = (Inr (stem_at s (minted s)), s\<lparr>minted := Suc (minted s)\<rparr>)"

definition createDataFileForWrite :: "string \<Rightarrow> string \<Rightarrow> nat \<Rightarrow> (string, 'a disk_scheme) io" where
  "createDataFileForWrite stem sfx cap =
    (let p = stem @ sfx in
     io_bind (io_get id) (\<lambda>s.
     if map_of (hints s) stem \<noteq> None then io_throw (Panic ''data file stem is already sealed'')
     else if map_of (dir s) p \<noteq> None then io_throw (Panic ''data file already exists'')
     else
       io_bind io_point (\<lambda>_.
       io_bind (io_modify (set_file p \<lparr>f_bytes = [], f_size = 0, f_zeroed = 0, f_capacity = cap,
                             f_synced = 0, f_tainted = False\<rparr>)) (\<lambda>_.
       io_bind (if cap > 0 then ensure_zeroed p 1 else io_ret ()) (\<lambda>_.
         io_ret p)))))"

text \<open>Opening a sealed file: reads of it are bounded by the size it has then.\<close>

definition openDataFileForRead :: "string \<Rightarrow> (string, 'a disk_scheme) io" where
  "openDataFileForRead p =
    io_bind io_point (\<lambda>_. io_ret p)"

definition renameDataFileExclusive :: "string \<Rightarrow> string \<Rightarrow> (unit, 'a disk_scheme) io" where
  "renameDataFileExclusive frm to =
    io_bind (io_get id) (\<lambda>s.
    if map_of (dir s) to \<noteq> None then io_throw (Panic ''data file already exists'')
    else io_bind io_point (\<lambda>_.
      io_modify (\<lambda>s. s\<lparr>dir := AList.update to (file_at frm s) (AList.delete frm (dir s))\<rparr>)))"

definition remove_file :: "string \<Rightarrow> (unit, 'a disk_scheme) io" where
  "remove_file p = io_bind io_point (\<lambda>_. io_modify (\<lambda>s. s\<lparr>dir := AList.delete p (dir s)\<rparr>))"

definition remove_hint :: "string \<Rightarrow> (unit, 'a disk_scheme) io" where
  "remove_hint stem = io_bind io_point (\<lambda>_. io_modify (\<lambda>s. s\<lparr>hints := AList.delete stem (hints s)\<rparr>))"

section \<open>What a write leaves\<close>

text \<open>
  A file the engine can append to, and a file that grew out of another one: what lay below the
  logical end is still there.
\<close>

definition file_wf :: "disk_file \<Rightarrow> bool" where
  "file_wf f \<longleftrightarrow> f_size f \<le> length (f_bytes f) \<and> (f_capacity f = 0 \<or> f_size f \<le> f_zeroed f) \<and>
     f_synced f \<le> length (f_bytes f)"

definition file_grows :: "disk_file \<Rightarrow> disk_file \<Rightarrow> bool" where
  "file_grows f f' \<longleftrightarrow> f_size f \<le> f_size f' \<and> take (f_size f) (f_bytes f') = take (f_size f) (f_bytes f) \<and>
     f_synced f' = f_synced f \<and> f_tainted f' = f_tainted f \<and> f_capacity f' = f_capacity f"

definition logged :: "disk_file \<Rightarrow> bytes" where
  "logged f = take (f_size f) (f_bytes f)"

text \<open>Only one file and the fault script differ.\<close>

definition touches :: "string \<Rightarrow> 'a disk_scheme \<Rightarrow> 'a disk_scheme \<Rightarrow> bool" where
  "touches p s s' \<longleftrightarrow> (\<exists>d fs. s' = s\<lparr>dir := d, faults := fs\<rparr> \<and> (\<forall>q. q \<noteq> p \<longrightarrow> map_of d q = map_of (dir s) q))"

lemma touches_refl [simp]: "touches p s s"
  unfolding touches_def by (rule exI[of _ "dir s"], rule exI[of _ "faults s"]) simp

lemma touches_trans: "touches p a b \<Longrightarrow> touches p b c \<Longrightarrow> touches p a c"
  unfolding touches_def by force

lemma touches_faults [simp]: "touches p s (s\<lparr>faults := fs\<rparr>)"
  unfolding touches_def by (rule exI[of _ "dir s"], rule exI[of _ fs]) simp

lemma touches_set_file [simp]: "touches p s (set_file p f s)"
  unfolding touches_def set_file_def
  by (rule exI[of _ "AList.update p f (dir s)"], rule exI[of _ "faults s"]) (simp add: update_conv')

lemma touches_other: "touches p s s' \<Longrightarrow> q \<noteq> p \<Longrightarrow> file_at q s' = file_at q s"
  by (auto simp: touches_def file_at_def)

lemma file_at_set_file [simp]: "file_at p (set_file q f s) = (if p = q then f else file_at p s)"
  by (simp add: file_at_def set_file_def update_conv')

lemma file_at_faults [simp]: "file_at p (s\<lparr>faults := fs\<rparr>) = file_at p s"
  by (simp add: file_at_def)

lemma file_grows_refl [simp]: "file_grows f f"
  by (simp add: file_grows_def)

lemma file_grows_trans: "file_grows a b \<Longrightarrow> file_grows b c \<Longrightarrow> file_grows a c"
  by (simp add: file_grows_def) (metis min.absorb1 take_take)

lemma next_fault_run:
  obtains flt fs where "next_fault s = (Inr flt, s\<lparr>faults := fs\<rparr>)"
proof (cases "faults s")
  case Nil
  then have "next_fault s = (Inr NoFault, s\<lparr>faults := faults s\<rparr>)" by (simp add: next_fault_def)
  with that show thesis .
next
  case (Cons f fs)
  then have "next_fault s = (Inr f, s\<lparr>faults := fs\<rparr>)" by (simp add: next_fault_def)
  with that show thesis .
qed

lemma length_pwrite [simp]: "length (pwrite bs off d) = max (length bs) (off + length d)"
  by (auto simp: pwrite_def)

lemma take_pwrite_below: "n \<le> off \<Longrightarrow> n \<le> length bs \<Longrightarrow> take n (pwrite bs off d) = take n bs"
  by (simp add: pwrite_def)

lemma take_pwrite: "off \<le> length bs \<Longrightarrow> take (off + length d) (pwrite bs off d) = take off bs @ d"
  by (simp add: pwrite_def)

lemma update_file_run [io_simps]: "update_file p g s = (Inr (), set_file p (g (file_at p s)) s)"
  by (simp add: update_file_def io_run)

lemma ensure_zeroed_post:
  assumes "ensure_zeroed p w s = (r, s')" and "file_wf (file_at p s)"
  shows "touches p s s' \<and> file_wf (file_at p s') \<and> file_grows (file_at p s) (file_at p s') \<and>
    f_size (file_at p s') = f_size (file_at p s) \<and>
    (r = Inr () \<longrightarrow> f_capacity (file_at p s) = 0 \<or> w \<le> f_zeroed (file_at p s'))"
proof -
  let ?f = "file_at p s"
  obtain flt fs where nf: "next_fault s = (Inr flt, s\<lparr>faults := fs\<rparr>)" by (rule next_fault_run)
  show ?thesis
  proof (cases "f_capacity ?f = 0 \<or> w \<le> f_zeroed ?f")
    case True
    then show ?thesis using assms by (auto simp: ensure_zeroed_def io_run io_bind_def)
  next
    case False
    let ?z = "replicate (zero_target ?f w - f_zeroed ?f) (0 :: byte)"
    have cap: "f_size ?f \<le> f_zeroed ?f" using assms(2) False by (simp add: file_wf_def)
    have tgt: "w \<le> zero_target ?f w" by (simp add: zero_target_def Let_def)
    have tk: "take (f_size ?f) (pwrite (f_bytes ?f) (f_zeroed ?f) d) = take (f_size ?f) (f_bytes ?f)" for d
      using assms(2) cap by (simp add: take_pwrite_below file_wf_def)
    show ?thesis
    proof (cases flt)
      case NoFault
      then have s': "s' = set_file p (?f\<lparr>f_bytes := pwrite (f_bytes ?f) (f_zeroed ?f) ?z,
          f_zeroed := zero_target ?f w\<rparr>) (s\<lparr>faults := fs\<rparr>)"
        using assms(1) False nf by (simp add: ensure_zeroed_def io_run io_bind_def update_file_run Let_def)
      show ?thesis
        using assms(2) False cap tgt tk touches_trans[OF touches_faults touches_set_file]
        by (auto simp: s' file_wf_def file_grows_def)
    next
      case (Fault e n)
      then have s': "s' = set_file p (?f\<lparr>f_bytes := pwrite (f_bytes ?f) (f_zeroed ?f) (take n ?z)\<rparr>)
          (s\<lparr>faults := fs\<rparr>)" and r: "r = Inl e"
        using assms(1) False nf by (auto simp: ensure_zeroed_def io_run io_bind_def update_file_run Let_def)
      show ?thesis
        using assms(2) False cap tk touches_trans[OF touches_faults touches_set_file]
        by (auto simp: s' r file_wf_def file_grows_def)
    qed
  qed
qed

lemma rmap_serialize:
  assumes "crc_law crc" and "rmap (serialize crc) es = Inr bufs"
  shows "concat bufs = log_bytes crc es"
  using assms(2)
proof (induction es arbitrary: bufs)
  case (Cons e es)
  then obtain b bs where b: "serialize crc e = Inr b" "rmap (serialize crc) es = Inr bs" "bufs = b # bs"
    by (auto simp: result_simps)
  have "\<not> (2 ^ 16 \<le> length (e_key e) \<or> 2 ^ 32 \<le> length (e_value e))"
    using serialize_entry_too_long b(1) unfolding serialize_def by fastforce
  then have "b = entry_bytes crc e"
    using serialize_entry_bytes[OF assms(1), of e] b(1) unfolding serialize_def by simp
  with Cons.IH[OF b(2)] b(3) show ?case by simp
qed simp

text \<open>
  What an append leaves: on success the whole log of the entries after the old end; on failure the
  log of the chunks that went out whole, with the rest past the logical end.
\<close>

definition append_post :: "crc_fn \<Rightarrow> DataEntry list \<Rightarrow> nat \<Rightarrow> disk_file \<Rightarrow> disk_file \<Rightarrow> bool" where
  "append_post crc es k f f' \<longleftrightarrow> file_wf f' \<and> file_grows f f' \<and>
     f_size f' = f_size f + log_size (take k es) \<and> logged f' = logged f @ log_bytes crc (take k es)"

lemma append_chunk_post:
  assumes run: "append_chunk crc p es s = (r, s')" and wf: "file_wf (file_at p s)" and crc: "crc_law crc"
  shows "touches p s s' \<and> append_post crc es (if r = Inr () then length es else 0) (file_at p s) (file_at p s')"
proof -
  let ?f = "file_at p s" and ?total = "sum_list (map record_bytes es)"
  have size: "?total = log_size es" by (simp add: log_size_def)
  have grow0: "append_post crc es 0 ?f g" if "file_wf g" "file_grows ?f g" "f_size g = f_size ?f" for g
    using that by (simp add: append_post_def file_grows_def logged_def)
  show ?thesis
  proof (cases "rmap (serialize crc) es")
    case (Inl e)
    then have "r = Inl e" "s' = s" using run by (simp_all add: append_chunk_def io_bind_def io_run)
    then show ?thesis using grow0[of ?f] wf by simp
  next
    case (Inr bufs)
    note data = rmap_serialize[OF crc Inr]
    obtain r1 s1 where z: "ensure_zeroed p (f_size ?f + ?total) s = (r1, s1)" by fastforce
    let ?g = "file_at p s1"
    have zp: "touches p s s1" "file_wf ?g" "file_grows ?f ?g" "f_size ?g = f_size ?f"
      "r1 = Inr () \<Longrightarrow> f_capacity ?f = 0 \<or> f_size ?f + ?total \<le> f_zeroed ?g"
      using ensure_zeroed_post[OF z wf] by auto
    show ?thesis
    proof (cases r1)
      case (Inl e)
      then have "r = Inl e" "s' = s1"
        using run z Inr by (simp_all add: append_chunk_def io_bind_def io_run Let_def)
      then show ?thesis using zp grow0 by simp
    next
      case r1: (Inr u)
      obtain flt fs where nf: "next_fault s1 = (Inr flt, s1\<lparr>faults := fs\<rparr>)" by (rule next_fault_run)
      have le: "f_size ?f \<le> length (f_bytes ?g)" using zp(2,4) by (simp add: file_wf_def)
      have low: "take (f_size ?f) (pwrite (f_bytes ?g) (f_size ?f) d) = take (f_size ?f) (f_bytes ?f)" for d
        using le zp(3) by (simp add: take_pwrite_below file_grows_def)
      show ?thesis
      proof (cases flt)
        case NoFault
        let ?g' = "?g\<lparr>f_bytes := pwrite (f_bytes ?g) (f_size ?f) (log_bytes crc es),
            f_size := f_size ?f + log_size es\<rparr>"
        have s': "s' = set_file p ?g' (s1\<lparr>faults := fs\<rparr>)" and r: "r = Inr ()"
          using run z Inr r1 nf NoFault data size
          by (simp_all add: append_chunk_def io_bind_def io_run Let_def update_file_run)
        have "logged ?g' = logged ?f @ log_bytes crc es"
          using take_pwrite[OF le, of "log_bytes crc es"] zp(3) by (simp add: logged_def file_grows_def)
        then have "append_post crc es (length es) ?f ?g'"
          using zp low r1 size by (auto simp: append_post_def file_wf_def file_grows_def)
        then show ?thesis
          using touches_trans[OF zp(1) touches_trans[OF touches_faults touches_set_file]]
          by (simp add: s' r)
      next
        case (Fault e n)
        let ?g' = "?g\<lparr>f_bytes := pwrite (f_bytes ?g) (f_size ?f) (take n (log_bytes crc es))\<rparr>"
        have s': "s' = set_file p ?g' (s1\<lparr>faults := fs\<rparr>)" and r: "r = Inl e"
          using run z Inr r1 nf Fault data size
          by (simp_all add: append_chunk_def io_bind_def io_run Let_def update_file_run)
        have "append_post crc es 0 ?f ?g'"
          using zp low by (intro grow0) (auto simp: file_wf_def file_grows_def)
        then show ?thesis
          using touches_trans[OF zp(1) touches_trans[OF touches_faults touches_set_file]]
          by (simp add: s' r)
      qed
    qed
  qed
qed

lemma append_entries_post:
  assumes "append_entries crc scratch p es s = (r, s')" and "file_wf (file_at p s)" and "crc_law crc"
  shows "touches p s s' \<and> (\<exists>k. append_post crc es k (file_at p s) (file_at p s') \<and> (r = Inr () \<longrightarrow> k = length es))"
  using assms(1,2)
proof (induction "length es" arbitrary: es s rule: less_induct)
  case less
  let ?n = "chunk_len scratch 0 0 0 es"
  show ?case
  proof (cases "es = []")
    case True
    then have "r = Inr ()" "s' = s"
      using less.prems(1) by (simp_all add: append_entries.simps io_run)
    then show ?thesis using True less.prems(2) by (auto simp: append_post_def intro!: exI[of _ 0])
  next
    case False
    obtain r1 s1 where c: "append_chunk crc p (take ?n es) s = (r1, s1)" by fastforce
    note post = append_chunk_post[OF c less.prems(2) assms(3)]
    show ?thesis
    proof (cases r1)
      case (Inl e)
      then have "r = Inl e" "s' = s1"
        using less.prems(1) False c by (simp_all add: append_entries.simps io_bind_def Let_def)
      then show ?thesis using post Inl by (auto simp: append_post_def intro!: exI[of _ 0])
    next
      case (Inr u)
      then have rest: "append_entries crc scratch p (drop ?n es) s1 = (r, s')"
        using less.prems(1) False c
        by (subst (asm) append_entries.simps) (simp add: io_bind_def Let_def)
      have p1: "append_post crc (take ?n es) (length (take ?n es)) (file_at p s) (file_at p s1)" "touches p s s1"
        using post Inr by simp_all
      have "length (drop ?n es) < length es" using chunk_len_pos[OF False] False by simp
      from less.hyps[OF this rest] p1 obtain k where
        t: "touches p s1 s'" and k: "append_post crc (drop ?n es) k (file_at p s1) (file_at p s')"
          "r = Inr () \<Longrightarrow> k = length (drop ?n es)"
        by (auto simp: append_post_def)
      have tk: "take (?n + k) es = take ?n es @ take k (drop ?n es)" by (rule take_add)
      have "append_post crc es (min ?n (length es) + k) (file_at p s) (file_at p s')"
      proof (cases "?n \<le> length es")
        case True
        then show ?thesis
          using p1(1) k(1) file_grows_trans
          by (auto simp: append_post_def tk add.assoc)
      next
        case False
        then show ?thesis
          using p1(1) k(1) file_grows_trans by (auto simp: append_post_def)
      qed
      moreover have "min ?n (length es) + k = length es" if "r = Inr ()" using k(2)[OF that] by simp
      ultimately show ?thesis using touches_trans[OF p1(2) t] by blast
    qed
  qed
qed

end
