(* ===== verification/Db.thy ===== *)
theory Db
  imports Disk StateInv
begin

text \<open>
  The members of \<^verbatim>\<open>DB\<close> and the publication of states: \<^verbatim>\<open>db_state.cpp\<close>, and the refusal and degrade
  paths of \<^verbatim>\<open>bytecask.cppm\<close>, \<^verbatim>\<open>db_degraded.cpp\<close> and \<^verbatim>\<open>db_commit.cpp\<close>. Counters, the wake-ups of waiting
  threads and the read caches' scraping change no result and are left out. Where the source can run
  out of memory while it publishes, the model takes an element of the fault script, as for a system
  call.
\<close>

text \<open>What a build fixes: the CRC function, the key directory, \<^verbatim>\<open>NDEBUG\<close> and \<^verbatim>\<open>BYTECASK_TESTING\<close>.\<close>

record build =
  b_crc :: crc_fn
  b_reads_keys :: bool
  b_debug :: bool
  b_testing :: bool

record NeededTombstones =
  horizon :: nat
  needed_sequences :: "nat list"

definition droppable :: "NeededTombstones \<Rightarrow> nat \<Rightarrow> bool" where
  "droppable n sequ \<longleftrightarrow> sequ \<le> horizon n \<and> \<not> sequ \<in> set (needed_sequences n)"

record db = disk +
  published :: EngineState
  head :: EngineState
  write_fault :: bool
  flush_error :: "error option"
  worker :: "path list"
  rotation_threshold :: nat
  max_hint_backlog :: nat
  size_limits :: SizeLimits
  scratch_bytes :: nat
  needed_tombstones :: NeededTombstones

definition kWriteFaultReason :: string where
  "kWriteFaultReason = ''a write reached the data file but could not be published: call resume() to recover.''"

definition file_ids_exhausted :: error where
  "file_ids_exhausted = RuntimeError ''file id space exhausted''"

text \<open>The path of the active file of a state.\<close>

definition active_path :: "'a EngineState_scheme \<Rightarrow> path" where
  "active_path s = (case map_of (files s) (active_file_id s) of Some p \<Rightarrow> p | None \<Rightarrow> [])"

section \<open>Publication\<close>

text \<open>The raw store: every publication passes through it.\<close>

definition store_raw :: "EngineState \<Rightarrow> db \<Rightarrow> db" where
  "store_raw s d = d\<lparr>published := s\<rparr>"

definition store_head :: "EngineState \<Rightarrow> db \<Rightarrow> db" where
  "store_head s d = d\<lparr>head := s\<rparr>"

definition deem_as_degraded :: "string \<Rightarrow> db \<Rightarrow> db" where
  "deem_as_degraded reason d = store_raw (degraded_copy (published d) reason) d"

text \<open>The debug walks over the key directory: \<^term>\<open>Some\<close> the first violation.\<close>

fun walk_locations :: "EngineState \<Rightarrow> (key \<times> KeyDirEntry) list \<Rightarrow> string option" where
  "walk_locations s [] = None"
| "walk_locations s ((k, loc) # xs) =
    (case fs_get (file_stats s) (kde_file_id loc) of
       None \<Rightarrow> Some ''invariant violation: key in file_id which has no file_stats''
     | Some fs \<Rightarrow> if kde_file_offset loc \<ge> unat (total_bytes fs)
         then Some ''invariant violation: key starts past the file's committed extent''
         else walk_locations s xs)"

fun walk_entries :: "EngineState \<Rightarrow> (key \<times> KeyDirEntry) list \<Rightarrow> nat \<Rightarrow> string + nat" where
  "walk_entries s [] max_seq = Inr max_seq"
| "walk_entries s ((k, e) # xs) max_seq =
    (let m = (if kde_sequence e > max_seq then kde_sequence e else max_seq);
         entry_end = kde_file_offset e + entry_size (length k) (kde_value_size e) in
     case fs_get (file_stats s) (kde_file_id e) of
       None \<Rightarrow> Inl ''invariant violation: key in file_id which has no file_stats''
     | Some fs \<Rightarrow> if entry_end > unat (total_bytes fs)
         then Inl ''invariant violation: key ends past the file's committed extent''
         else walk_entries s xs m)"

definition debug_violation :: "build \<Rightarrow> EngineState \<Rightarrow> string option" where
  "debug_violation b s =
    (if \<not> b_debug b then None
     else if b_reads_keys b then walk_locations s (kd_lower_bound (key_dir s) [])
     else case walk_entries s (key_dir s) 0 of
       Inl r \<Rightarrow> Some r
     | Inr max_seq \<Rightarrow> if next_seq s \<le> max_seq
         then Some ''invariant violation: next_seq at or below max key_dir sequence'' else None)"

definition store_violation :: "build \<Rightarrow> EngineState \<Rightarrow> EngineState \<Rightarrow> string option" where
  "store_violation b old new =
    (if next_seq new < next_seq old then Some ''invariant violation: next_seq regressed''
     else if active_file_id new < active_file_id old then Some ''invariant violation: active_file_id regressed''
     else if next_file_id new < next_file_id old then Some ''invariant violation: next_file_id regressed''
     else if durable_seq new < durable_seq old then Some ''invariant violation: durable_seq regressed''
     else if sync_requested_seq new > durable_seq new
       then Some ''invariant violation: publishing sync_requested_seq above durable_seq''
     else debug_violation b new)"

definition store_state :: "build \<Rightarrow> EngineState \<Rightarrow> EngineState \<Rightarrow> db \<Rightarrow> db" where
  "store_state b old new d =
    (case store_violation b old new of
       Some reason \<Rightarrow> deem_as_degraded reason d
     | None \<Rightarrow> store_raw new d)"

definition store_initial_state :: "EngineState \<Rightarrow> db \<Rightarrow> db" where
  "store_initial_state s d = store_raw s (store_head s d)"

section \<open>Refusing writes\<close>

definition refused :: "EngineState \<Rightarrow> db \<Rightarrow> bool" where
  "refused s d \<longleftrightarrow> degraded s \<or> write_fault d"

definition degraded_reason_of :: "db \<Rightarrow> string" where
  "degraded_reason_of d =
    (if degraded (published d) then degraded_reason (published d)
     else if write_fault d then kWriteFaultReason else [])"

definition publish_degraded_if_healthy :: "string \<Rightarrow> (unit, db) io" where
  "publish_degraded_if_healthy reason =
    io_bind (io_get published) (\<lambda>current.
    if degraded current then io_ret ()
    else io_bind io_point (\<lambda>_. io_modify (store_raw (degraded_copy current reason))))"

definition refuse_writes :: "(unit, db) io" where
  "refuse_writes =
    io_bind (io_modify (\<lambda>d. d\<lparr>write_fault := True\<rparr>)) (\<lambda>_.
      io_try (publish_degraded_if_healthy kWriteFaultReason) (\<lambda>e. io_ret ()))"

definition degrade :: "(unit, db) io \<Rightarrow> (unit, db) io" where
  "degrade publish = io_bind (io_try publish (\<lambda>e. io_ret ())) (\<lambda>_. refuse_writes)"

definition degrade_from :: "EngineState \<Rightarrow> string \<Rightarrow> (unit, db) io" where
  "degrade_from current reason =
    degrade (io_bind io_point (\<lambda>_. io_modify (store_raw (degraded_copy current reason))))"

definition degrade_transient ::
  "build \<Rightarrow> TransientEngineState \<Rightarrow> EngineState \<Rightarrow> string \<Rightarrow> (unit, db) io" where
  "degrade_transient b t current reason =
    degrade (io_bind io_point (\<lambda>_.
      io_modify (store_state b current (persistent (apply_degrade reason t)))))"

definition write_rejection :: "EngineState \<Rightarrow> error" where
  "write_rejection s =
    (if closed s then DbClosed else if degraded s then DbDegraded (degraded_reason s) else DbFollowerMode)"

definition write_refusal :: "EngineState \<Rightarrow> db \<Rightarrow> error option" where
  "write_refusal s d =
    (if \<not> is_write_allowed s then Some (write_rejection s)
     else if write_fault d then Some (DbDegraded kWriteFaultReason) else None)"

section \<open>The consistency check of a cold path\<close>

fun check_markers :: "nat \<Rightarrow> nat \<Rightarrow> change_marker list \<Rightarrow> unit result" where
  "check_markers nxt prev [] = Inr ()"
| "check_markers nxt prev (m # ms) =
    (if since_sequence m \<le> prev then Inl (RuntimeError ''state consistency: change marker out of order'')
     else if since_sequence m \<ge> nxt then Inl (RuntimeError ''state consistency: change marker at or above next_seq'')
     else check_markers nxt (since_sequence m) ms)"

type_synonym live_map = "(nat \<times> u64) list"

definition live_at :: "live_map \<Rightarrow> nat \<Rightarrow> u64" where
  "live_at m f = (case map_of m f of None \<Rightarrow> 0 | Some v \<Rightarrow> v)"

fun check_keys ::
  "EngineState \<Rightarrow> (key \<times> KeyDirEntry) list \<Rightarrow> live_map \<Rightarrow> nat \<Rightarrow> (live_map \<times> nat) result" where
  "check_keys s [] live max_seq = Inr (live, max_seq)"
| "check_keys s ((k, e) # xs) live max_seq =
    (let f = kde_file_id e; size = entry_size (length k) (kde_value_size e) in
     if map_of (files s) f = None
     then Inl (RuntimeError ''state consistency: key references file_id not in registry'')
     else if kde_file_offset e + size > unat (total_bytes (the (fs_get (file_stats s) f)))
     then Inl (RuntimeError ''state consistency: key ends past the file's committed extent'')
     else check_keys s xs (AList.update f (live_at live f + word_of_nat size) live)
            (if kde_sequence e > max_seq then kde_sequence e else max_seq))"

fun check_live :: "live_map \<Rightarrow> (nat \<times> FileStats) list \<Rightarrow> unit result" where
  "check_live live [] = Inr ()"
| "check_live live ((f, fs) # xs) =
    (if live_bytes fs \<noteq> live_at live f
     then Inl (RuntimeError ''state consistency: live_bytes differ from the key directory'')
     else check_live live xs)"

fun check_bounds :: "(nat \<times> FileStats) list \<Rightarrow> unit result" where
  "check_bounds [] = Inr ()"
| "check_bounds ((f, fs) # xs) =
    (if (min_sequence fs = 0) \<noteq> (max_sequence fs = 0)
     then Inl (RuntimeError ''state consistency: one sequence bound is zero, the other is not'')
     else if min_sequence fs > max_sequence fs
     then Inl (RuntimeError ''state consistency: min_sequence above max_sequence'')
     else check_bounds xs)"

definition validate_state_consistency :: "build \<Rightarrow> EngineState \<Rightarrow> unit result" where
  "validate_state_consistency b s =
    rbind (guard (map_of (files s) (active_file_id s) \<noteq> None)
      (RuntimeError ''state consistency: active_file_id not in files registry'')) (\<lambda>_.
    rbind (guard (\<not> sync_requested_seq s > durable_seq s)
      (RuntimeError ''state consistency: sync_requested_seq above durable_seq'')) (\<lambda>_.
    rbind (guard (\<forall>(f, p) \<in> set (files s). fs_get (file_stats s) f \<noteq> None)
      (RuntimeError ''state consistency: file_id missing from file_stats'')) (\<lambda>_.
    rbind (case change_markers s of None \<Rightarrow> Inr () | Some ms \<Rightarrow> check_markers (next_seq s) 0 ms) (\<lambda>_.
    rbind (if \<not> b_testing b then Inr ()
           else rbind (check_keys s (key_dir s) [] 0) (\<lambda>(live, max_seq).
                rbind (guard (\<not> (max_seq > 0 \<and> next_seq s \<le> max_seq))
                  (RuntimeError ''state consistency: next_seq at or below max key_dir sequence'')) (\<lambda>_.
                  check_live live (file_stats s)))) (\<lambda>_.
      check_bounds (file_stats s))))))"

section \<open>What the check accepts\<close>

definition markers_ok :: "EngineState \<Rightarrow> bool" where
  "markers_ok s \<longleftrightarrow> (case change_markers s of None \<Rightarrow> True
     | Some ms \<Rightarrow> sorted_wrt (<) (0 # map since_sequence ms) \<and> (\<forall>m \<in> set ms. since_sequence m < next_seq s))"

definition key_ok :: "EngineState \<Rightarrow> key \<Rightarrow> KeyDirEntry \<Rightarrow> bool" where
  "key_ok s k e \<longleftrightarrow> kde_file_id e \<in> dom (map_of (files s)) \<and>
     kde_file_offset e + entry_size (length k) (kde_value_size e) \<le> extent s (kde_file_id e) \<and>
     (kde_sequence e = 0 \<or> kde_sequence e < next_seq s)"

definition consistent :: "bool \<Rightarrow> EngineState \<Rightarrow> bool" where
  "consistent testing s \<longleftrightarrow>
     active_file_id s \<in> dom (map_of (files s)) \<and> sync_requested_seq s \<le> durable_seq s \<and>
     dom (map_of (files s)) \<subseteq> dom (fs_get (file_stats s)) \<and> markers_ok s \<and>
     (testing \<longrightarrow> (\<forall>(k, e) \<in> set (key_dir s). key_ok s k e) \<and> live_inv s) \<and> bounds_inv s"

lemma check_markers_iff:
  "check_markers nxt prev ms = Inr () \<longleftrightarrow>
    sorted_wrt (<) (prev # map since_sequence ms) \<and> (\<forall>m \<in> set ms. since_sequence m < nxt)"
proof (induction ms arbitrary: prev)
  case (Cons m ms)
  show ?case by (auto simp: Cons.IH dest: less_trans)
qed simp

lemma live_at_Nil [simp]: "live_at [] f = 0"
  by (simp add: live_at_def)

lemma live_at_update [simp]:
  "live_at (AList.update f v m) g = (if g = f then v else live_at m g)"
  by (simp add: live_at_def update_conv')

lemma check_keys_run:
  "check_keys s xs live m =
    (if \<forall>(k, e) \<in> set xs. kde_file_id e \<in> dom (map_of (files s)) \<and>
        kde_file_offset e + entry_size (length k) (kde_value_size e)
          \<le> unat (total_bytes (the (fs_get (file_stats s) (kde_file_id e))))
     then Inr (fold (\<lambda>(k, e) l. AList.update (kde_file_id e)
                 (live_at l (kde_file_id e) + word_of_nat (entry_size (length k) (kde_value_size e))) l) xs live,
               fold (\<lambda>(k, e) m. if kde_sequence e > m then kde_sequence e else m) xs m)
     else check_keys s xs live m)"
  by (induction s xs live m rule: check_keys.induct) (auto simp: Let_def)

lemma check_keys_Inr:
  assumes "check_keys s xs live m = Inr (live', m')"
  shows "\<forall>(k, e) \<in> set xs. kde_file_id e \<in> dom (map_of (files s)) \<and>
        kde_file_offset e + entry_size (length k) (kde_value_size e)
          \<le> unat (total_bytes (the (fs_get (file_stats s) (kde_file_id e))))"
  using assms by (induction s xs live m rule: check_keys.induct) (auto simp: Let_def split: if_splits)

lemma fold_live_at:
  "live_at (fold (\<lambda>(k, e) l. AList.update (kde_file_id e)
      (live_at l (kde_file_id e) + word_of_nat (entry_size (length k) (kde_value_size e))) l) xs live) f =
   live_at live f + word_of_nat (kd_live xs f)"
proof (induction xs arbitrary: live)
  case (Cons x xs)
  obtain k e where "x = (k, e)" by fastforce
  then show ?case using Cons by (auto simp: kd_part_def algebra_simps)
qed simp

lemma fold_max_seq:
  "n \<le> fold (\<lambda>(k, e) m. if kde_sequence e > m then kde_sequence e else m) xs a \<longleftrightarrow>
   n \<le> a \<or> (\<exists>(k, e) \<in> set xs. n \<le> kde_sequence e)"
proof (induction xs arbitrary: a)
  case (Cons x xs)
  obtain k e where "x = (k, e)" by fastforce
  then show ?case using Cons by (auto split: if_splits)
qed simp

lemma check_live_iff:
  "check_live live xs = Inr () \<longleftrightarrow> (\<forall>(f, fs) \<in> set xs. live_bytes fs = live_at live f)"
  by (induction live xs rule: check_live.induct) auto

lemma check_bounds_iff:
  "check_bounds xs = Inr () \<longleftrightarrow> (\<forall>(f, fs) \<in> set xs.
     (min_sequence fs = 0 \<longleftrightarrow> max_sequence fs = 0) \<and> min_sequence fs \<le> max_sequence fs)"
  by (induction xs rule: check_bounds.induct) auto

lemma fs_get_set_iff:
  "distinct (map fst m) \<Longrightarrow> (\<forall>(f, st) \<in> set m. P f st) \<longleftrightarrow> (\<forall>f st. fs_get m f = Some st \<longrightarrow> P f st)"
  by (auto simp: fs_get_def)

lemma key_walk_iff:
  assumes dist: "distinct (map fst (file_stats s))"
    and sub: "dom (map_of (files s)) \<subseteq> dom (fs_get (file_stats s))"
  shows "rbind (check_keys s (key_dir s) [] 0) (\<lambda>(live, max_seq).
      rbind (guard (\<not> (max_seq > 0 \<and> next_seq s \<le> max_seq)) err) (\<lambda>_. check_live live (file_stats s))) = Inr ()
    \<longleftrightarrow> (\<forall>(k, e) \<in> set (key_dir s). key_ok s k e) \<and> live_inv s"
proof -
  let ?placed = "\<forall>(k, e) \<in> set (key_dir s). kde_file_id e \<in> dom (map_of (files s)) \<and>
        kde_file_offset e + entry_size (length k) (kde_value_size e)
          \<le> unat (total_bytes (the (fs_get (file_stats s) (kde_file_id e))))"
  let ?m = "fold (\<lambda>(k, e) m. if kde_sequence e > m then kde_sequence e else m) (key_dir s) 0"
  have ext: "unat (total_bytes (the (fs_get (file_stats s) f))) = extent s f"
    if "f \<in> dom (map_of (files s))" for f
    using that sub by (auto simp: extent_def)
  have seqs: "\<not> (?m > 0 \<and> next_seq s \<le> ?m) \<longleftrightarrow>
      (\<forall>(k, e) \<in> set (key_dir s). kde_sequence e = 0 \<or> kde_sequence e < next_seq s)"
  proof -
    have "?m > 0 \<and> next_seq s \<le> ?m \<longleftrightarrow> max 1 (next_seq s) \<le> ?m" by auto
    also have "\<dots> \<longleftrightarrow> (\<exists>(k, e) \<in> set (key_dir s). max 1 (next_seq s) \<le> kde_sequence e)"
      using fold_max_seq[of "max 1 (next_seq s)" "key_dir s" 0] by simp
    finally show ?thesis by (auto simp: not_less_eq_eq split: prod.splits)
  qed
  have "key_ok s k e \<longleftrightarrow> (kde_file_id e \<in> dom (map_of (files s)) \<and>
        kde_file_offset e + entry_size (length k) (kde_value_size e)
          \<le> unat (total_bytes (the (fs_get (file_stats s) (kde_file_id e))))) \<and>
      (kde_sequence e = 0 \<or> kde_sequence e < next_seq s)" for k e
    using ext[of "kde_file_id e"] by (cases "kde_file_id e \<in> dom (map_of (files s))") (simp_all add: key_ok_def)
  then have keys: "(\<forall>(k, e) \<in> set (key_dir s). key_ok s k e) \<longleftrightarrow> ?placed \<and> \<not> (?m > 0 \<and> next_seq s \<le> ?m)"
    unfolding seqs by (simp only: case_prod_unfold ball_conj_distrib)
  show ?thesis
  proof (cases ?placed)
    case True
    have live: "check_live (fold (\<lambda>(k, e) l. AList.update (kde_file_id e)
          (live_at l (kde_file_id e) + word_of_nat (entry_size (length k) (kde_value_size e))) l) (key_dir s) [])
        (file_stats s) = Inr () \<longleftrightarrow> live_inv s"
      by (simp add: check_live_iff fs_get_set_iff[OF dist] fold_live_at live_inv_def)
    show ?thesis
      unfolding keys using live True by (subst check_keys_run) simp
  next
    case False
    have "check_keys s (key_dir s) [] 0 \<noteq> Inr x" for x
    proof
      assume "check_keys s (key_dir s) [] 0 = Inr x"
      then have "check_keys s (key_dir s) [] 0 = Inr (fst x, snd x)" by simp
      from False check_keys_Inr[OF this] show "HOL.False" by (rule notE)
    qed
    then obtain e where "check_keys s (key_dir s) [] 0 = Inl e" by (cases "check_keys s (key_dir s) [] 0") auto
    then show ?thesis unfolding keys using False by simp
  qed
qed

lemma validate_iff:
  assumes "distinct (map fst (file_stats s))"
  shows "validate_state_consistency b s = Inr () \<longleftrightarrow> consistent (b_testing b) s"
proof -
  have files: "(\<forall>(f, p) \<in> set (files s). fs_get (file_stats s) f \<noteq> None) \<longleftrightarrow>
      dom (map_of (files s)) \<subseteq> dom (fs_get (file_stats s))"
    unfolding dom_map_of_conv_image_fst by (auto simp: dom_def)
  have marks: "(case change_markers s of None \<Rightarrow> Inr () | Some ms \<Rightarrow> check_markers (next_seq s) 0 ms) = Inr ()
      \<longleftrightarrow> markers_ok s"
    by (auto simp: markers_ok_def check_markers_iff split: option.splits)
  have bounds: "check_bounds (file_stats s) = Inr () \<longleftrightarrow> bounds_inv s"
    by (simp add: check_bounds_iff fs_get_set_iff[OF assms] bounds_inv_def)
  have unit: "rbind m f = Inr () \<longleftrightarrow> m = Inr () \<and> f () = Inr ()" for m :: "unit result" and f
    by (cases m) auto
  show ?thesis
    unfolding validate_state_consistency_def unit guard_iff files marks bounds consistent_def
    using key_walk_iff[OF assms]
    by (cases "b_testing b") (auto simp: not_less)
qed

text \<open>
  C8. The check a cold open and \<^verbatim>\<open>resume()\<close> run before they publish accepts exactly the consistent
  states: the active file registered, no sync owed, every registered file with statistics, markers
  in strictly increasing order below the next sequence, and sequence bounds in order; in a test
  build also every key inside the committed extent of a registered file and below the next
  sequence, and every file's live bytes equal to the bytes the key directory points at in it.
\<close>

theorem validate_state_consistency_exact:
  assumes "distinct (map fst (file_stats s))"
  shows "validate_state_consistency b s = Inr () \<longleftrightarrow> consistent (b_testing b) s"
  using assms by (rule validate_iff)

definition demo_build :: build where
  "demo_build = \<lparr>b_crc = toy_crc, b_reads_keys = False, b_debug = True, b_testing = True\<rparr>"

theorem validate_state_consistency_exact_witness:
  "distinct (map fst (file_stats demo_state)) \<and> consistent True demo_state \<and>
   validate_state_consistency demo_build demo_state = Inr ()"
proof -
  have d: "distinct (map fst (file_stats demo_state))"
    by (simp add: demo_state_def EngineState_new_def)
  have "validate_state_consistency demo_build demo_state = Inr ()"
    by (simp add: validate_state_consistency_def demo_build_def demo_state_def EngineState_new_def
        fs_get_def FileStats_empty_def)
  moreover have "b_testing demo_build" by (simp add: demo_build_def)
  ultimately show ?thesis
    using validate_state_consistency_exact[OF d, of demo_build] d by simp
qed

lemma state_inv_consistent:
  assumes "state_inv s" and "sync_requested_seq s \<le> durable_seq s"
  shows "consistent testing s"
proof -
  have "key_ok s k e" if "(k, e) \<in> set (key_dir s)" for k e
    using assms(1) that kd_set_get[of "key_dir s" k e]
    by (auto simp: state_inv_def keys_inv_def key_ok_def entry_inv_def files_inv_def)
  moreover have "markers_ok s"
    using assms(1) by (auto simp: state_inv_def markers_inv_def markers_ok_def split: option.splits)
  ultimately show ?thesis
    using assms by (auto simp: consistent_def state_inv_def files_inv_def)
qed

section \<open>What publication guarantees\<close>

text \<open>
  C6. Publication is safe whatever it is asked to publish. After \<^verbatim>\<open>store_state\<close> the published state
  either is the new one or is the old one marked degraded; its sequences and file ids never went
  back; and when nothing published owed an \<^verbatim>\<open>fdatasync\<close> before, nothing published does now
  (durability before visibility).
\<close>

theorem store_state_safe:
  fixes d :: db and new :: EngineState and b :: build
  assumes "sync_requested_seq (published d) \<le> durable_seq (published d)"
  defines "s' \<equiv> published (store_state b (published d) new d)"
  shows "(s' = new \<or> (\<exists>r. s' = degraded_copy (published d) r)) \<and>
    next_seq (published d) \<le> next_seq s' \<and> active_file_id (published d) \<le> active_file_id s' \<and>
    next_file_id (published d) \<le> next_file_id s' \<and> durable_seq (published d) \<le> durable_seq s' \<and>
    sync_requested_seq s' \<le> durable_seq s'"
proof (cases "store_violation b (published d) new")
  case None
  then show ?thesis
    by (simp add: s'_def store_state_def store_raw_def store_violation_def split: if_splits)
next
  case (Some r)
  then have "s' = degraded_copy (published d) r"
    by (simp add: s'_def store_state_def deem_as_degraded_def store_raw_def)
  then show ?thesis using assms(1) by (auto simp: degraded_copy_def)
qed

definition demo_db :: db where
  "demo_db = \<lparr>dir = [(''a'', \<lparr>f_bytes = [], f_size = 0, f_zeroed = 0, f_capacity = 0, f_synced = 0,
      f_tainted = False\<rparr>)], hints = [], faults = [], stem_at = (\<lambda>n. replicate n CHR ''s''), minted = 0,
     published = demo_state, head = demo_state, write_fault = False, flush_error = None, worker = [],
     rotation_threshold = 1000, max_hint_backlog = 0,
     size_limits = \<lparr>max_key_bytes = 4096, max_value_bytes = 4096\<rparr>, scratch_bytes = 65536,
     needed_tombstones = \<lparr>horizon = 0, needed_sequences = []\<rparr>\<rparr>"

theorem store_state_safe_witness:
  "sync_requested_seq (published demo_db) \<le> durable_seq (published demo_db) \<and>
   sync_requested_seq (published (store_state demo_build (published demo_db)
     (demo_state\<lparr>next_seq := 9, sync_requested_seq := 8\<rparr>) demo_db)) = 0 \<and>
   next_seq (published demo_db) \<le> next_seq (published (store_state demo_build (published demo_db)
     (demo_state\<lparr>next_seq := 9, sync_requested_seq := 8\<rparr>) demo_db))"
proof -
  have "sync_requested_seq (published demo_db) \<le> durable_seq (published demo_db)"
    by (simp add: demo_db_def demo_state_def EngineState_new_def)
  with store_state_safe[OF this, of demo_build "demo_state\<lparr>next_seq := 9, sync_requested_seq := 8\<rparr>"]
  show ?thesis
    by (simp add: store_state_def store_violation_def deem_as_degraded_def store_raw_def
        degraded_copy_def demo_db_def demo_state_def EngineState_new_def)
qed

lemma walk_locations_ok:
  assumes "\<forall>(k, e) \<in> set xs. entry_inv s k e"
  shows "walk_locations s xs = None"
  using assms
proof (induction xs)
  case (Cons x xs)
  obtain k e where x: "x = (k, e)" by fastforce
  with Cons.prems obtain st where "fs_get (file_stats s) (kde_file_id e) = Some st"
    "kde_file_offset e + entry_size (length k) (kde_value_size e) \<le> unat (total_bytes st)"
    by (auto simp: entry_inv_def extent_def)
  with Cons x show ?case by (simp add: entry_size_def)
qed simp

lemma walk_entries_ok:
  assumes "\<forall>(k, e) \<in> set xs. entry_inv s k e" and "m < next_seq s"
  shows "\<exists>m'. walk_entries s xs m = Inr m' \<and> m' < next_seq s"
  using assms
proof (induction xs arbitrary: m)
  case (Cons x xs)
  obtain k e where x: "x = (k, e)" by fastforce
  with Cons.prems obtain st where "fs_get (file_stats s) (kde_file_id e) = Some st"
    "kde_file_offset e + entry_size (length k) (kde_value_size e) \<le> unat (total_bytes st)"
    "kde_sequence e < next_seq s"
    by (auto simp: entry_inv_def extent_def)
  with Cons x show ?case by (simp add: Let_def)
qed simp

lemma debug_violation_ok: "state_inv s \<Longrightarrow> debug_violation b s = None"
proof -
  assume inv: "state_inv s"
  then have all: "\<forall>(k, e) \<in> set (key_dir s). entry_inv s k e"
    using kd_set_get[of "key_dir s"] by (auto simp: state_inv_def keys_inv_def)
  moreover have "set (kd_lower_bound (key_dir s) []) \<subseteq> set (key_dir s)"
    by (auto simp: kd_lower_bound_def dest: set_dropWhileD)
  ultimately have "walk_locations s (kd_lower_bound (key_dir s) []) = None"
    by (intro walk_locations_ok) blast
  moreover have "0 < next_seq s" using inv by (simp add: state_inv_def)
  ultimately show ?thesis
    using walk_entries_ok[OF all, of 0] by (auto simp: debug_violation_def)
qed

text \<open>What the always-on checks ask of a state: nothing regresses and no sync is owed.\<close>

definition publishable :: "EngineState \<Rightarrow> EngineState \<Rightarrow> bool" where
  "publishable old new \<longleftrightarrow> next_seq old \<le> next_seq new \<and> active_file_id old \<le> active_file_id new \<and>
     next_file_id old \<le> next_file_id new \<and> durable_seq old \<le> durable_seq new \<and> sync_requested_seq new \<le> durable_seq new"

text \<open>
  C7. The runtime checks of publication have no false alarm and no gap. Among the states that satisfy
  the engine's invariant, those that regress in no sequence or file id and owe no sync are published
  as they are, in release and debug builds and with both key directories; every other one is
  refused, and the state already published is marked degraded.
\<close>

theorem store_state_publishes:
  assumes "state_inv new"
  shows "(store_violation b old new = None \<longleftrightarrow> publishable old new) \<and>
    published (store_state b old new d) =
      (if publishable old new then new else degraded_copy (published d) (the (store_violation b old new)))"
proof -
  have "store_violation b old new = None \<longleftrightarrow> publishable old new"
    using debug_violation_ok[OF assms, of b] by (auto simp: store_violation_def publishable_def)
  then show ?thesis
    by (auto simp: store_state_def store_raw_def deem_as_degraded_def split: option.splits)
qed

theorem store_state_publishes_witness:
  "state_inv demo_state \<and> published (store_state demo_build demo_state demo_state demo_db) = demo_state \<and>
   state_inv (demo_state\<lparr>next_seq := 9, sync_requested_seq := 8\<rparr>) \<and>
   degraded (published (store_state demo_build demo_state (demo_state\<lparr>next_seq := 9, sync_requested_seq := 8\<rparr>) demo_db))"
proof -
  let ?s = "demo_state\<lparr>next_seq := 9, sync_requested_seq := 8\<rparr>"
  have inv: "state_inv demo_state" "state_inv ?s"
    by (simp_all add: state_inv_def keys_inv_def live_inv_def bounds_inv_def markers_inv_def files_inv_def
        demo_state_def EngineState_new_def kd_get_def fs_get_def[abs_def] FileStats_empty_def)
  have "publishable demo_state demo_state" "\<not> publishable demo_state ?s"
    by (simp_all add: publishable_def demo_state_def EngineState_new_def)
  then show ?thesis
    using inv store_state_publishes[OF inv(1), of demo_build demo_state demo_db]
      store_state_publishes[OF inv(2), of demo_build demo_state demo_db]
    by (simp add: degraded_copy_def)
qed

end
