(* ===== verification/Rotation.thy ===== *)
theory Rotation
  imports Db "HOL-Library.Product_Lexorder" "HOL-Library.Multiset"
begin

text \<open>
  File rotation and hint files (\<^verbatim>\<open>db_rotation.cpp\<close>). A hint file is the list of the entries its
  scanner yields. Damage a reader finds in it is a fault of the read. The background worker is the
  queue of the files whose hints it has yet to write.
\<close>

section \<open>Writing a hint file\<close>

definition path_stem :: "path \<Rightarrow> string" where
  "path_stem p = (if CHR ''.'' \<in> set p then rev (tl (dropWhile (\<lambda>c. c \<noteq> CHR ''.'') (rev p))) else p)"

text \<open>
  The entry a committed entry gives. Markers and range tombstones go out as they are met; puts and
  deletes are staged, with the offset their key has in the arena.
\<close>

definition hint_of :: "DataEntry \<Rightarrow> nat \<Rightarrow> HintEntry" where
  "hint_of e off = \<lparr>hn_sequence = e_sequence e, hn_type = e_type e, hn_file_offset = off,
     hn_key = (if e_type e \<in> {BulkBegin, BulkEnd, ChangeMarker} then [] else e_key e),
     hn_value_size = (if e_type e \<in> {BulkBegin, BulkEnd} then 0 else length (e_value e)),
     hn_end_key = (if e_type e = RangeDel then e_value e else []),
     hn_marker_id = (if e_type e = ChangeMarker then decode_marker_id (e_value e) else 0)\<rparr>"

definition staged_type :: "EntryType \<Rightarrow> bool" where
  "staged_type t \<longleftrightarrow> t \<notin> {BulkBegin, BulkEnd, ChangeMarker, RangeDel}"

fun stage_loop ::
  "(DataEntry \<times> nat) list \<Rightarrow> nat \<Rightarrow> HintEntry list \<Rightarrow> HintEntry list \<Rightarrow> (HintEntry list \<times> HintEntry list) result"
where
  "stage_loop [] arena front staged = Inr (front, staged)"
| "stage_loop ((e, off) # es) arena front staged =
    (if \<not> staged_type (e_type e) then stage_loop es arena (front @ [hint_of e off]) staged
     else rbind (narrow 32 (length (e_value e))) (\<lambda>_.
          rbind (narrow 32 arena) (\<lambda>_.
          rbind (narrow 32 (length (e_key e))) (\<lambda>_.
            stage_loop es (arena + length (e_key e)) front (staged @ [hint_of e off])))))"

text \<open>Key ascending, and within a key sequence descending.\<close>

definition sort_staged :: "HintEntry list \<Rightarrow> HintEntry list" where
  "sort_staged hs = sort_key (\<lambda>h. (hn_key h, - int (hn_sequence h))) hs"

type_synonym tail_cut = "(nat \<Rightarrow> (unit, db) io) option"

definition flush_hints_for :: "build \<Rightarrow> path \<Rightarrow> tail_cut \<Rightarrow> (unit, db) io" where
  "flush_hints_for b p tc =
    (let stem = path_stem p in
     io_bind (io_get (\<lambda>d. map_of (hints d) stem)) (\<lambda>h.
     if h \<noteq> None then io_ret ()
     else
       io_bind io_point (\<lambda>_.
       io_bind (io_get (\<lambda>d. scan_committed (b_crc b) (if tc \<noteq> None then Stop else Throw)
                             (logged (file_at p d)) 0)) (\<lambda>(es, off, err).
       io_bind (io_lift (stage_loop es 0 [] [])) (\<lambda>(front, staged).
       io_bind (case err of Some e \<Rightarrow> io_throw e | None \<Rightarrow> io_ret ()) (\<lambda>_.
       io_bind (case tc of None \<Rightarrow> io_ret () | Some c \<Rightarrow> c off) (\<lambda>_.
       io_bind io_point (\<lambda>_.
       io_bind io_point (\<lambda>_.
       io_bind (io_modify (\<lambda>d. d\<lparr>hints := AList.update stem (front @ sort_staged staged) (hints d)\<rparr>)) (\<lambda>_.
         sync_directory))))))))))"

definition dispatch_hint :: "path \<Rightarrow> (unit, db) io" where
  "dispatch_hint p = io_modify (\<lambda>d. d\<lparr>worker := worker d @ [p]\<rparr>)"

text \<open>The worker's loop body: a task that throws is reported and dropped.\<close>

definition worker_step :: "build \<Rightarrow> (unit, db) io" where
  "worker_step b =
    io_bind (io_get worker) (\<lambda>q. case q of
        [] \<Rightarrow> io_ret ()
      | p # ps \<Rightarrow> io_bind (io_try (flush_hints_for b p None) (\<lambda>e. io_ret ())) (\<lambda>_.
                   io_modify (\<lambda>d. d\<lparr>worker := ps\<rparr>)))"

fun worker_run :: "build \<Rightarrow> nat \<Rightarrow> (unit, db) io" where
  "worker_run b 0 = io_ret ()"
| "worker_run b (Suc n) = io_bind (worker_step b) (\<lambda>_. worker_run b n)"

definition worker_drain :: "build \<Rightarrow> (unit, db) io" where
  "worker_drain b = io_bind (io_get worker) (\<lambda>q. worker_run b (length q))"

definition wait_for_hint_backlog :: "build \<Rightarrow> (unit, db) io" where
  "wait_for_hint_backlog b =
    io_bind (io_get id) (\<lambda>d.
    if max_hint_backlog d = 0 \<or> length (worker d) < max_hint_backlog d then io_ret ()
    else worker_run b (length (worker d) + 1 - max 1 (max_hint_backlog d)))"

definition flush_hints_state :: "build \<Rightarrow> EngineState \<Rightarrow> (unit, db) io" where
  "flush_hints_state b s =
    io_each (\<lambda>(f, p). if f = active_file_id s then io_ret () else flush_hints_for b p None) (files s)"

definition flush_hints :: "build \<Rightarrow> (unit, db) io" where
  "flush_hints b = io_bind (worker_drain b) (\<lambda>_. io_bind (io_get published) (flush_hints_state b))"

section \<open>Reading a hint file\<close>

fun is_file_damage :: "error \<Rightarrow> bool" where
  "is_file_damage (SystemError io_error msg) = io_error"
| "is_file_damage (RuntimeError msg) = True"
| "is_file_damage (DbDegraded msg) = True"
| "is_file_damage DbFollowerMode = True"
| "is_file_damage DbClosed = False"
| "is_file_damage DbChangeMarkerMismatch = True"
| "is_file_damage (SequenceOverlap a b) = True"
| "is_file_damage (InvalidArgument msg) = False"
| "is_file_damage (LogicError msg) = False"
| "is_file_damage (Panic msg) = False"

definition hint_open_for_read :: "string \<Rightarrow> (HintEntry list, db) io" where
  "hint_open_for_read stem =
    io_bind io_point (\<lambda>_.
    io_bind (io_get (\<lambda>d. map_of (hints d) stem)) (\<lambda>h. case h of
        None \<Rightarrow> io_throw (SystemError False ''HintFile: cannot open for read'')
      | Some hs \<Rightarrow> io_ret hs))"

definition open_hint_or_rebuild :: "build \<Rightarrow> path \<Rightarrow> (HintEntry list, db) io" where
  "open_hint_or_rebuild b p =
    io_try (hint_open_for_read (path_stem p)) (\<lambda>e.
      if \<not> is_file_damage e then io_throw e
      else io_bind (remove_hint (path_stem p)) (\<lambda>_.
           io_bind (flush_hints_for b p None) (\<lambda>_.
             hint_open_for_read (path_stem p))))"

definition open_hint_or_skip :: "build \<Rightarrow> path \<Rightarrow> bool \<Rightarrow> (HintEntry list option, db) io" where
  "open_hint_or_skip b p strict =
    io_try (io_bind (open_hint_or_rebuild b p) (\<lambda>h. io_ret (Some h))) (\<lambda>e.
      if strict \<or> \<not> is_file_damage e then io_throw e else io_ret None)"

section \<open>Rotation\<close>

definition create_active_file :: "(path, db) io" where
  "create_active_file =
    io_bind make_data_file_stem (\<lambda>stem.
    io_bind (io_get rotation_threshold) (\<lambda>thr.
    io_bind (createDataFileForWrite stem ''.data'' thr) (\<lambda>p.
    io_bind sync_directory (\<lambda>_. io_ret p))))"

record PreparedRotation =
  sealed :: path
  next_file :: path
  next_id :: nat

text \<open>
  The working copy is a reference argument, so it is returned whichever way the preparation ends,
  with the id taken once it was reserved.
\<close>

definition prepare_rotation ::
  "build \<Rightarrow> TransientEngineState \<Rightarrow> (PreparedRotation result \<times> TransientEngineState, db) io" where
  "prepare_rotation b t =
    (let p = active_path t in
     io_bind (io_attempt (io_bind (wait_for_hint_backlog b) (\<lambda>_.
                          io_bind (shrink_to_fit p) (\<lambda>_. openDataFileForRead p)))) (\<lambda>opened.
     case opened of
       Inl e \<Rightarrow> io_ret (Inl e, t)
     | Inr ro \<Rightarrow>
         (case reserve_file_id t of
            Inl e \<Rightarrow> io_ret (Inl e, t)
          | Inr (nid, t') \<Rightarrow>
              io_bind (io_attempt create_active_file) (\<lambda>created. case created of
                  Inl e \<Rightarrow> io_ret (Inl e, t')
                | Inr nf \<Rightarrow> io_ret (Inr \<lparr>sealed = ro, next_file = nf, next_id = nid\<rparr>, t')))))"

text \<open>The working copy is rotated first; when the dispatch then throws, no caller reads the copy again.\<close>

definition finish_rotation :: "TransientEngineState \<Rightarrow> PreparedRotation \<Rightarrow> (TransientEngineState, db) io" where
  "finish_rotation t r =
    io_bind io_point (\<lambda>_.
      let t1 = apply_rotate_file (sealed r) (next_file r) (next_id r) t
      in io_bind (dispatch_hint (sealed r)) (\<lambda>_. io_ret t1))"

end
