(* ===== verification/Conflicts.thy ===== *)
theory Conflicts
  imports StateInv
begin

text \<open>
  What \<^verbatim>\<open>validate_preconditions\<close> decides: a plan is let through exactly when its guards hold and no
  key it writes, and no key of a range it guards or deletes, changed since its snapshot.
\<close>

section \<open>The specification\<close>

text \<open>A key is unchanged when it is absent from both states, or present in both at one sequence.\<close>

definition unchanged :: "TransientEngineState \<Rightarrow> EngineState \<Rightarrow> key \<Rightarrow> bool" where
  "unchanged t sn k \<longleftrightarrow>
     map_option kde_sequence (kd_get (key_dir t) k) = map_option kde_sequence (kd_get (key_dir sn) k)"

definition range_unchanged :: "TransientEngineState \<Rightarrow> EngineState \<Rightarrow> key \<Rightarrow> key \<Rightarrow> bool" where
  "range_unchanged t sn frm to \<longleftrightarrow> (\<forall>k. frm \<le> k \<and> k < to \<longrightarrow> unchanged t sn k)"

fun guard_holds :: "TransientEngineState \<Rightarrow> EngineState option \<Rightarrow> key \<times> Precondition \<Rightarrow> bool" where
  "guard_holds t sn (k, NoPrecondition) = True"
| "guard_holds t sn (k, MustExist) = (kd_get (key_dir t) k \<noteq> None)"
| "guard_holds t sn (k, MustBeAbsent) = (kd_get (key_dir t) k = None)"
| "guard_holds t sn (k, MustBeUnchanged) = unchanged t (the sn) k"

fun op_unchanged :: "TransientEngineState \<Rightarrow> EngineState \<Rightarrow> WriteOp \<Rightarrow> bool" where
  "op_unchanged t sn (PointPut k v) = unchanged t sn k"
| "op_unchanged t sn (PointDel k) = unchanged t sn k"
| "op_unchanged t sn (RangeDelete frm to) = range_unchanged t sn frm to"

definition plan_holds :: "TransientEngineState \<Rightarrow> WritePlan \<Rightarrow> bool" where
  "plan_holds t p \<longleftrightarrow> (\<forall>g \<in> set (guards p). guard_holds t (snap p) g) \<and>
     (\<forall>(frm, to) \<in> set (range_guards p). range_unchanged t (the (snap p)) frm to) \<and>
     (\<forall>sn. snap p = Some sn \<longrightarrow> (\<forall>w \<in> set (writes p). op_unchanged t sn w))"

text \<open>
  A snapshot of an earlier version: its own keys are in order, and a location both versions hold
  for a key is one record, with one sequence.
\<close>

definition snap_ok :: "TransientEngineState \<Rightarrow> EngineState \<Rightarrow> bool" where
  "snap_ok t sn \<longleftrightarrow> keys_inv sn \<and>
     (\<forall>k a e. kd_get (key_dir sn) k = Some a \<longrightarrow> kd_get (key_dir t) k = Some e \<longrightarrow>
        same_record e a \<longrightarrow> kde_sequence e = kde_sequence a)"

text \<open>What the plan builder and \<^verbatim>\<open>resolve_snapshot_entries\<close> leave.\<close>

definition plan_built :: "WritePlan \<Rightarrow> bool" where
  "plan_built p \<longleftrightarrow>
     (snap_entries p = [] \<or> (\<exists>s. snap p = Some s \<and> snap_entries p = map (resolve_op s) (writes p))) \<and>
     (snap p = None \<longrightarrow> range_guards p = [] \<and> (\<forall>(k, g) \<in> set (guards p). g \<noteq> MustBeUnchanged))"

section \<open>The checks meet it\<close>

lemma seq_or_0_eq:
  assumes "keys_inv t" and "keys_inv sn"
  shows "seq_or_0 (kd_get (key_dir t) k) = seq_or_0 (kd_get (key_dir sn) k) \<longleftrightarrow>
    map_option kde_sequence (kd_get (key_dir t) k) = map_option kde_sequence (kd_get (key_dir sn) k)"
  using assms unfolding keys_inv_def entry_inv_def seq_or_0_def
  by (auto split: option.splits)

lemma range_changed_None:
  assumes t: "keys_inv t" and sn: "keys_inv sn"
  shows "range_changed t sn frm to = None \<longleftrightarrow> range_unchanged t sn frm to"
proof -
  have st: "kd_sorted (key_dir t)" "kd_sorted (key_dir sn)"
    using t sn by (simp_all add: keys_inv_def)
  have s0: "kde_sequence e = seq_or_0 (kd_get (key_dir t) k)" if "kd_get (key_dir t) k = Some e" for k e
    using that by (simp add: seq_or_0_def)
  have A: "List.find (\<lambda>(k, e). kde_sequence e \<noteq> seq_or_0 (kd_get (key_dir sn) k)) (kd_range (key_dir t) frm to) = None \<longleftrightarrow>
      (\<forall>k. frm \<le> k \<and> k < to \<and> kd_get (key_dir t) k \<noteq> None \<longrightarrow> unchanged t sn k)"
    unfolding find_None_iff unchanged_def seq_or_0_eq[OF t sn, symmetric]
    using s0 by (auto simp: kd_range_iff[OF st(1)])
  have B: "List.find (\<lambda>(k, e). kd_get (key_dir t) k = None) (kd_range (key_dir sn) frm to) = None \<longleftrightarrow>
      (\<forall>k. frm \<le> k \<and> k < to \<and> kd_get (key_dir t) k = None \<longrightarrow> unchanged t sn k)"
    unfolding find_None_iff unchanged_def
    by (auto simp: kd_range_iff[OF st(2)])
  have "range_changed t sn frm to = None \<longleftrightarrow>
      List.find (\<lambda>(k, e). kde_sequence e \<noteq> seq_or_0 (kd_get (key_dir sn) k)) (kd_range (key_dir t) frm to) = None \<and>
      List.find (\<lambda>(k, e). kd_get (key_dir t) k = None) (kd_range (key_dir sn) frm to) = None"
    by (auto simp: range_changed_def split: option.splits)
  then show ?thesis
    unfolding A B range_unchanged_def by blast
qed

lemma check_guards_iff:
  assumes t: "keys_inv t" and sn: "\<forall>(k, g) \<in> set gs. g = MustBeUnchanged \<longrightarrow> keys_inv (the sn)"
  shows "(\<exists>h. check_guards t sn gs held = Inr h) \<longleftrightarrow> (\<forall>g \<in> set gs. guard_holds t sn g)"
  using sn
proof (induction gs arbitrary: held)
  case (Cons x gs)
  obtain k g where x: "x = (k, g)" by fastforce
  show ?case
  proof (cases g)
    case MustBeUnchanged
    then have "keys_inv (the sn)" using Cons.prems by (simp add: x)
    with MustBeUnchanged show ?thesis
      using Cons by (auto simp: x Let_def seq_or_0_eq[OF t] unchanged_def)
  qed (use Cons in \<open>auto simp: x Let_def\<close>)
qed simp

lemma check_range_guards_iff:
  assumes t: "keys_inv t" and sn: "rgs \<noteq> [] \<longrightarrow> keys_inv (the sn)"
  shows "(\<exists>h. check_range_guards t sn rgs held = Inr h) \<longleftrightarrow>
    (\<forall>(frm, to) \<in> set rgs. range_unchanged t (the sn) frm to)"
  using sn
proof (induction rgs arbitrary: held)
  case (Cons x rgs)
  obtain frm to where x: "x = (frm, to)" by fastforce
  have "keys_inv (the sn)" using Cons.prems by simp
  from range_changed_None[OF t this, of frm to] Cons show ?case
    by (auto simp: x split: option.splits)
qed simp

lemma point_conflict_None:
  assumes t: "keys_inv t" and sn: "snap_ok t sn" and se: "snapshot_entry p sn i k = kd_get (key_dir sn) k"
  shows "point_conflict rk t p sn i k = None \<longleftrightarrow> unchanged t sn k"
  using sn unfolding point_conflict_def se unchanged_def snap_ok_def kd_holds_def Let_def
  by (auto split: option.splits)

lemma write_conflicts_None:
  assumes t: "keys_inv t" and sn: "snap_ok t sn"
    and se: "\<And>j k. j < length ws \<Longrightarrow> (\<exists>v. ws ! j = PointPut k v) \<or> ws ! j = PointDel k \<Longrightarrow>
      snapshot_entry p sn (i + j) k = kd_get (key_dir sn) k"
  shows "write_conflicts rk t p sn i ws = None \<longleftrightarrow> (\<forall>w \<in> set ws. op_unchanged t sn w)"
  using se
proof (induction ws arbitrary: i)
  case (Cons w ws)
  have IH: "write_conflicts rk t p sn (Suc i) ws = None \<longleftrightarrow> (\<forall>w \<in> set ws. op_unchanged t sn w)"
    using Cons.prems[of "Suc _"] by (intro Cons.IH) simp
  have k: "keys_inv sn" using sn by (simp add: snap_ok_def)
  have pt: "point_conflict rk t p sn i k = None \<longleftrightarrow> unchanged t sn k"
    if "(\<exists>v. w = PointPut k v) \<or> w = PointDel k" for k
    using Cons.prems[of 0 k] that by (intro point_conflict_None[OF t sn]) simp
  show ?case
  proof (cases w)
    case (RangeDelete frm to)
    then show ?thesis
      using IH range_changed_None[OF t k, of frm to] by (auto split: option.splits)
  next
    case (PointPut k v)
    then show ?thesis using IH pt[of k] by (auto split: option.splits)
  next
    case (PointDel k)
    then show ?thesis using IH pt[of k] by (auto split: option.splits)
  qed
qed simp

lemma plan_built_entry:
  assumes "plan_built p" and "snap p = Some sn" and "j < length (writes p)"
    and "(\<exists>v. writes p ! j = PointPut k v) \<or> writes p ! j = PointDel k"
  shows "snapshot_entry p sn j k = kd_get (key_dir sn) k"
  using assms by (auto simp: plan_built_def snapshot_entry_def)

lemma validate_preconditions_iff:
  assumes "keys_inv t" and "plan_built p" and "\<forall>sn. snap p = Some sn \<longrightarrow> snap_ok t sn"
  shows "fst (validate_preconditions rk t p False) \<longleftrightarrow> plan_holds t p"
proof -
  have inv: "keys_inv (the (snap p))" if "snap p \<noteq> None"
    using assms(3) that by (auto simp: snap_ok_def)
  have G: "(\<exists>h. check_guards t (snap p) (guards p) 0 = Inr h) \<longleftrightarrow> (\<forall>g \<in> set (guards p). guard_holds t (snap p) g)"
    using check_guards_iff[OF assms(1), of "guards p" "snap p" 0] inv assms(2)
    by (cases "snap p") (auto simp: plan_built_def)
  have R: "(\<exists>h. check_range_guards t (snap p) (range_guards p) h1 = Inr h) \<longleftrightarrow>
      (\<forall>(frm, to) \<in> set (range_guards p). range_unchanged t (the (snap p)) frm to)" for h1
    using check_range_guards_iff[OF assms(1), of "range_guards p" "snap p" h1] inv assms(2)
    by (cases "snap p") (auto simp: plan_built_def)
  have W: "write_conflicts rk t p sn 0 (writes p) = None \<longleftrightarrow> (\<forall>w \<in> set (writes p). op_unchanged t sn w)"
    if "snap p = Some sn" for sn
    using assms plan_built_entry[OF assms(2) that] that by (intro write_conflicts_None) auto
  show ?thesis
  proof (cases "check_guards t (snap p) (guards p) 0")
    case (Inl r)
    with G show ?thesis by (auto simp: plan_holds_def validate_preconditions_def)
  next
    case (Inr h1)
    with G have G': "\<forall>g \<in> set (guards p). guard_holds t (snap p) g" by blast
    show ?thesis
    proof (cases "check_range_guards t (snap p) (range_guards p) h1")
      case (Inl r)
      with R[of h1] Inr show ?thesis by (auto simp: plan_holds_def validate_preconditions_def)
    next
      case r: (Inr h)
      with R[of h1] have "\<forall>(frm, to) \<in> set (range_guards p). range_unchanged t (the (snap p)) frm to"
        by blast
      with G' Inr r W show ?thesis
        by (cases "snap p") (auto simp: plan_holds_def validate_preconditions_def split: option.splits)
    qed
  qed
qed

text \<open>
  C3. Validation is exact. For a plan built by the plan builder, against a well formed head and a
  snapshot of an earlier version, \<^verbatim>\<open>validate_preconditions\<close> accepts the plan if and only if every
  point guard holds, every guarded range is unchanged since the snapshot, and, when the plan has a
  snapshot, every key it puts or deletes and every key of a range it deletes is unchanged. Neither
  the shortcut by record location nor the order of the checks changes the answer.
\<close>

theorem validate_preconditions_exact:
  assumes "keys_inv t" and "plan_built p" and "\<forall>sn. snap p = Some sn \<longrightarrow> snap_ok t sn"
  shows "fst (validate_preconditions rk t p False) \<longleftrightarrow> plan_holds t p"
  using assms by (rule validate_preconditions_iff)

definition demo_head :: TransientEngineState where
  "demo_head = transient (demo_state\<lparr>key_dir := [([1], kde_pack 3 40 1 1)], next_seq := 5,
     file_stats := [(1, FileStats_empty\<lparr>total_bytes := 80\<rparr>)]\<rparr>)"

definition demo_snap :: EngineState where
  "demo_snap = demo_state\<lparr>key_dir := [([1], kde_pack 2 0 1 1)], next_seq := 3,
     file_stats := [(1, FileStats_empty\<lparr>total_bytes := 40\<rparr>)]\<rparr>"

definition demo_snap_plan :: "WriteOp list \<Rightarrow> WritePlan" where
  "demo_snap_plan ws = resolve_snapshot_entries
     ((WritePlan_snapshot demo_snap \<lparr>max_key_bytes = 4096, max_value_bytes = 4096\<rparr>)\<lparr>writes := ws\<rparr>)"

lemmas demo_defs = demo_head_def demo_snap_def demo_snap_plan_def demo_state_def EngineState_new_def
  transient_def EngineState.defs WritePlan_snapshot_def WritePlan_new_def resolve_snapshot_entries_def

theorem validate_preconditions_exact_witness:
  "keys_inv demo_head \<and> (\<forall>ws. plan_built (demo_snap_plan ws)) \<and> snap_ok demo_head demo_snap \<and>
   fst (validate_preconditions True demo_head (demo_snap_plan [PointPut [2] [7]]) False) \<and>
   \<not> fst (validate_preconditions True demo_head (demo_snap_plan [PointDel [1]]) False)"
proof -
  have inv: "keys_inv demo_head"
    by (auto simp: keys_inv_def entry_inv_def demo_defs kd_get_def fs_get_def extent_def kde_pack_fields
        entry_size_def split: if_splits)
  have built: "plan_built (demo_snap_plan ws)" for ws
    by (simp add: plan_built_def demo_defs)
  have "\<not> same_record (kde_pack 3 40 1 1) (kde_pack 2 0 1 1)"
    by (simp add: same_record_def kde_pack_fields)
  moreover have "keys_inv demo_snap"
    by (auto simp: keys_inv_def entry_inv_def demo_defs kd_get_def fs_get_def extent_def kde_pack_fields
        entry_size_def split: if_splits)
  ultimately have ok: "snap_ok demo_head demo_snap"
    by (simp add: snap_ok_def demo_head_def demo_snap_def transient_def EngineState.defs kd_get_def)
  then have sn: "snap_ok demo_head sn" if "snap (demo_snap_plan ws) = Some sn" for ws sn
    using that by (simp add: demo_snap_plan_def resolve_snapshot_entries_def WritePlan_snapshot_def)
  have "plan_holds demo_head (demo_snap_plan [PointPut [2] [7]])"
    "\<not> plan_holds demo_head (demo_snap_plan [PointDel [1]])"
    by (simp_all add: plan_holds_def unchanged_def demo_defs kd_get_def kde_pack_fields)
  then show ?thesis
    using validate_preconditions_exact[OF inv built, of _ True] inv built sn ok by blast
qed

end
