(* ===== verification/Ingest.thy ===== *)
theory Ingest
  imports PutsChecked
begin

text \<open>
  \<^verbatim>\<open>apply_ingest\<close> against \<^verbatim>\<open>apply_writes\<close>: a follower that applies the entries a leader wrote for a
  plan builds the state the leader built.
\<close>

lemma apply_ingest_loop_append:
  "apply_ingest_loop rk (xs @ ys) mx t =
    rbind (apply_ingest_loop rk xs mx t) (\<lambda>(mx', t'). apply_ingest_loop rk ys mx' t')"
proof (induction xs arbitrary: mx t)
  case (Cons x xs)
  obtain e off where "x = (e, off)" by fastforce
  then show ?case
    using Cons by (cases "apply_ingest_entry rk e off t") simp_all
qed simp

text \<open>One entry: the follower does what the leader's write did, leaving the next sequence for the end.\<close>

lemma note_pending_next_seq:
  "note_pending rk off sq k vs (t\<lparr>next_seq := n\<rparr>) = (note_pending rk off sq k vs t)\<lparr>next_seq := n\<rparr>"
  by (simp add: note_pending_def)

lemma ingest_entry:
  assumes "apply_write rk at off w t = Inr t'" and "op_at_ok at (key_dir t) w"
  shows "apply_ingest_entry rk (op_entry (next_seq t) w) off (t\<lparr>next_seq := n\<rparr>) = Inr (t'\<lparr>next_seq := n\<rparr>)"
proof (cases w)
  case (PointPut k v)
  then show ?thesis
    using assms by (auto simp: result_simps put_by_eq Let_def note_pending_next_seq)
next
  case (PointDel k)
  then show ?thesis using assms by (auto simp: erase_by_eq Let_def)
next
  case (RangeDelete frm to)
  then show ?thesis using assms by (auto simp: Let_def)
qed

lemma op_entry_sequence [simp]: "e_sequence (op_entry sq w) = sq"
  by (cases w) simp_all

lemma ingest_loop:
  assumes "state_inv t" "resolved_ok p t" "\<forall>w \<in> set ws. op_fits w"
    and "drop io_idx offs = entry_offsets (extent t (active_file_id t)) (op_entries (next_seq t) ws @ es)"
    and "next_seq t + length ws \<le> 2 ^ 48" "active_file_id t \<le> kMaxFileId"
    and "extent t (active_file_id t) + sum_list (map op_bytes ws) \<le> 2 ^ 32"
    and "apply_write_loop rk p offs w_idx io_idx ws t = Inr t'" and "mx < next_seq t"
  shows "apply_ingest_loop rk
      (zip (op_entries (next_seq t) ws) (entry_offsets (extent t (active_file_id t)) (op_entries (next_seq t) ws)))
      mx (t\<lparr>next_seq := n\<rparr>)
    = Inr (if ws = [] then mx else next_seq t' - 1, t'\<lparr>next_seq := n\<rparr>)"
  using assms
proof (induction ws arbitrary: t w_idx io_idx mx)
  case (Cons w ws)
  let ?act = "active_file_id t" and ?off = "extent t (active_file_id t)"
  let ?m = "write_map (kde_pack (next_seq t) ?off ?act (op_value_size w)) w (kd_get (key_dir t))"
  have pos: "0 < op_bytes w" by (cases w) (simp_all add: entry_size_def)
  have fits: "next_seq t \<le> kMaxSequence" "?act \<le> kMaxFileId" "?off \<le> kMaxFileOffset"
      "op_value_size w \<le> kMaxValueSize" "?off + op_bytes w < 2 ^ 64"
    using Cons.prems pos by (simp_all add: op_fits_def)
  have o: "offs ! io_idx = ?off"
    and d': "drop (io_idx + 1) offs = entry_offsets (?off + op_bytes w) (op_entries (next_seq t + 1) ws @ es)"
    using drop_Cons_split[of io_idx offs ?off] Cons.prems(4) by auto
  obtain t1 where run: "apply_write rk (resolved_entry p w_idx) ?off w t = Inr t1"
    and post: "write_post t (op_bytes w) ?m t1"
    using apply_write_ok[OF Cons.prems(1) resolved_ok_at[OF Cons.prems(2)] refl fits] by blast
  have res: "resolved_ok p t1"
    by (rule resolved_ok_write[OF Cons.prems(2) post refl fits(1,2,3,4)])
  have t1: "state_inv t1" "active_file_id t1 = ?act" "next_seq t1 = next_seq t + 1"
      "extent t1 ?act = ?off + op_bytes w"
    using post by (simp_all add: write_post_def same_frame_def)
  have rest: "apply_write_loop rk p offs (w_idx + 1) (io_idx + 1) ws t1 = Inr t'"
    using Cons.prems(8) run o by simp
  have n: "next_seq t' = next_seq t1 + length ws"
    using apply_write_loop_ok[OF t1(1) res _ _ _ _ _, of ws "io_idx + 1" offs es rk "w_idx + 1"]
      Cons.prems(3-7) d' t1 rest by (auto simp: loop_post_def)
  have "apply_ingest_loop rk
      (zip (op_entries (next_seq t1) ws) (entry_offsets (extent t1 (active_file_id t1)) (op_entries (next_seq t1) ws)))
      (next_seq t) (t1\<lparr>next_seq := n\<rparr>)
    = Inr (if ws = [] then next_seq t else next_seq t' - 1, t'\<lparr>next_seq := n\<rparr>)"
    by (rule Cons.IH) (use t1 res d' rest Cons.prems(3-7) in simp_all)
  moreover have "apply_ingest_entry rk (op_entry (next_seq t) w) ?off (t\<lparr>next_seq := n\<rparr>) = Inr (t1\<lparr>next_seq := n\<rparr>)"
    by (rule ingest_entry[OF run resolved_ok_at[OF Cons.prems(2)]])
  ultimately show ?case
    using t1 n Cons.prems(9) by simp
qed simp

lemma ingest_bulk:
  assumes "e_type e = BulkBegin \<or> e_type e = BulkEnd"
  shows "apply_ingest_entry rk e off (t\<lparr>next_seq := n\<rparr>) = Inr ((apply_bulk_marker t)\<lparr>next_seq := n\<rparr>)"
  using assms by (auto simp: apply_bulk_marker_def Let_def)

lemma next_seq_patch: "patch_bounds lo hi (t\<lparr>next_seq := n\<rparr>) = (patch_bounds lo hi t)\<lparr>next_seq := n\<rparr>"
  by (simp add: patch_bounds_def)

definition entries_size :: "DataEntry list \<Rightarrow> nat" where
  "entries_size es = sum_list (map (\<lambda>e. entry_size (length (e_key e)) (length (e_value e))) es)"

lemma entry_offsets_append:
  "entry_offsets off (xs @ ys) = entry_offsets off xs @ entry_offsets (off + entries_size xs) ys"
  by (induction xs arbitrary: off) (simp_all add: entries_size_def add.assoc)

text \<open>
  C5. Leader and follower agree. Feeding the entries a leader prepared for a plan, at the offsets
  they were written at, to \<^verbatim>\<open>apply_ingest\<close> gives exactly the state \<^verbatim>\<open>apply_writes\<close> gives for the
  plan: the same key directory, statistics, pending records and next sequence.
\<close>

theorem ingest_prepared_is_apply_writes:
  assumes "state_inv t" and "resolved_ok p t" and "plan_fits t p"
    and "offs = entry_offsets (extent t (active_file_id t)) (prepare_write t p)"
  shows "apply_ingest rk (prepare_write t p) offs t = apply_writes rk p offs t"
proof -
  let ?act = "active_file_id t" and ?ext = "extent t (active_file_id t)" and ?ws = "writes p"
  have ops: "\<forall>w \<in> set ?ws. op_fits w" using assms(3) by (simp add: plan_fits_def list_all_iff)
  have pos: "0 < next_seq t" using assms(1) by (simp add: state_inv_def)
  have ws: "?ws \<noteq> []" using assms(3) by (simp add: plan_fits_def)
  show ?thesis
  proof (cases "write_count p > 1")
    case False
    then have one: "write_count p = 1" using ws by (cases ?ws) (auto simp: write_count_def)
    have es: "prepare_write t p = op_entries (next_seq t) ?ws"
      using one by (simp add: prepare_write_def)
    have d: "drop 0 offs = entry_offsets ?ext (op_entries (next_seq t) ?ws @ [])"
      using es assms(4) by simp
    have fits: "next_seq t + length ?ws \<le> 2 ^ 48" "?act \<le> kMaxFileId" "?ext + sum_list (map op_bytes ?ws) \<le> 2 ^ 32"
      using assms(3) by (auto simp: plan_fits_def write_count_def write_bytes_def split: if_splits)
    from apply_write_loop_ok[OF assms(1,2) ops d fits, of rk 0] obtain t2 where
      run: "apply_write_loop rk p offs 0 0 ?ws t = Inr t2" and n: "next_seq t2 = next_seq t + 1"
      using one by (auto simp: loop_post_def write_count_def)
    have "apply_ingest_loop rk (zip (prepare_write t p) offs) 0 t = Inr (next_seq t2 - 1, t2\<lparr>next_seq := next_seq t\<rparr>)"
      using ingest_loop[OF assms(1,2) ops d fits run pos, of "next_seq t"] ws es assms(4) by simp
    moreover have "e_sequence (hd (prepare_write t p)) = next_seq t" "prepare_write t p \<noteq> []"
      using ws es by (cases ?ws; simp)+
    moreover have "t2\<lparr>next_seq := next_seq t + 1\<rparr> = t2" using n by simp
    ultimately show ?thesis
      using run n one by (simp add: apply_ingest_def apply_writes_def Let_def next_seq_patch)
  next
    case True
    let ?t1 = "apply_bulk_marker t" and ?wc = "write_count p"
    let ?b = "\<lparr>e_sequence = next_seq t, e_type = BulkBegin, e_key = [], e_value = []\<rparr>"
    let ?en = "\<lparr>e_sequence = next_seq t + 1 + ?wc, e_type = BulkEnd, e_key = [], e_value = []\<rparr>"
    have wb: "write_bytes p = 38 + sum_list (map op_bytes ?ws)"
      using True by (simp add: write_bytes_def write_count_def)
    have b1: "write_post t 19 (kd_get (key_dir t)) ?t1"
      using assms(3) wb by (intro apply_bulk_ok[OF assms(1)]) (simp add: plan_fits_def)
    then have t1: "state_inv ?t1" "active_file_id ?t1 = ?act" "next_seq ?t1 = next_seq t + 1"
      "extent ?t1 ?act = ?ext + 19"
      by (simp_all add: write_post_def same_frame_def)
    note res = resolved_ok_bulk[OF assms(2) b1]
    have es: "prepare_write t p = ?b # op_entries (next_seq ?t1) ?ws @ [?en]"
      using True t1 by (simp add: prepare_write_def Let_def)
    have offs: "offs = ?ext # entry_offsets (extent ?t1 (active_file_id ?t1)) (op_entries (next_seq ?t1) ?ws @ [?en])"
      using t1 es assms(4) by (simp add: entry_size_def)
    then have d: "drop 1 offs = entry_offsets (extent ?t1 (active_file_id ?t1)) (op_entries (next_seq ?t1) ?ws @ [?en])"
      by simp
    have fits: "next_seq ?t1 + length ?ws \<le> 2 ^ 48" "active_file_id ?t1 \<le> kMaxFileId"
        "extent ?t1 (active_file_id ?t1) + sum_list (map op_bytes ?ws) \<le> 2 ^ 32"
      using assms(3) wb t1 by (simp_all add: plan_fits_def write_count_def)
    from apply_write_loop_ok[OF t1(1) res ops d fits, of rk 0] obtain t2 where
      run: "apply_write_loop rk p offs 0 1 ?ws ?t1 = Inr t2" and n: "next_seq t2 = next_seq t + 1 + ?wc"
      using t1 by (auto simp: loop_post_def write_count_def)
    have inner: "apply_ingest_loop rk (zip (op_entries (next_seq ?t1) ?ws)
        (entry_offsets (extent ?t1 (active_file_id ?t1)) (op_entries (next_seq ?t1) ?ws)))
        (next_seq t) (?t1\<lparr>next_seq := next_seq t\<rparr>)
      = Inr (next_seq t2 - 1, t2\<lparr>next_seq := next_seq t\<rparr>)"
      using ingest_loop[OF t1(1) res ops d fits run, of "next_seq t" "next_seq t"] ws t1 by simp
    let ?eo = "extent ?t1 (active_file_id ?t1) + entries_size (op_entries (next_seq ?t1) ?ws)"
    have "zip (prepare_write t p) offs = (?b, ?ext) #
        zip (op_entries (next_seq ?t1) ?ws)
          (entry_offsets (extent ?t1 (active_file_id ?t1)) (op_entries (next_seq ?t1) ?ws)) @ [(?en, ?eo)]"
      unfolding es offs by (simp add: entry_offsets_append)
    moreover have "apply_ingest_entry rk ?b ?ext t = Inr (?t1\<lparr>next_seq := next_seq t\<rparr>)"
      using ingest_bulk[where e = ?b and off = ?ext and t = t and n = "next_seq t"] by simp
    moreover have "apply_ingest_entry rk ?en ?eo (t2\<lparr>next_seq := next_seq t\<rparr>) =
        Inr ((apply_bulk_marker t2)\<lparr>next_seq := next_seq t\<rparr>)"
      by (rule ingest_bulk) simp
    ultimately have loop: "apply_ingest_loop rk (zip (prepare_write t p) offs) 0 t =
        Inr (next_seq t + 1 + ?wc, (apply_bulk_marker t2)\<lparr>next_seq := next_seq t\<rparr>)"
      using inner pos n by (simp add: apply_ingest_loop_append del: apply_ingest_entry.simps)
    have same: "(apply_bulk_marker t2)\<lparr>next_seq := Suc (Suc (next_seq t + ?wc))\<rparr> = apply_bulk_marker t2"
      using n by (simp add: apply_bulk_marker_def Let_def)
    have "next_seq (apply_bulk_marker t2) = Suc (Suc (next_seq t + ?wc))"
      using n by (simp add: apply_bulk_marker_def Let_def)
    then show ?thesis
      using run loop True es by (simp add: apply_ingest_def apply_writes_def Let_def same)
  qed
qed

theorem ingest_prepared_is_apply_writes_witness:
  "apply_ingest True (prepare_write (transient demo_state) demo_plan)
      (entry_offsets 0 (prepare_write (transient demo_state) demo_plan)) (transient demo_state) =
   apply_writes True demo_plan
      (entry_offsets 0 (prepare_write (transient demo_state) demo_plan)) (transient demo_state) \<and>
   state_inv (transient demo_state) \<and> plan_fits (transient demo_state) demo_plan"
proof -
  have "extent (transient demo_state) (active_file_id (transient demo_state)) = 0"
    by (simp add: demo_state_def EngineState_new_def transient_def EngineState.defs extent_def fs_get_def
        FileStats_empty_def)
  then show ?thesis
    using ingest_prepared_is_apply_writes[OF demo_state_inv demo_plan_ok refl, of True]
      demo_state_inv demo_plan_ok by simp
qed

end
