(* ===== verification/Commit.thy ===== *)
theory Commit
  imports Rotation Conflicts Ingest
begin

text \<open>
  The commit pipeline (\<^verbatim>\<open>db_commit.cpp\<close>). Stage 1, \<^verbatim>\<open>execute_slots\<close>, validates and applies a batch of
  plans to the head and appends their entries with one write; stage 2, \<^verbatim>\<open>flush_pending\<close>, syncs the
  file when the head owes it and publishes the head. A slot is updated by the functions that take
  it by reference, so they return it. Timings, counters and wake-ups are left out.
\<close>

record CommitResult =
  sequence :: nat
  durable :: bool

record WriteOptions =
  sync :: bool
  solo :: bool

record EngineSlot =
  slot_plan :: WritePlan
  slot_opts :: WriteOptions
  slot_result :: "CommitResult option"
  slot_err :: "error option"
  slot_rests_on :: nat
  slot_sync_through :: nat

abbreviation (input) kMaxBatchBytes :: nat where "kMaxBatchBytes \<equiv> 2 ^ 30"
abbreviation (input) kMaxFileBytes :: nat where "kMaxFileBytes \<equiv> 3 * 2 ^ 30"
abbreviation (input) max_group_file_bytes :: nat where "max_group_file_bytes \<equiv> 2 ^ 32"

definition empty_result :: CommitResult where
  "empty_result = \<lparr>sequence = 0, durable = False\<rparr>"

definition new_slot :: "WritePlan \<Rightarrow> WriteOptions \<Rightarrow> EngineSlot" where
  "new_slot p o1 = \<lparr>slot_plan = p, slot_opts = o1, slot_result = None, slot_err = None,
     slot_rests_on = 0, slot_sync_through = 0\<rparr>"

section \<open>Flushing\<close>

definition flush_failed :: "error \<Rightarrow> EngineState \<Rightarrow> (unit, db) io" where
  "flush_failed ex pub =
    io_bind (io_modify (\<lambda>d. d\<lparr>flush_error := Some ex\<rparr>)) (\<lambda>_.
      degrade_from pub ''commit fdatasync failed: bytes in page cache but durability not confirmed'')"

text \<open>
  In three steps, because other threads run stage 1 between them: the capture of the head and the
  published state (\<^term>\<open>None\<close> when there is nothing to flush), the sync, and the publication of the
  captured head.
\<close>

record flush_job =
  job_head :: EngineState
  job_published :: EngineState
  job_sync :: bool

definition flush_capture :: "db \<Rightarrow> flush_job option" where
  "flush_capture d =
    (let need_sync = sync_requested_seq (head d) > durable_seq (published d) in
     if refused (published d) d then None
     else if next_seq (head d) \<le> next_seq (published d) \<and> \<not> need_sync then None
     else Some \<lparr>job_head = head d, job_published = published d, job_sync = need_sync\<rparr>)"

definition flush_sync :: "flush_job \<Rightarrow> (bool, db) io" where
  "flush_sync j =
    (if job_sync j then
       io_try (io_bind (sync_file (active_path (job_head j))) (\<lambda>_. io_ret True))
         (\<lambda>ex. io_bind (flush_failed ex (job_published j)) (\<lambda>_. io_ret False))
     else io_ret True)"

definition flush_publish :: "build \<Rightarrow> flush_job \<Rightarrow> (unit, db) io" where
  "flush_publish b j =
    io_bind io_point (\<lambda>_.
      let h = job_head j; p = job_published j;
          pub = h\<lparr>durable_seq := (if job_sync j then next_seq h - 1 else durable_seq p)\<rparr>
      in io_modify (store_state b p pub))"

definition flush_pending :: "build \<Rightarrow> (unit, db) io" where
  "flush_pending b =
    io_bind (io_get flush_capture) (\<lambda>job. case job of
        None \<Rightarrow> io_ret ()
      | Some j \<Rightarrow> io_bind (flush_sync j) (\<lambda>ok. if ok then flush_publish b j else io_ret ()))"

definition flush_threw :: "error \<Rightarrow> (unit, db) io" where
  "flush_threw ex = io_bind (io_modify (\<lambda>d. d\<lparr>flush_error := Some ex\<rparr>)) (\<lambda>_. refuse_writes)"

definition flush_once :: "build \<Rightarrow> (unit, db) io" where
  "flush_once b = io_try (flush_pending b) flush_threw"

text \<open>
  \<^verbatim>\<open>quiesce()\<close> flushes and returns holding the flush role; the role's destructor resets the head to
  the published state, whichever way the code that holds it ends.
\<close>

definition quiesce :: "build \<Rightarrow> (unit, db) io" where
  "quiesce b = io_try (flush_pending b) (\<lambda>ex. io_bind (flush_threw ex) (\<lambda>_. io_throw ex))"

definition with_role :: "build \<Rightarrow> ('a, db) io \<Rightarrow> ('a, db) io" where
  "with_role b m = io_bind (quiesce b) (\<lambda>_ d. case m d of (r, d') \<Rightarrow> (r, store_head (published d') d'))"

section \<open>Stage 1: one slot\<close>

type_synonym stage = "TransientEngineState \<times> DataEntry list \<times> nat"

definition execute_slot ::
  "build \<Rightarrow> nat \<Rightarrow> bool \<Rightarrow> EngineSlot \<Rightarrow> stage \<Rightarrow> (EngineSlot \<times> stage) result" where
  "execute_slot b threshold can_rotate slot st =
    (case st of (t, all_entries, running_offset) \<Rightarrow>
     let p = slot_plan slot; rk = b_reads_keys b in
     if plan_empty p then Inr (slot\<lparr>slot_result := Some empty_result\<rparr>, st)
     else
       let checked = can_apply_puts_checked rk p; v = validate_preconditions rk t p checked in
       if \<not> fst v then Inr (slot\<lparr>slot_rests_on := snd v, slot_result := None\<rparr>, st)
       else
         let entries = prepare_write t p in
         if entries = [] then Inr (slot\<lparr>slot_rests_on := snd v, slot_result := Some empty_result\<rparr>, st)
         else if e_sequence (last entries) > kMaxSequence
         then Inr (slot\<lparr>slot_err := Some (RuntimeError ''sequence space exhausted'')\<rparr>, st)
         else if \<not> can_rotate \<and> running_offset + write_bytes p \<ge> threshold
         then Inr (slot\<lparr>slot_err := Some file_ids_exhausted\<rparr>, st)
         else
           let offsets = entry_offsets running_offset entries;
               next_offset = running_offset +
                 sum_list (map (\<lambda>e. entry_size (length (e_key e)) (length (e_value e))) entries);
               done = (\<lambda>t'. Inr (slot\<lparr>slot_result := Some \<lparr>sequence = e_sequence (last entries), durable = False\<rparr>\<rparr>,
                         (t', all_entries @ entries, next_offset)))
           in if checked then
                rbind (apply_puts_checked rk p offsets t) (\<lambda>(applied, t1).
                  if applied then done t1
                  else let v1 = validate_preconditions rk t1 p False in
                    if \<not> fst v1 then Inr (slot\<lparr>slot_rests_on := snd v1, slot_result := None\<rparr>, (t1, all_entries, running_offset))
                    else rbind (apply_writes rk p offsets t1) done)
              else rbind (apply_writes rk p offsets t) done)"

section \<open>Stage 1: a group\<close>

text \<open>Phase 1: the slots the group takes, those it leaves, what they produced, and whether one syncs.\<close>

fun group_loop ::
  "build \<Rightarrow> nat \<Rightarrow> bool \<Rightarrow> EngineSlot list \<Rightarrow> EngineSlot list \<Rightarrow> bool \<Rightarrow> stage \<Rightarrow>
   (EngineSlot list \<times> EngineSlot list \<times> bool \<times> stage) result" where
  "group_loop b thr can_rotate [] taken any_sync st = Inr (taken, [], any_sync, st)"
| "group_loop b thr can_rotate (slot # batch) taken any_sync st =
    (if taken \<noteq> [] \<and> snd (snd st) + write_bytes (slot_plan slot) > max_group_file_bytes
     then Inr (taken, slot # batch, any_sync, st)
     else rbind (execute_slot b thr can_rotate slot st) (\<lambda>(slot', st').
       group_loop b thr can_rotate batch (taken @ [slot']) (any_sync \<or> sync (slot_opts slot)) st'))"

text \<open>A sync slot that appended nothing waits for the head's last sequence.\<close>

definition sync_only :: "EngineState \<Rightarrow> nat \<Rightarrow> EngineSlot \<Rightarrow> bool" where
  "sync_only pub head_last_seq slot \<longleftrightarrow> sync (slot_opts slot) \<and>
     (case slot_result slot of None \<Rightarrow> False | Some r \<Rightarrow> sequence r = 0) \<and> head_last_seq > durable_seq pub"

definition mark_sync_only :: "EngineState \<Rightarrow> nat \<Rightarrow> EngineSlot \<Rightarrow> EngineSlot" where
  "mark_sync_only pub head_last_seq slot =
    (if sync_only pub head_last_seq slot then slot\<lparr>slot_sync_through := head_last_seq\<rparr> else slot)"

definition fail_slots :: "error \<Rightarrow> EngineSlot list \<Rightarrow> EngineSlot list" where
  "fail_slots ex = map (\<lambda>s. if slot_err s = None then s\<lparr>slot_err := Some ex\<rparr> else s)"

definition set_durable :: "(EngineSlot \<Rightarrow> CommitResult \<Rightarrow> bool) \<Rightarrow> EngineSlot list \<Rightarrow> EngineSlot list" where
  "set_durable f = map (\<lambda>s. s\<lparr>slot_result := map_option (\<lambda>r. r\<lparr>durable := f s r\<rparr>) (slot_result s)\<rparr>)"

definition is_rotation_needed :: "db \<Rightarrow> TransientEngineState \<Rightarrow> nat \<Rightarrow> bool" where
  "is_rotation_needed d t threshold \<longleftrightarrow> f_size (file_at (active_path t) d) \<ge> threshold"

text \<open>The rotation branch, run under the flush role.\<close>

definition commit_rotate ::
  "build \<Rightarrow> TransientEngineState \<Rightarrow> EngineSlot list \<Rightarrow> bool \<Rightarrow> nat \<Rightarrow> (EngineSlot list, db) io" where
  "commit_rotate b t batch any_sync batch_max_seq =
    (let old_path = active_path t in
     io_bind (io_get id) (\<lambda>d.
     let pub = published d in
     if refused pub d then
       io_ret (fail_slots (case flush_error d of Some ex \<Rightarrow> ex | None \<Rightarrow> DbDegraded (degraded_reason_of d)) batch)
     else
     io_bind (io_attempt (sync_file old_path)) (\<lambda>synced. case synced of
       Inl ex \<Rightarrow> io_bind (degrade_from pub ''rotation fdatasync failed'') (\<lambda>_. io_ret (fail_slots ex batch))
     | Inr _ \<Rightarrow>
     io_bind (prepare_rotation b (apply_sync batch_max_seq t)) (\<lambda>(prepared, t1). case prepared of
       Inl ex \<Rightarrow> io_bind (degrade_transient b t1 pub ''post-write rotation failed'') (\<lambda>_. io_ret (fail_slots ex batch))
     | Inr rotation \<Rightarrow>
     io_bind (finish_rotation t1 rotation) (\<lambda>t2.
     io_bind (if any_sync then io_attempt (sync_file old_path) else io_ret (Inr ())) (\<lambda>resynced. case resynced of
       Inl ex \<Rightarrow> io_bind (degrade_from pub ''commit fdatasync failed'') (\<lambda>_. io_ret (fail_slots ex batch))
     | Inr _ \<Rightarrow>
     let t3 = (if any_sync then apply_sync batch_max_seq t2 else t2) in
     io_bind (io_modify (store_state b pub (persistent t3))) (\<lambda>_.
       io_ret (set_durable (\<lambda>s r. durable_seq t3 \<ge> sequence r) batch))))))))"

definition commit_appended ::
  "build \<Rightarrow> TransientEngineState \<Rightarrow> EngineSlot list \<Rightarrow> bool \<Rightarrow> nat \<Rightarrow> (EngineSlot list, db) io" where
  "commit_appended b t batch any_sync batch_max_seq =
    (let t1 = (if any_sync then note_sync_requested batch_max_seq t else t) in
     io_bind (io_get id) (\<lambda>d.
     if \<not> is_rotation_needed d t1 (rotation_threshold d) then
       io_bind (io_modify (store_head (persistent t1))) (\<lambda>_. io_ret batch)
     else with_role b (commit_rotate b t1 batch any_sync batch_max_seq)))"

text \<open>Phases 2 and 3 of a group: the append, then the commit of what was appended.\<close>

definition append_failed :: "build \<Rightarrow> path \<Rightarrow> error \<Rightarrow> EngineSlot list \<Rightarrow> (EngineSlot list, db) io" where
  "append_failed b p ex batch =
    io_bind (io_attempt (sync_file p)) (\<lambda>_.
    io_bind (degrade (with_role b (io_bind io_point (\<lambda>_.
      io_modify (\<lambda>d. store_raw (degraded_copy (published d) ''append IO error: call resume() to recover.'') d))))) (\<lambda>_.
      io_ret (fail_slots ex batch)))"

definition append_group ::
  "build \<Rightarrow> EngineSlot list \<Rightarrow> bool \<Rightarrow> TransientEngineState \<Rightarrow> DataEntry list \<Rightarrow> (EngineSlot list, db) io" where
  "append_group b batch any_sync t entries =
    (let p = active_path t in
     io_bind (io_get scratch_bytes) (\<lambda>scratch.
     io_bind (io_attempt (append_entries (b_crc b) scratch p entries)) (\<lambda>appended. case appended of
       Inl ex \<Rightarrow> append_failed b p ex batch
     | Inr _ \<Rightarrow>
         io_bind (io_attempt (io_bind io_point (\<lambda>_. commit_appended b t batch any_sync (next_seq t - 1)))) (\<lambda>committed.
         case committed of
           Inl ex \<Rightarrow> io_bind refuse_writes (\<lambda>_. io_ret (fail_slots ex batch))
         | Inr batch' \<Rightarrow> io_ret batch'))))"

text \<open>
  A whole group. The first list returned is the slots it ran, the second those left for the next
  group.
\<close>

definition execute_group :: "build \<Rightarrow> EngineSlot list \<Rightarrow> (EngineSlot list \<times> EngineSlot list, db) io" where
  "execute_group b batch =
    io_bind (io_get id) (\<lambda>d.
    let pub = published d in
    case write_refusal pub d of
      Some ex \<Rightarrow> io_ret (map (\<lambda>s. s\<lparr>slot_err := Some ex\<rparr>) batch, [])
    | None \<Rightarrow>
        let t0 = transient (head d); off0 = f_size (file_at (active_path t0) d) in
        io_bind (io_lift (group_loop b (rotation_threshold d) (file_ids_left t0 > 0) batch [] False (t0, [], off0)))
          (\<lambda>(taken, rest, any_sync, t, entries, off).
          let head_last_seq = next_seq t - 1;
              taken' = map (mark_sync_only pub head_last_seq) taken in
          if entries = [] then
            io_bind (if \<exists>s \<in> set taken. sync_only pub head_last_seq s
                     then io_modify (store_head (persistent (note_sync_requested head_last_seq t)))
                     else io_ret ()) (\<lambda>_.
              io_ret (set_durable (\<lambda>s r. slot_sync_through s = 0) taken', rest))
          else
            io_bind (append_group b taken' any_sync t entries) (\<lambda>taken''. io_ret (taken'', rest))))"

text \<open>Every group takes at least one slot, so the batch's length bounds the number of groups.\<close>

fun execute_slots_loop :: "build \<Rightarrow> nat \<Rightarrow> EngineSlot list \<Rightarrow> (EngineSlot list, db) io" where
  "execute_slots_loop b 0 batch = io_ret batch"
| "execute_slots_loop b (Suc n) batch =
    (if batch = [] then io_ret []
     else io_bind (execute_group b batch) (\<lambda>(ran, rest).
          io_bind (execute_slots_loop b n rest) (\<lambda>ran'. io_ret (ran @ ran'))))"

definition execute_slots :: "build \<Rightarrow> EngineSlot list \<Rightarrow> (EngineSlot list, db) io" where
  "execute_slots b batch = execute_slots_loop b (length batch) batch"

section \<open>Stage 2 for one writer\<close>

text \<open>
  \<^verbatim>\<open>commit_wait\<close> with \<^term>\<open>n\<close> rounds at most, for a writer that finds the flush role free: \<^term>\<open>None\<close> when
  the rounds run out, otherwise whether the write is durable.
\<close>

fun commit_wait_loop :: "build \<Rightarrow> nat \<Rightarrow> bool \<Rightarrow> nat \<Rightarrow> (bool option, db) io" where
  "commit_wait_loop b target want_durable 0 = io_ret None"
| "commit_wait_loop b target want_durable (Suc n) =
    io_bind (io_get id) (\<lambda>d.
    let pub = published d in
    if (if want_durable then durable_seq pub \<ge> target else next_seq pub > target)
    then io_ret (Some (durable_seq pub \<ge> target))
    else if flush_error d \<noteq> None then io_throw (the (flush_error d))
    else if refused pub d then io_throw (DbDegraded (degraded_reason_of d))
    else io_bind (flush_once b) (\<lambda>_. commit_wait_loop b target want_durable n))"

definition commit_wait :: "build \<Rightarrow> nat \<Rightarrow> EngineSlot \<Rightarrow> (EngineSlot option, db) io" where
  "commit_wait b n slot =
    (let r = the (slot_result slot);
         target = (if sequence r \<noteq> 0 then sequence r else slot_sync_through slot)
     in io_bind (commit_wait_loop b target (sync (slot_opts slot)) n) (\<lambda>res.
          io_ret (map_option (\<lambda>dur. slot\<lparr>slot_result := Some (r\<lparr>durable := dur\<rparr>)\<rparr>) res)))"

text \<open>
  Waiting for a publication: the writer whose entry it is flushes while this one waits, so what
  the wait sees next is the outcome of that flush.
\<close>

definition wait_published :: "build \<Rightarrow> nat \<Rightarrow> (unit, db) io" where
  "wait_published b sequ =
    io_bind (io_get id) (\<lambda>d.
    if next_seq (published d) > sequ \<or> refused (published d) d \<or> closed (published d) then io_ret ()
    else flush_once b)"

definition settle_unappended :: "build \<Rightarrow> EngineSlot \<Rightarrow> (unit, db) io" where
  "settle_unappended b slot =
    io_bind (io_get published) (\<lambda>pub.
    if slot_rests_on slot = 0 then io_ret ()
    else if next_seq pub > slot_rests_on slot then io_ret ()
    else if fst (validate_preconditions (b_reads_keys b) (transient pub) (slot_plan slot) False)
            = (slot_result slot \<noteq> None) then io_ret ()
    else
      io_bind (wait_published b (slot_rests_on slot)) (\<lambda>_.
      io_bind (io_get id) (\<lambda>d.
      if next_seq (published d) > slot_rests_on slot then io_ret ()
      else io_throw (DbDegraded (degraded_reason_of d)))))"

text \<open>\<^term>\<open>last_state\<close> is the state published when the wait ended, by the condition or the timeout.\<close>

definition durable_sequence :: "nat \<Rightarrow> bool \<Rightarrow> EngineState \<Rightarrow> EngineState \<Rightarrow> nat result" where
  "durable_sequence min_sequ no_wait s last_state =
    (if closed s then Inl DbClosed
     else if min_sequ = 0 \<or> durable_seq s \<ge> min_sequ \<or> no_wait then Inr (durable_seq s)
     else if closed last_state then Inl DbClosed
     else Inr (durable_seq last_state))"

end
