(* ===== verification/Ops.thy ===== *)
theory Ops
  imports Commit
begin

text \<open>
  The calls of \<^verbatim>\<open>DB\<close> and \<^verbatim>\<open>Snapshot\<close>: reads (\<^verbatim>\<open>db.cpp\<close>, \<^verbatim>\<open>db_read.cpp\<close>), writes through the single
  write path, opening after recovery and closing (\<^verbatim>\<open>db.cpp\<close>). A writer here is alone in its batch
  and finds the flush role free; batches of several writers are \<^verbatim>\<open>execute_slots\<close>. Files are named in
  the directory, so a file a snapshot still holds after it was unlinked has to be kept there.
\<close>

section \<open>Reads\<close>

definition path_of :: "EngineState \<Rightarrow> nat \<Rightarrow> path" where
  "path_of s f = (case map_of (files s) f of Some p \<Rightarrow> p | None \<Rightarrow> [])"

text \<open>A file's bytes as a reader sees them: up to its logical end.\<close>

definition bytes_of :: "EngineState \<Rightarrow> db \<Rightarrow> nat \<Rightarrow> bytes" where
  "bytes_of s d f = logged (file_at (path_of s f) d)"

definition short_read :: error where
  "short_read = SystemError True ''bytecask: short read''"

definition read_value :: "crc_fn \<Rightarrow> bytes \<Rightarrow> nat \<Rightarrow> nat \<Rightarrow> nat \<Rightarrow> bool \<Rightarrow> bytes result" where
  "read_value crc file off ks vs verify =
    (if verify then
       (let total = kHeaderSize + ks + vs + kCrcSize; raw = take total (drop off file) in
        if off + total > length file then Inl short_read
        else rbind (parse_header_and_verify crc raw) (\<lambda>_. Inr (take vs (drop (kHeaderSize + ks) raw))))
     else
       (let at = off + kHeaderSize + ks in
        if at + vs > length file then Inl short_read else Inr (take vs (drop at file))))"

text \<open>\<^verbatim>\<open>lend_record\<close>: the record framed by its own header.\<close>

definition fetch_record :: "crc_fn \<Rightarrow> bytes \<Rightarrow> nat \<Rightarrow> bool \<Rightarrow> DataEntry result" where
  "fetch_record crc file off verify =
    (if off + kHeaderSize > length file then Inl short_read
     else let h = read_header (take kHeaderSize (drop off file)); total = header_record_bytes h in
     if off + total > length file then Inl (RuntimeError ''bytecask: record past the end of the file'')
     else record_view crc (take total (drop off file)) h verify)"

definition state_get :: "build \<Rightarrow> db \<Rightarrow> EngineState \<Rightarrow> bool \<Rightarrow> key \<Rightarrow> bytes option result" where
  "state_get b d s verify k =
    (case kd_get (key_dir s) k of
       None \<Rightarrow> Inr None
     | Some e \<Rightarrow>
         let file = bytes_of s d (kde_file_id e) in
         if b_reads_keys b then
           rbind (fetch_record (b_crc b) file (kde_file_offset e) verify) (\<lambda>r. Inr (Some (e_value r)))
         else if kde_value_size e = 0 then Inr (Some [])
         else rbind (narrow 16 (length k)) (\<lambda>ks.
              rbind (read_value (b_crc b) file (kde_file_offset e) ks (kde_value_size e) verify) (\<lambda>v.
                Inr (Some v))))"

text \<open>The state a read uses: the published one, unless it is closed.\<close>

definition load_state_for_read :: "db \<Rightarrow> EngineState result" where
  "load_state_for_read d = (if closed (published d) then Inl DbClosed else Inr (published d))"

definition db_get :: "build \<Rightarrow> bool \<Rightarrow> key \<Rightarrow> db \<Rightarrow> bytes option result" where
  "db_get b verify k d = rbind (load_state_for_read d) (\<lambda>s. state_get b d s verify k)"

definition db_contains_key :: "key \<Rightarrow> db \<Rightarrow> bool result" where
  "db_contains_key k d = rbind (load_state_for_read d) (\<lambda>s. Inr (kd_contains (key_dir s) k))"

definition snapshot :: "db \<Rightarrow> EngineState result" where
  "snapshot d = load_state_for_read d"

text \<open>Ranges: an iterator is the list of what it yields; an entry iterator reads a record at each step.\<close>

definition iter_from :: "build \<Rightarrow> db \<Rightarrow> EngineState \<Rightarrow> bool \<Rightarrow> key \<Rightarrow> DataEntry result list" where
  "iter_from b d s verify frm =
    map (\<lambda>(k, e). fetch_record (b_crc b) (bytes_of s d (kde_file_id e)) (kde_file_offset e) verify)
      (if frm = [] then key_dir s else kd_lower_bound (key_dir s) frm)"

definition keys_from :: "EngineState \<Rightarrow> key \<Rightarrow> key list" where
  "keys_from s frm = map fst (if frm = [] then key_dir s else kd_lower_bound (key_dir s) frm)"

text \<open>The keys before the iterator at the upper bound, from the last one down.\<close>

definition before_upper_bound :: "key_dir \<Rightarrow> key \<Rightarrow> (key \<times> KeyDirEntry) list" where
  "before_upper_bound kd frm = rev (take (length kd - length (kd_upper_bound kd frm)) kd)"

definition riter_from :: "build \<Rightarrow> db \<Rightarrow> EngineState \<Rightarrow> bool \<Rightarrow> key \<Rightarrow> DataEntry result list" where
  "riter_from b d s verify frm =
    map (\<lambda>(k, e). fetch_record (b_crc b) (bytes_of s d (kde_file_id e)) (kde_file_offset e) verify)
      (if frm = [] then rev (key_dir s) else before_upper_bound (key_dir s) frm)"

definition rkeys_from :: "EngineState \<Rightarrow> key \<Rightarrow> key list" where
  "rkeys_from s frm = map fst (if frm = [] then rev (key_dir s) else before_upper_bound (key_dir s) frm)"

definition count_keys :: "EngineState \<Rightarrow> key \<Rightarrow> key \<Rightarrow> nat \<Rightarrow> nat result" where
  "count_keys s frm to limit =
    rbind (check_range frm to) (\<lambda>_. Inr (if limit = 0 then 0 else kd_count (key_dir s) frm to limit))"

section \<open>Writes\<close>

text \<open>
  One batch of one slot: \<^verbatim>\<open>submit\<close> records an exception of the executor in the slot and rethrows the
  slot's error.
\<close>

definition submit :: "build \<Rightarrow> EngineSlot \<Rightarrow> (EngineSlot, db) io" where
  "submit b slot =
    io_bind (io_attempt (execute_slots b [slot])) (\<lambda>r.
      let slot' = (case r of Inl e \<Rightarrow> slot\<lparr>slot_err := Some e\<rparr> | Inr ss \<Rightarrow> (case ss of [] \<Rightarrow> slot | s # _ \<Rightarrow> s)) in
      case slot_err slot' of Some e \<Rightarrow> io_throw e | None \<Rightarrow> io_ret slot')"

text \<open>
  \<^term>\<open>None\<close> when the rounds \<^term>\<open>n\<close> given to \<^verbatim>\<open>commit_wait\<close> run out; otherwise the result, which is
  \<^term>\<open>None\<close> again for a plan that lost a conflict.
\<close>

definition apply_batch :: "build \<Rightarrow> nat \<Rightarrow> WriteOptions \<Rightarrow> WritePlan \<Rightarrow> (CommitResult option option, db) io" where
  "apply_batch b n opts p =
    io_bind (io_get id) (\<lambda>d.
    case write_refusal (published d) d of Some e \<Rightarrow> io_throw e
    | None \<Rightarrow>
    if write_bytes p > kMaxBatchBytes then io_throw (InvalidArgument ''write plan exceeds the limit of bytes per write'')
    else if plan_empty p \<and> \<not> sync opts then io_ret (Some (Some \<lparr>sequence = 0, durable = True\<rparr>))
    else
      io_bind (submit b (new_slot (resolve_snapshot_entries p) opts)) (\<lambda>slot.
      io_bind (case slot_result slot of
          None \<Rightarrow> io_ret (Some slot)
        | Some r \<Rightarrow> if sequence r \<noteq> 0 \<or> slot_sync_through slot \<noteq> 0 then commit_wait b n slot
            else io_ret (Some slot)) (\<lambda>waited.
      case waited of
        None \<Rightarrow> io_ret None
      | Some slot' \<Rightarrow> io_bind (settle_unappended b slot') (\<lambda>_. io_ret (Some (slot_result slot'))))))"

definition db_put :: "build \<Rightarrow> nat \<Rightarrow> WriteOptions \<Rightarrow> key \<Rightarrow> bytes \<Rightarrow> (CommitResult option option, db) io" where
  "db_put b n opts k v =
    io_bind (io_get size_limits) (\<lambda>l.
    io_bind (io_lift (plan_put k v (WritePlan_new l))) (apply_batch b n opts))"

definition db_del :: "build \<Rightarrow> nat \<Rightarrow> WriteOptions \<Rightarrow> key \<Rightarrow> (CommitResult option option, db) io" where
  "db_del b n opts k =
    io_bind (io_get size_limits) (\<lambda>l.
    io_bind (io_lift (rbind (ensure_present k (WritePlan_new l)) (plan_del k))) (apply_batch b n opts))"

definition db_del_range :: "build \<Rightarrow> nat \<Rightarrow> WriteOptions \<Rightarrow> key \<Rightarrow> key \<Rightarrow> (CommitResult option option, db) io" where
  "db_del_range b n opts frm to =
    io_bind (io_get size_limits) (\<lambda>l.
    io_bind (io_lift (plan_del_range frm to (WritePlan_new l))) (apply_batch b n opts))"

definition db_mode :: "db \<Rightarrow> Mode" where
  "db_mode d = mode (published d)"

definition is_degraded :: "db \<Rightarrow> bool" where
  "is_degraded d = refused (published d) d"

section \<open>Opening and closing\<close>

record Options =
  max_file_bytes :: nat
  recovery_threads :: nat
  fail_recovery_on_crc_errors :: bool
  initial_mode :: Mode
  opt_max_key_bytes :: nat
  opt_max_value_bytes :: nat
  opt_max_hint_backlog :: nat
  thread_scratch_bytes :: nat
  buffer_pool_bytes :: "nat option"

abbreviation (input) kMaxKeySize :: nat where "kMaxKeySize \<equiv> 65535"
abbreviation (input) kMinThreadScratchBytes :: nat where "kMinThreadScratchBytes \<equiv> 256 * 1024"

text \<open>The settings the constructor refuses.\<close>

definition check_options :: "Options \<Rightarrow> unit result" where
  "check_options o1 =
    rbind (guard (\<not> opt_max_key_bytes o1 > kMaxKeySize) (InvalidArgument ''max_key_bytes exceeds the hard ceiling'')) (\<lambda>_.
    rbind (guard (\<not> opt_max_value_bytes o1 > kMaxValueSize) (InvalidArgument ''max_value_bytes exceeds the hard ceiling'')) (\<lambda>_.
    rbind (guard (\<not> max_file_bytes o1 > kMaxFileBytes) (InvalidArgument ''max_file_bytes exceeds the hard ceiling'')) (\<lambda>_.
    rbind (guard (\<not> thread_scratch_bytes o1 < kMinThreadScratchBytes) (InvalidArgument ''thread_scratch_bytes is below the minimum'')) (\<lambda>_.
    rbind (guard (recovery_threads o1 \<noteq> 0) (InvalidArgument ''recovery needs at least one thread'')) (\<lambda>_.
      case buffer_pool_bytes o1 of
        None \<Rightarrow> Inr ()
      | Some c \<Rightarrow> guard (\<not> c < 2 * max_file_bytes o1) (InvalidArgument ''buffer_pool.capacity_bytes must be at least 2 x max_file_bytes''))))))"

text \<open>The constructor after recovery: a new active file, everything recovered durable, checked, published.\<close>

definition open_active :: "build \<Rightarrow> Options \<Rightarrow> EngineState \<Rightarrow> (unit, db) io" where
  "open_active b o1 s =
    (let act = next_file_id s in
     io_bind create_active_file (\<lambda>p.
       let initial = s\<lparr>active_file_id := act, next_file_id := act + 1,
             files := AList.update act p (files s), file_stats := fs_set act FileStats_empty (file_stats s),
             durable_seq := next_seq s - 1, mode := initial_mode o1\<rparr>
       in io_bind (io_lift (validate_state_consistency b initial)) (\<lambda>_.
            io_modify (store_initial_state initial))))"

text \<open>\<^verbatim>\<open>close()\<close>: the state is published closed whatever failed, and the first failure is thrown.\<close>

definition close_active :: "build \<Rightarrow> TransientEngineState \<Rightarrow> (TransientEngineState \<times> error option, db) io" where
  "close_active b t =
    (let p = active_path t; last_seq = next_seq t - 1 in
     io_bind (io_attempt (sync_file p)) (\<lambda>r. case r of
         Inl e \<Rightarrow> io_ret (t, Some e)
       | Inr _ \<Rightarrow>
           let t1 = apply_sync last_seq t in
           io_bind (io_attempt (io_bind (shrink_to_fit p) (\<lambda>_.
               io_bind (io_get (\<lambda>d. f_size (file_at p d))) (\<lambda>sz.
               if sz > 0 then flush_hints_for b p None else io_ret ())))) (\<lambda>r2. case r2 of
             Inl e \<Rightarrow> io_ret (t1, Some e)
           | Inr _ \<Rightarrow> io_ret (t1, None))))"

definition close_refused :: "EngineState \<Rightarrow> TransientEngineState \<Rightarrow> (TransientEngineState \<times> error option, db) io" where
  "close_refused current t =
    io_bind (io_attempt (shrink_to_fit (active_path t))) (\<lambda>_.
      io_ret (t, if durable_seq t < next_seq t - 1
        then Some (DbDegraded ''close: writes were acknowledged but are not durable; the engine was degraded'')
        else None))"

definition db_close :: "build \<Rightarrow> (unit, db) io" where
  "db_close b =
    io_bind (with_role b (
      io_bind (io_get id) (\<lambda>d.
      let current = published d; t = transient current in
      if closed current then io_ret None
      else
        io_bind (if refused current d then close_refused current t else close_active b t) (\<lambda>(t', err).
        io_bind (io_attempt (flush_hints b)) (\<lambda>h.
        let err' = (case h of Inl e \<Rightarrow> if err = None then Some e else err | Inr _ \<Rightarrow> err) in
        io_bind (io_modify (store_state b current (closed_copy (persistent t')))) (\<lambda>_. io_ret err')))))) (\<lambda>err.
      case err of None \<Rightarrow> io_ret () | Some e \<Rightarrow> io_throw e)"

end
