(* ===== verification/Resume.thy ===== *)
theory Resume
  imports Ops
begin

text \<open>
  Leaving the degraded state (\<^verbatim>\<open>db_degraded.cpp\<close>). \<^verbatim>\<open>resume()\<close> rewrites the active file up to its end,
  scans what is committed in it, cuts the rest, seals it and publishes a healthy state whose key
  directory is brought up to what the file holds. A read that fails in the scan is a fault of the
  scan as a whole.
\<close>

definition sync_active_file ::
  "build \<Rightarrow> EngineState \<Rightarrow> TransientEngineState \<Rightarrow> (TransientEngineState, db) io" where
  "sync_active_file b current t =
    io_bind (io_attempt (sync_file (active_path t))) (\<lambda>r. case r of
        Inl e \<Rightarrow> io_bind (degrade_transient b t current
                   ''fdatasync failed: bytes in page cache but durability not confirmed'') (\<lambda>_. io_throw e)
      | Inr _ \<Rightarrow> io_ret (apply_sync (next_seq t - 1) t))"

text \<open>
  One committed entry as the transition takes it. The value's size comes from a 32-bit header
  field, so the narrowing of the source cannot fail.
\<close>

definition to_resume_entry :: "DataEntry \<Rightarrow> nat \<Rightarrow> ResumeEntry" where
  "to_resume_entry e off = \<lparr>r_sequence = e_sequence e, r_type = e_type e, r_file_offset = off,
     r_value_size = length (e_value e), r_key = e_key e,
     r_range_end = (if e_type e = RangeDel then e_value e else []),
     r_marker_id = (if e_type e = ChangeMarker then decode_marker_id (e_value e) else 0)\<rparr>"

text \<open>
  The scan: an entry that does not parse ends it with what was read before; any other exception is
  rethrown, an I/O error above all.
\<close>

definition is_scan_damage :: "error \<Rightarrow> bool" where
  "is_scan_damage e \<longleftrightarrow> (case e of SystemError i msg \<Rightarrow> False | _ \<Rightarrow> is_file_damage e)"

definition resume_scan :: "build \<Rightarrow> path \<Rightarrow> (ResumeEntry list \<times> nat, db) io" where
  "resume_scan b p =
    io_bind io_point (\<lambda>_.
    io_bind (io_get (\<lambda>d. scan_committed (b_crc b) Throw (logged (file_at p d)) 0)) (\<lambda>(es, off, err).
    io_bind (case err of
        None \<Rightarrow> io_ret ()
      | Some e \<Rightarrow> if is_scan_damage e then io_ret () else io_throw e) (\<lambda>_.
      io_ret (map (\<lambda>(e, o1). to_resume_entry e o1) es, off))))"

definition published_extent :: "EngineState \<Rightarrow> nat \<Rightarrow> nat" where
  "published_extent s f = (case fs_get (file_stats s) f of None \<Rightarrow> 0 | Some st \<Rightarrow> unat (total_bytes st))"

text \<open>The active file brought back to its committed prefix, on the device: its entries and its length.\<close>

definition reconcile_active :: "build \<Rightarrow> EngineState \<Rightarrow> path \<Rightarrow> (ResumeEntry list \<times> nat, db) io" where
  "reconcile_active b current p =
    io_bind (io_get (\<lambda>d. f_size (file_at p d))) (\<lambda>sz.
    io_bind (rewrite_durably p sz) (\<lambda>_.
    io_bind (resume_scan b p) (\<lambda>(found, valid_offset).
    if valid_offset < published_extent current (active_file_id current) then
      io_throw (RuntimeError ''resume: the published state references data past the committed prefix'')
    else
    io_bind (io_get (\<lambda>d. length (f_bytes (file_at p d)))) (\<lambda>phys.
    io_bind (if phys \<noteq> valid_offset then truncate_file p valid_offset else io_ret ()) (\<lambda>_.
    io_bind (sync_file p) (\<lambda>_.
      io_ret (found, valid_offset)))))))"

definition resume_state ::
  "TransientEngineState \<Rightarrow> path \<Rightarrow> path \<Rightarrow> nat \<Rightarrow> ResumeEntry list \<Rightarrow> nat \<Rightarrow> EngineState result" where
  "resume_state t ro nf nid found valid_offset =
    rbind (apply_resume (active_file_id t) found valid_offset t) (\<lambda>t1.
      let t2 = apply_rotate_file ro nf nid t1
      in Inr (persistent (apply_clear_degraded (apply_sync (next_seq t2 - 1) t2))))"

definition resume_under_role :: "build \<Rightarrow> (unit, db) io" where
  "resume_under_role b =
    io_bind (io_get id) (\<lambda>d.
    let current = published d in
    if closed current then io_throw DbClosed
    else if \<not> refused current d then io_ret ()
    else
    io_bind (io_modify (store_head current)) (\<lambda>_.
    io_bind (wait_for_hint_backlog b) (\<lambda>_.
    let t = transient current; p = active_path t in
    if file_ids_left t = 0 then io_throw file_ids_exhausted
    else
    io_bind (reconcile_active b current p) (\<lambda>(found, valid_offset).
    io_bind (openDataFileForRead p) (\<lambda>ro.
    io_bind (dispatch_hint ro) (\<lambda>_.
    io_bind (io_lift (reserve_file_id t)) (\<lambda>(nid, t1).
    io_bind create_active_file (\<lambda>nf.
    io_bind (io_lift (resume_state t1 ro nf nid found valid_offset)) (\<lambda>resumed.
    io_bind (io_lift (validate_state_consistency b resumed)) (\<lambda>_.
    io_bind (io_modify (store_state b current resumed)) (\<lambda>_.
      io_modify (\<lambda>d. d\<lparr>flush_error := None, write_fault := False\<rparr>))))))))))))"

definition resume :: "build \<Rightarrow> (unit, db) io" where
  "resume b =
    io_bind (io_get id) (\<lambda>d.
    if closed (published d) then io_throw DbClosed
    else if \<not> refused (published d) d then io_ret ()
    else with_role b (resume_under_role b))"

end
