(* ===== verification/Vacuum.thy ===== *)
theory Vacuum
  imports Complex_Main Resume
begin

text \<open>
  Vacuum (\<^verbatim>\<open>db_vacuum.cpp\<close>): the choice of a fragmented sealed file, its compaction into a copy and
  its removal. The copy is made against a snapshot without the write role, so the definitions take
  the snapshot apart from the state they commit to. The cancel flag is set by another thread: what
  a check of it reads is the next element of the script of faults, any fault being the flag set.
\<close>

section \<open>Choosing a file\<close>

record VacuumOptions =
  fragmentation_threshold :: rat
  retain_after :: nat
  cancel :: bool

definition kNoRetention :: nat where
  "kNoRetention = 2 ^ 64 - 1"

definition vacuum_cancelled :: "VacuumOptions \<Rightarrow> (bool, db) io" where
  "vacuum_cancelled opts =
    (if cancel opts then io_bind next_fault (\<lambda>f. io_ret (f \<noteq> NoFault)) else io_ret False)"

text \<open>
  The quotient of two byte counters as a \<^verbatim>\<open>double\<close>: rounded to 53 significant bits, ties to even.
  Counters of a file are far below \<open>2 ^ 53\<close>, so their own conversion is exact. The quotient is at
  least \<open>2 ^ -64\<close>, so 117 doublings bring it to 53 bits.
\<close>

fun frac_exp :: "nat \<Rightarrow> rat \<Rightarrow> nat" where
  "frac_exp 0 q = 0"
| "frac_exp (Suc n) q = (if 2 ^ 52 \<le> q then 0 else Suc (frac_exp n (2 * q)))"

definition round_even :: "rat \<Rightarrow> int" where
  "round_even q =
    (let f = \<lfloor>q\<rfloor>; r = q - of_int f in
     if r < 1 / 2 then f else if r > 1 / 2 then f + 1 else if even f then f else f + 1)"

definition double_div :: "u64 \<Rightarrow> u64 \<Rightarrow> rat" where
  "double_div x y =
    (if x = 0 then 0
     else let q = of_nat (unat x) / of_nat (unat y); k = frac_exp 117 q
          in of_int (round_even (q * 2 ^ k)) / 2 ^ k)"

definition vacuum_frag :: "FileStats \<Rightarrow> rat" where
  "vacuum_frag fs = double_div (reclaimable_bytes fs) (total_bytes fs)"

definition is_candidate :: "VacuumOptions \<Rightarrow> nat \<Rightarrow> nat \<Rightarrow> FileStats \<Rightarrow> bool" where
  "is_candidate opts active_id fid fs \<longleftrightarrow>
     fid \<noteq> active_id \<and> total_bytes fs \<noteq> 0 \<and> \<not> min_sequence fs > retain_after opts \<and>
     vacuum_frag fs > 0 \<and> vacuum_frag fs > fragmentation_threshold opts"

text \<open>Most fragmented first, the higher file id between equals.\<close>

definition vacuum_candidates :: "VacuumOptions \<Rightarrow> file_stats \<Rightarrow> nat \<Rightarrow> (rat \<times> nat) list" where
  "vacuum_candidates opts stats active_id =
    rev (sort (map (\<lambda>(fid, fs). (vacuum_frag fs, fid))
      (filter (\<lambda>(fid, fs). is_candidate opts active_id fid fs) stats)))"

section \<open>The copy\<close>

definition empty_scan :: VacuumScanResult where
  "empty_scan = \<lparr>sc_cancelled = False, sc_mappings = [], sc_live_bytes = 0, sc_total_bytes = 0,
     sc_min_sequence = 0, sc_max_sequence = 0, sc_tombstone_bytes = 0, sc_marker_bytes = 0,
     sc_change_marker_bytes = 0, sc_tombstones_dropped = 0\<rparr>"

definition track_seq :: "nat \<Rightarrow> VacuumScanResult \<Rightarrow> VacuumScanResult" where
  "track_seq sequ r = r\<lparr>
     sc_min_sequence := (if sc_min_sequence r = 0 then sequ else sc_min_sequence r),
     sc_max_sequence := (if sequ > sc_max_sequence r then sequ else sc_max_sequence r)\<rparr>"

text \<open>What becomes of an entry of the source, and the entry the copy then gets.\<close>

datatype verdict = Live | History | Tombstone | Dropped | Marker | BatchMarker | Gone

definition verdict_of ::
  "EngineState \<Rightarrow> NeededTombstones \<Rightarrow> VacuumOptions \<Rightarrow> nat \<Rightarrow> DataEntry \<Rightarrow> nat \<Rightarrow> verdict" where
  "verdict_of sn needed opts source_id e off =
    (case e_type e of
       Put \<Rightarrow>
         (case kd_get (key_dir sn) (e_key e) of
            Some ex \<Rightarrow>
              if kde_file_id ex = source_id \<and> kde_file_offset ex = off then Live
              else if e_sequence e > retain_after opts then History else Gone
          | None \<Rightarrow> if e_sequence e > retain_after opts then History else Gone)
     | Delete \<Rightarrow> if e_sequence e \<le> retain_after opts \<and> droppable needed (e_sequence e) then Dropped else Tombstone
     | RangeDel \<Rightarrow> if e_sequence e \<le> retain_after opts \<and> droppable needed (e_sequence e) then Dropped else Tombstone
     | ChangeMarker \<Rightarrow> Marker
     | BulkBegin \<Rightarrow> BatchMarker
     | BulkEnd \<Rightarrow> BatchMarker
     | UnknownType x \<Rightarrow> Gone)"

definition copied_entry :: "verdict \<Rightarrow> DataEntry \<Rightarrow> DataEntry" where
  "copied_entry v e =
    (case v of Marker \<Rightarrow> e\<lparr>e_key := []\<rparr> | BatchMarker \<Rightarrow> e\<lparr>e_key := [], e_value := []\<rparr> | _ \<Rightarrow> e)"

text \<open>The counters of the result, for an entry copied to an offset.\<close>

definition count_copied :: "verdict \<Rightarrow> DataEntry \<Rightarrow> nat \<Rightarrow> VacuumScanResult \<Rightarrow> VacuumScanResult" where
  "count_copied v e new_off r =
    (let sz = word_of_nat (entry_size (length (e_key e)) (length (e_value e))) in
     case v of
       Live \<Rightarrow> track_seq (e_sequence e)
         (r\<lparr>sc_live_bytes := sc_live_bytes r + sz, sc_total_bytes := sc_total_bytes r + sz,
            sc_mappings := sc_mappings r @ [\<lparr>m_key = e_key e, m_new_offset = new_off,
              m_sequence = e_sequence e, m_value_size = length (e_value e)\<rparr>]\<rparr>)
     | History \<Rightarrow> track_seq (e_sequence e) (r\<lparr>sc_total_bytes := sc_total_bytes r + sz\<rparr>)
     | Tombstone \<Rightarrow> track_seq (e_sequence e)
         (r\<lparr>sc_total_bytes := sc_total_bytes r + sz, sc_tombstone_bytes := sc_tombstone_bytes r + sz\<rparr>)
     | Marker \<Rightarrow> track_seq (e_sequence e)
         (r\<lparr>sc_total_bytes := sc_total_bytes r + sz, sc_change_marker_bytes := sc_change_marker_bytes r + sz\<rparr>)
     | BatchMarker \<Rightarrow> track_seq (e_sequence e)
         (r\<lparr>sc_total_bytes := sc_total_bytes r + word_of_nat (kHeaderSize + kCrcSize),
            sc_marker_bytes := sc_marker_bytes r + word_of_nat (kHeaderSize + kCrcSize)\<rparr>)
     | _ \<Rightarrow> r)"

definition emit_entry ::
  "build \<Rightarrow> EngineState \<Rightarrow> NeededTombstones \<Rightarrow> VacuumOptions \<Rightarrow> nat \<Rightarrow> path \<Rightarrow> DataEntry \<Rightarrow> nat \<Rightarrow>
   VacuumScanResult \<Rightarrow> (VacuumScanResult, db) io" where
  "emit_entry b sn needed opts source_id dest e off r =
    (let v = verdict_of sn needed opts source_id e off in
     if v = Gone then io_ret r
     else if v = Dropped then io_ret (r\<lparr>sc_tombstones_dropped := sc_tombstones_dropped r + 1\<rparr>)
     else io_bind (append_entry (b_crc b) dest (copied_entry v e)) (\<lambda>new_off.
            io_ret (count_copied v (copied_entry v e) new_off r)))"

fun copy_loop ::
  "build \<Rightarrow> EngineState \<Rightarrow> NeededTombstones \<Rightarrow> VacuumOptions \<Rightarrow> nat \<Rightarrow> path \<Rightarrow> (DataEntry \<times> nat) list \<Rightarrow>
   error option \<Rightarrow> VacuumScanResult \<Rightarrow> (VacuumScanResult, db) io" where
  "copy_loop b sn needed opts source_id dest [] err r =
    (case err of None \<Rightarrow> io_ret r | Some e \<Rightarrow> io_throw e)"
| "copy_loop b sn needed opts source_id dest ((e, off) # es) err r =
    io_bind (vacuum_cancelled opts) (\<lambda>c.
    if c then io_ret (r\<lparr>sc_cancelled := True\<rparr>)
    else io_bind (emit_entry b sn needed opts source_id dest e off r)
           (copy_loop b sn needed opts source_id dest es err))"

definition vacuum_scan_and_copy ::
  "build \<Rightarrow> EngineState \<Rightarrow> NeededTombstones \<Rightarrow> VacuumOptions \<Rightarrow> nat \<Rightarrow> path \<Rightarrow> (VacuumScanResult, db) io" where
  "vacuum_scan_and_copy b sn needed opts source_id dest =
    io_bind io_point (\<lambda>_.
    io_bind (io_get (\<lambda>d. scan_committed (b_crc b) Throw (bytes_of sn d source_id) 0)) (\<lambda>(es, off, err).
      copy_loop b sn needed opts source_id dest es err empty_scan))"

section \<open>Committing\<close>

definition vacuum_commit ::
  "build \<Rightarrow> nat \<Rightarrow> VacuumScanResult \<Rightarrow> path option \<Rightarrow> nat \<Rightarrow> nat \<Rightarrow> (unit, db) io" where
  "vacuum_commit b old sc new_sealed dest decided_at =
    io_bind (io_get id) (\<lambda>d.
    let current = published d; t = transient current in
    io_bind (if durable_seq t < decided_at then
               (if refused current d then io_throw (DbDegraded (degraded_reason_of d))
                else sync_active_file b current t)
             else io_ret t) (\<lambda>t1.
    io_bind (io_lift (apply_vacuum old sc new_sealed dest t1)) (\<lambda>t2.
      io_modify (store_state b current (persistent t2)))))"

definition vacuum_unlink_old_file :: "EngineState \<Rightarrow> nat \<Rightarrow> (unit, db) io" where
  "vacuum_unlink_old_file sn fid =
    (let p = path_of sn fid in
     io_bind (remove_file p) (\<lambda>_. remove_hint (path_stem p)))"

definition vacuum_remove_file :: "build \<Rightarrow> nat \<Rightarrow> (unit, db) io" where
  "vacuum_remove_file b fid =
    io_bind (io_get published) (\<lambda>sn.
    io_bind (with_role b (vacuum_commit b fid empty_scan None 0 (next_seq sn - 1))) (\<lambda>_.
      vacuum_unlink_old_file sn fid))"

section \<open>Compacting a file\<close>

text \<open>
  \<^verbatim>\<open>CopyCleanup\<close>: a removal that fails is ignored. Hint files are named by their stem, so one removal
  stands for the staged hint and the renamed one.
\<close>

definition discard :: "(unit, db) io \<Rightarrow> (unit, db) io" where
  "discard m = io_try m (\<lambda>e. io_ret ())"

definition cleanup_copy :: "string \<Rightarrow> bool \<Rightarrow> (unit, db) io" where
  "cleanup_copy stem renamed =
    (if renamed then io_bind (discard (remove_hint stem)) (\<lambda>_. discard (remove_file (stem @ ''.data'')))
     else discard (remove_file (stem @ ''.data.tmp'')))"

text \<open>Up to the rename: \<^term>\<open>Inl\<close> the early returns of the source, \<^term>\<open>Inr\<close> the scan once the copy is placed.\<close>

definition compact_copy ::
  "build \<Rightarrow> VacuumOptions \<Rightarrow> EngineState \<Rightarrow> nat \<Rightarrow> string \<Rightarrow> (bool + VacuumScanResult, db) io" where
  "compact_copy b opts sn fid stem =
    io_bind (io_get id) (\<lambda>d.
    io_bind (createDataFileForWrite stem ''.data.tmp'' (rotation_threshold d)) (\<lambda>tmp.
    io_bind (vacuum_scan_and_copy b sn (needed_tombstones d) opts fid tmp) (\<lambda>sc.
    if sc_cancelled sc then io_ret (Inl False)
    else
    io_bind (sync_file tmp) (\<lambda>_.
    io_bind (shrink_to_fit tmp) (\<lambda>_.
    let old_total = (case fs_get (file_stats sn) fid of None \<Rightarrow> 0 | Some st \<Rightarrow> total_bytes st) in
    if sc_total_bytes sc \<ge> old_total then io_ret (Inl False)
    else if sc_total_bytes sc = 0 then io_bind (vacuum_remove_file b fid) (\<lambda>_. io_ret (Inl True))
    else io_bind (renameDataFileExclusive tmp (stem @ ''.data'')) (\<lambda>_. io_ret (Inr sc)))))))"

text \<open>The id the copy gets, reserved under the role and published before the file is opened.\<close>

definition reserve_dest :: "build \<Rightarrow> (nat, db) io" where
  "reserve_dest b =
    with_role b (
      io_bind (io_get published) (\<lambda>current.
      io_bind (io_lift (reserve_file_id (transient current))) (\<lambda>(nid, t).
      io_bind (io_modify (store_state b current (persistent t))) (\<lambda>_. io_ret nid))))"

definition compact_publish ::
  "build \<Rightarrow> VacuumOptions \<Rightarrow> EngineState \<Rightarrow> nat \<Rightarrow> string \<Rightarrow> VacuumScanResult \<Rightarrow> (bool, db) io" where
  "compact_publish b opts sn fid stem sc =
    io_bind sync_directory (\<lambda>_.
    io_bind (vacuum_cancelled opts) (\<lambda>c.
    if c then io_ret False
    else
    io_bind (reserve_dest b) (\<lambda>dest.
    io_bind (openDataFileForRead (stem @ ''.data'')) (\<lambda>nf.
    io_bind (flush_hints_for b nf None) (\<lambda>_.
    io_bind (with_role b (vacuum_commit b fid sc (Some nf) dest (next_seq sn - 1))) (\<lambda>_.
      io_ret True))))))"

definition vacuum_compact_file :: "build \<Rightarrow> VacuumOptions \<Rightarrow> nat \<Rightarrow> (bool, db) io" where
  "vacuum_compact_file b opts fid =
    io_bind (io_get published) (\<lambda>sn.
    if next_file_id sn > kMaxFileId then io_throw file_ids_exhausted
    else
    io_bind make_data_file_stem (\<lambda>stem.
    io_bind (io_attempt (compact_copy b opts sn fid stem)) (\<lambda>copied. case copied of
        Inl e \<Rightarrow> io_bind (cleanup_copy stem False) (\<lambda>_. io_throw e)
      | Inr (Inl r) \<Rightarrow> io_bind (cleanup_copy stem False) (\<lambda>_. io_ret r)
      | Inr (Inr sc) \<Rightarrow>
          io_bind (io_attempt (compact_publish b opts sn fid stem sc)) (\<lambda>res. case res of
              Inl e \<Rightarrow> io_bind (cleanup_copy stem True) (\<lambda>_. io_throw e)
            | Inr False \<Rightarrow> io_bind (cleanup_copy stem True) (\<lambda>_. io_ret False)
            | Inr True \<Rightarrow> io_bind (vacuum_unlink_old_file sn fid) (\<lambda>_. io_ret True)))))"

section \<open>The call\<close>

definition droppable_whole :: "VacuumOptions \<Rightarrow> FileStats \<Rightarrow> bool" where
  "droppable_whole opts fs \<longleftrightarrow> live_bytes fs = 0 \<and> tombstone_bytes fs = 0 \<and> change_marker_bytes fs = 0 \<and>
     max_sequence fs \<le> retain_after opts"

fun vacuum_loop :: "build \<Rightarrow> VacuumOptions \<Rightarrow> file_stats \<Rightarrow> (rat \<times> nat) list \<Rightarrow> (bool, db) io" where
  "vacuum_loop b opts stats [] = io_ret False"
| "vacuum_loop b opts stats ((frag, fid) # cs) =
    io_bind (vacuum_cancelled opts) (\<lambda>c.
    if c then io_ret False
    else if droppable_whole opts (the (fs_get stats fid))
    then io_bind (vacuum_remove_file b fid) (\<lambda>_. io_ret True)
    else io_bind (vacuum_compact_file b opts fid) (\<lambda>compacted.
           if compacted then io_ret True else vacuum_loop b opts stats cs))"

definition vacuum :: "build \<Rightarrow> VacuumOptions \<Rightarrow> (bool, db) io" where
  "vacuum b opts =
    io_bind (io_get id) (\<lambda>d.
    if closed (published d) then io_throw DbClosed
    else if refused (published d) d then io_throw (DbDegraded (degraded_reason_of d))
    else
    io_bind (worker_drain b) (\<lambda>_.
    io_bind (io_get published) (\<lambda>s.
      vacuum_loop b opts (file_stats s) (vacuum_candidates opts (file_stats s) (active_file_id s)))))"

end
