(* ===== verification/Replication.thy ===== *)
theory Replication
  imports Resume
begin

text \<open>
  Mode changes, manifests and ingestion (\<^verbatim>\<open>db_replication.cpp\<close>). The id of a promotion's marker comes
  from the entropy source and is an argument. A slice is the list of the entries the caller holds.
\<close>

section \<open>Changing mode\<close>

text \<open>The promotion once the marker is in the file: whatever fails then leaves writes refused.\<close>

definition promote_appended :: "build \<Rightarrow> EngineState \<Rightarrow> TransientEngineState \<Rightarrow> nat \<Rightarrow> nat \<Rightarrow> (unit, db) io" where
  "promote_appended b current t sequ mid =
    io_try (
      io_bind io_point (\<lambda>_.
      io_bind (sync_active_file b current (apply_change_marker sequ mid t)) (\<lambda>t1.
      io_bind (io_get id) (\<lambda>d.
      io_bind (if is_rotation_needed d t1 (rotation_threshold d) \<and> file_ids_left t1 > 0 then
                 io_bind (prepare_rotation b t1) (\<lambda>(prepared, t2). case prepared of
                     Inl e \<Rightarrow> io_bind (degrade_transient b t2 current
                                ''set_mode(Leader) rotation file creation failed: call resume().'') (\<lambda>_. io_throw e)
                   | Inr rotation \<Rightarrow> finish_rotation t2 rotation)
               else io_ret t1) (\<lambda>t3.
        io_modify (store_state b current (persistent (apply_set_mode Leader t3))))))))
      (\<lambda>e. io_bind refuse_writes (\<lambda>_. io_throw e))"

definition promote :: "build \<Rightarrow> nat \<Rightarrow> EngineState \<Rightarrow> (unit, db) io" where
  "promote b mid current =
    io_bind (io_get id) (\<lambda>d.
    let t = transient current; sequ = next_seq t; p = active_path t in
    if refused current d then io_throw (DbDegraded (degraded_reason_of d))
    else if sequ > kMaxSequence then io_throw (RuntimeError ''sequence space exhausted'')
    else
    io_bind (io_attempt (append_entry (b_crc b) p
        \<lparr>e_sequence = sequ, e_type = ChangeMarker, e_key = [], e_value = encode_marker_id mid\<rparr>)) (\<lambda>r. case r of
      Inl e \<Rightarrow>
        io_bind (io_attempt (sync_file p)) (\<lambda>_.
        io_bind (degrade_from current ''set_mode(Leader) marker append IO error: call resume() to recover.'') (\<lambda>_.
          io_throw e))
    | Inr _ \<Rightarrow> promote_appended b current t sequ mid))"

definition step_down :: "build \<Rightarrow> EngineState \<Rightarrow> (unit, db) io" where
  "step_down b current =
    io_bind (io_get id) (\<lambda>d.
    let t = transient current in
    io_bind (if \<not> refused current d \<and> durable_seq t < next_seq t - 1
             then sync_active_file b current t else io_ret t) (\<lambda>t1.
      io_modify (store_state b current (persistent (apply_set_mode Follower t1)))))"

definition set_mode :: "build \<Rightarrow> nat \<Rightarrow> Mode \<Rightarrow> (unit, db) io" where
  "set_mode b mid m =
    with_role b (
      io_bind (io_get published) (\<lambda>current.
      if closed current then io_throw DbClosed
      else if m = mode current then io_ret ()
      else if m = Follower then step_down b current else promote b mid current))"

section \<open>Manifests\<close>

record FileInfo =
  fi_file_id :: nat
  fi_data_path :: path
  fi_hint_stem :: string

record FileManifest =
  fm_snapshot :: EngineState
  fm_files :: "FileInfo list"
  fm_through_sequence :: nat

definition seal_for_manifest :: "build \<Rightarrow> (EngineState \<times> nat, db) io" where
  "seal_for_manifest b =
    io_bind (io_get id) (\<lambda>d.
    let current = published d in
    if closed current then io_throw DbClosed
    else if refused current d then io_throw (DbDegraded (degraded_reason_of d))
    else
    io_bind (sync_active_file b current (transient current)) (\<lambda>t.
    io_bind (prepare_rotation b t) (\<lambda>(prepared, t1). case prepared of
      Inl e \<Rightarrow> io_bind (degrade_transient b t1 current ''create_manifest rotation failed'') (\<lambda>_. io_throw e)
    | Inr rotation \<Rightarrow>
        io_bind (io_try (finish_rotation t1 rotation)
                   (\<lambda>e. io_bind refuse_writes (\<lambda>_. io_throw e))) (\<lambda>t2.
        io_bind (io_modify (store_state b current (persistent t2))) (\<lambda>_.
        io_bind (io_get published) (\<lambda>s. io_ret (s, next_seq t - 1)))))))"

definition manifest_files :: "EngineState \<Rightarrow> FileInfo list" where
  "manifest_files s = map (\<lambda>(f, p). \<lparr>fi_file_id = f, fi_data_path = p, fi_hint_stem = path_stem p\<rparr>)
     (filter (\<lambda>(f, p). f \<noteq> active_file_id s) (files s))"

definition create_manifest :: "build \<Rightarrow> (FileManifest, db) io" where
  "create_manifest b =
    io_bind (with_role b (seal_for_manifest b)) (\<lambda>(s, through).
    io_bind (worker_drain b) (\<lambda>_.
      io_ret \<lparr>fm_snapshot = s, fm_files = manifest_files s, fm_through_sequence = through\<rparr>))"

section \<open>Ingesting: what is refused\<close>

definition ingestion_refusal :: "EngineState \<Rightarrow> db \<Rightarrow> error option" where
  "ingestion_refusal s d =
    (if is_ingestion_allowed s then None
     else if closed s then Some DbClosed
     else if refused s d then Some (DbDegraded (degraded_reason_of d))
     else Some (LogicError ''ingest rejected: engine is not in follower mode''))"

text \<open>One entry of a slice: after it, whether a batch is open and its bytes so far.\<close>

definition check_ingest_entry ::
  "SizeLimits \<Rightarrow> DataEntry \<Rightarrow> nat \<Rightarrow> bool \<Rightarrow> nat \<Rightarrow> (bool \<times> nat) result" where
  "check_ingest_entry lim e previous in_batch batch_bytes =
    rbind (guard (\<not> e_sequence e \<le> previous)
      (InvalidArgument ''ingest: a slice is strictly increasing above its from_sequence'')) (\<lambda>_.
    rbind (guard (is_known_entry_type (e_type e)) (InvalidArgument ''ingest: unknown entry type'')) (\<lambda>_.
    rbind (guard (\<not> (e_type e = ChangeMarker \<and>
             (in_batch \<or> e_key e \<noteq> [] \<or> length (e_value e) \<noteq> kChangeMarkerIdBytes)))
      (InvalidArgument ''ingest: a change marker inside an atomic batch, or malformed'')) (\<lambda>_.
    rbind (check_key_size (length (e_key e)) (max_key_bytes lim)) (\<lambda>_.
    rbind (if e_type e = Put then check_val_size (length (e_value e)) (max_value_bytes lim) else Inr ()) (\<lambda>_.
    rbind (guard (\<not> e_sequence e > kMaxSequence) (InvalidArgument ''ingest: sequence exceeds the limit'')) (\<lambda>_.
    rbind (guard (\<not> (e_type e = BulkBegin \<and> in_batch))
      (InvalidArgument ''ingest: a BulkBegin inside an atomic batch'')) (\<lambda>_.
    let in_batch1 = (in_batch \<or> e_type e = BulkBegin);
        bytes0 = (if e_type e = BulkBegin then 0 else batch_bytes) in
    rbind (guard (\<not> (e_type e = BulkEnd \<and> \<not> in_batch1))
      (InvalidArgument ''ingest: a BulkEnd with no atomic batch open'')) (\<lambda>_.
    let bytes1 = (if in_batch1 then bytes0 + entry_size (length (e_key e)) (length (e_value e)) else bytes0) in
    rbind (guard (\<not> (in_batch1 \<and> bytes1 > kMaxBatchBytes))
      (InvalidArgument ''ingest: atomic batch exceeds the limit'')) (\<lambda>_.
      Inr (in_batch1 \<and> e_type e \<noteq> BulkEnd, bytes1))))))))))"

fun check_ingest_entries ::
  "SizeLimits \<Rightarrow> DataEntry list \<Rightarrow> nat \<Rightarrow> bool \<Rightarrow> nat \<Rightarrow> unit result" where
  "check_ingest_entries lim [] previous in_batch batch_bytes =
    guard (\<not> in_batch) (InvalidArgument ''ingest: the slice ends inside an atomic batch'')"
| "check_ingest_entries lim (e # es) previous in_batch batch_bytes =
    rbind (check_ingest_entry lim e previous in_batch batch_bytes) (\<lambda>(in_batch', batch_bytes').
      check_ingest_entries lim es (e_sequence e) in_batch' batch_bytes')"

text \<open>The source's marker at a sequence: the header's, or the last one of the slice up to there.\<close>

definition source_marker :: "ChangeHeader \<Rightarrow> DataEntry list \<Rightarrow> nat \<Rightarrow> change_marker" where
  "source_marker hdr es at =
    foldl (\<lambda>m e. if e_type e = ChangeMarker
                 then \<lparr>since_sequence = e_sequence e, marker_id = decode_marker_id (e_value e)\<rparr> else m)
      (ch_marker hdr) (takeWhile (\<lambda>e. \<not> e_sequence e > at) es)"

definition check_history :: "ChangeHeader \<Rightarrow> DataEntry list \<Rightarrow> EngineState \<Rightarrow> unit result" where
  "check_history hdr es current =
    (let position = durable_seq current;
         last1 = (if es = [] then ch_from_sequence hdr else e_sequence (last es));
         at = min position last1 in
     rbind (guard (\<not> ch_from_sequence hdr > position) (InvalidArgument ''ingest: a gap'')) (\<lambda>_.
       guard (source_marker hdr es at = state_marker_at current at) DbChangeMarkerMismatch))"

section \<open>Ingesting: chunks\<close>

record IngestChunk =
  ic_end :: nat
  ic_needs_rotation :: bool
  ic_end_size :: nat

fun ingest_chunk_loop :: "nat \<Rightarrow> DataEntry list \<Rightarrow> nat \<Rightarrow> bool \<Rightarrow> nat \<Rightarrow> IngestChunk" where
  "ingest_chunk_loop threshold [] i in_batch file_size =
    \<lparr>ic_end = i, ic_needs_rotation = False, ic_end_size = file_size\<rparr>"
| "ingest_chunk_loop threshold (e # es) i in_batch file_size =
    (let file_size' = file_size + entry_size (length (e_key e)) (length (e_value e));
         in_batch' = (if e_type e = BulkBegin then True else if e_type e = BulkEnd then False else in_batch)
     in if \<not> in_batch' \<and> file_size' \<ge> threshold \<and> es \<noteq> []
        then \<lparr>ic_end = i + 1, ic_needs_rotation = True, ic_end_size = file_size'\<rparr>
        else ingest_chunk_loop threshold es (i + 1) in_batch' file_size')"

definition ingest_chunk :: "nat \<Rightarrow> DataEntry list \<Rightarrow> nat \<Rightarrow> IngestChunk" where
  "ingest_chunk threshold es file_size = ingest_chunk_loop threshold es 0 False file_size"

lemma ingest_chunk_loop_end: "i \<le> ic_end (ingest_chunk_loop thr es i ib sz)"
proof (induction es arbitrary: i ib sz)
  case (Cons e es)
  show ?case using Suc_leD[OF Cons[of "Suc i"]] by (simp add: Let_def)
qed simp

lemma ingest_chunk_pos: "es \<noteq> [] \<Longrightarrow> 0 < ic_end (ingest_chunk thr es sz)"
  unfolding ingest_chunk_def
  using ingest_chunk_loop_end[of 1] by (cases es) (auto simp: Let_def Suc_le_eq)

text \<open>The files the slice will need.\<close>

function count_rotations :: "nat \<Rightarrow> DataEntry list \<Rightarrow> nat \<Rightarrow> nat \<Rightarrow> nat" where
  "count_rotations threshold es file_size rotations =
    (if es = [] then (if file_size \<ge> threshold then rotations + 1 else rotations)
     else let chunk = ingest_chunk threshold es file_size in
       count_rotations threshold (drop (ic_end chunk) es)
         (if ic_needs_rotation chunk then 0 else ic_end_size chunk)
         (if ic_needs_rotation chunk then rotations + 1 else rotations))"
  by pat_completeness auto
termination
  by (relation "measure (\<lambda>(threshold, es, file_size, rotations). length es)") (auto simp: ingest_chunk_pos)

declare count_rotations.simps [simp del]

definition ingest_rotate :: "build \<Rightarrow> EngineState \<Rightarrow> TransientEngineState \<Rightarrow> (TransientEngineState, db) io" where
  "ingest_rotate b current t =
    io_bind (io_attempt (sync_file (active_path t))) (\<lambda>synced. case synced of
      Inl e \<Rightarrow> io_bind (degrade_from current ''ingest rotation fdatasync failed: call resume() to recover.'') (\<lambda>_. io_throw e)
    | Inr _ \<Rightarrow>
        io_bind (prepare_rotation b (apply_sync (next_seq t - 1) t)) (\<lambda>(prepared, t1). case prepared of
          Inl e \<Rightarrow> io_bind (degrade_from current ''ingest post-rotation file creation failed: call resume().'') (\<lambda>_. io_throw e)
        | Inr rotation \<Rightarrow> finish_rotation t1 rotation))"

text \<open>
  One turn of the loop. The flag says whether the chunk reached the file, which decides what an
  exception leaves behind, so the outcome is returned beside it.
\<close>

definition ingest_chunk_step ::
  "build \<Rightarrow> EngineState \<Rightarrow> TransientEngineState \<Rightarrow> DataEntry list \<Rightarrow> bool \<Rightarrow>
   (TransientEngineState result \<times> bool, db) io" where
  "ingest_chunk_step b current t chunk needs_rotation =
    (let p = active_path t in
     io_bind (io_get id) (\<lambda>d.
     case apply_ingest (b_reads_keys b) chunk (entry_offsets (f_size (file_at p d)) chunk) t of
       Inl e \<Rightarrow> io_ret (Inl e, False)
     | Inr t1 \<Rightarrow>
         io_bind (io_attempt (append_entries (b_crc b) (scratch_bytes d) p chunk)) (\<lambda>appended. case appended of
           Inl e \<Rightarrow>
             io_bind (io_attempt (sync_file p)) (\<lambda>_.
             io_bind (degrade_from current ''ingest append IO error: call resume() to recover.'') (\<lambda>_.
               io_ret (Inl e, False)))
         | Inr _ \<Rightarrow>
             if needs_rotation
             then io_bind (io_attempt (ingest_rotate b current t1)) (\<lambda>r. io_ret (r, True))
             else io_ret (Inr t1, True))))"

function ingest_loop ::
  "build \<Rightarrow> EngineState \<Rightarrow> TransientEngineState \<Rightarrow> DataEntry list \<Rightarrow> bool \<Rightarrow>
   (TransientEngineState result \<times> bool, db) io" where
  "ingest_loop b current t es appended =
    (if es = [] then io_ret (Inr t, appended)
     else
       io_bind (io_get id) (\<lambda>d.
       let nxt = ingest_chunk (rotation_threshold d) es (f_size (file_at (active_path t) d)) in
       io_bind (ingest_chunk_step b current t (take (ic_end nxt) es) (ic_needs_rotation nxt)) (\<lambda>(r, a).
       case r of
         Inl e \<Rightarrow> io_ret (Inl e, appended \<or> a)
       | Inr t' \<Rightarrow> ingest_loop b current t' (drop (ic_end nxt) es) (appended \<or> a))))"
  by pat_completeness auto
termination
  by (relation "measure (\<lambda>(b, current, t, es, appended). length es)") (auto simp: ingest_chunk_pos)

declare ingest_loop.simps [simp del]

definition ingest_finish :: "build \<Rightarrow> EngineState \<Rightarrow> TransientEngineState \<Rightarrow> (unit, db) io" where
  "ingest_finish b current t =
    io_bind (io_get id) (\<lambda>d.
    io_bind (if is_rotation_needed d t (rotation_threshold d) then ingest_rotate b current t else io_ret t) (\<lambda>t1.
    io_bind (io_attempt (sync_file (active_path t1))) (\<lambda>synced. case synced of
      Inl e \<Rightarrow> io_bind (degrade_from current ''ingest fdatasync failed: call resume() to recover.'') (\<lambda>_. io_throw e)
    | Inr _ \<Rightarrow>
        io_modify (store_state b current (persistent (apply_sync (next_seq t1 - 1) t1))))))"

definition ingest_write :: "build \<Rightarrow> EngineState \<Rightarrow> DataEntry list \<Rightarrow> (unit, db) io" where
  "ingest_write b current remaining =
    io_bind (ingest_loop b current (transient current) remaining False) (\<lambda>(r, appended).
    io_bind (case r of Inl e \<Rightarrow> io_ret (Inl e) | Inr t \<Rightarrow> io_attempt (ingest_finish b current t)) (\<lambda>outcome.
    case outcome of
      Inl e \<Rightarrow> io_bind (if appended then refuse_writes else io_ret ()) (\<lambda>_. io_throw e)
    | Inr _ \<Rightarrow> io_ret ()))"

definition ingest_under_role :: "build \<Rightarrow> ChangeHeader \<Rightarrow> DataEntry list \<Rightarrow> (unit, db) io" where
  "ingest_under_role b hdr es =
    io_bind (io_get id) (\<lambda>d.
    let current = published d in
    case ingestion_refusal current d of
      Some e \<Rightarrow> io_throw e
    | None \<Rightarrow>
        io_bind (io_lift (check_history hdr es current)) (\<lambda>_.
        let t = transient current;
            remaining = dropWhile (\<lambda>e. e_sequence e \<le> durable_seq current) es in
        if remaining = [] then io_ret ()
        else if count_rotations (rotation_threshold d) remaining (f_size (file_at (active_path t) d)) 0
                > file_ids_left t then io_throw file_ids_exhausted
        else ingest_write b current remaining))"

definition ingest :: "build \<Rightarrow> ChangeHeader \<Rightarrow> DataEntry list \<Rightarrow> (unit, db) io" where
  "ingest b hdr es =
    io_bind (io_get id) (\<lambda>d.
    let s = published d in
    if \<not> is_ingestion_allowed s then
      io_throw (if closed s then DbClosed
        else if degraded s then DbDegraded (degraded_reason s)
        else LogicError ''ingest rejected: engine is not in follower mode'')
    else if write_fault d then io_throw (DbDegraded kWriteFaultReason)
    else
      io_bind (io_lift (check_ingest_entries (size_limits d) es (ch_from_sequence hdr) False 0)) (\<lambda>_.
        with_role b (ingest_under_role b hdr es)))"

end
