(* ===== verification/KWay.thy ===== *)
theory KWay
  imports Prelude
begin

text \<open>
  Merging ascending runs. The engine merges hint files and trees by repeatedly taking the smallest
  key any cursor sits on, visiting all entries on that key and advancing the cursors they came
  from. The locale states what such a loop promises once its cursors keep their contract: it visits
  every key once, in ascending order, with the entries of all cursors for it.
\<close>

section \<open>The smallest key\<close>

fun least_key :: "'k :: linorder list \<Rightarrow> 'k option" where
  "least_key [] = None"
| "least_key (k # ks) = (case least_key ks of None \<Rightarrow> Some k | Some k' \<Rightarrow> Some (if k' < k then k' else k))"

lemma least_key_mem: "least_key ks = Some k \<Longrightarrow> k \<in> set ks"
  by (induction ks arbitrary: k) (auto split: option.splits if_splits)

lemma least_key_None [simp]: "least_key ks = None \<longleftrightarrow> ks = []"
  by (induction ks) (auto split: option.splits)

lemma least_key_le: "least_key ks = Some k \<Longrightarrow> x \<in> set ks \<Longrightarrow> k \<le> x"
proof (induction ks arbitrary: k)
  case (Cons y ks)
  show ?case
  proof (cases "least_key ks")
    case None
    then show ?thesis using Cons.prems by simp
  next
    case (Some k')
    then show ?thesis using Cons by (auto split: if_splits dest: less_imp_le order.trans)
  qed
qed simp

section \<open>Runs\<close>

type_synonym ('k, 'x) run = "('k \<times> 'x) list"

definition run_keys :: "('k, 'x) run list \<Rightarrow> 'k set" where
  "run_keys xss = (\<Union>xs \<in> set xss. fst ` set xs)"

definition at_key :: "'k \<Rightarrow> ('k, 'x) run list \<Rightarrow> 'x list" where
  "at_key k xss = concat (map (\<lambda>xs. map snd (filter (\<lambda>(k', x). k' = k) xs)) xss)"

definition groups :: "('k :: linorder, 'x) run list \<Rightarrow> ('k \<times> 'x list) list" where
  "groups xss = map (\<lambda>k. (k, at_key k xss)) (sorted_list_of_set (run_keys xss))"

definition run_heads :: "('k, 'x) run list \<Rightarrow> ('k \<times> 'x) list" where
  "run_heads xss = map hd (filter (\<lambda>xs. xs \<noteq> []) xss)"

definition run_tail :: "'k \<Rightarrow> ('k, 'x) run \<Rightarrow> ('k, 'x) run" where
  "run_tail k xs = (case xs of [] \<Rightarrow> [] | (k', x) # ys \<Rightarrow> if k' = k then ys else xs)"

abbreviation ascending :: "('k :: linorder, 'x) run \<Rightarrow> bool" where
  "ascending xs \<equiv> sorted_wrt (<) (map fst xs)"

lemma run_keys_simps [simp]:
  "run_keys [] = {}"
  "run_keys (xs # xss) = fst ` set xs \<union> run_keys xss"
  by (auto simp: run_keys_def)

lemma finite_run_keys [simp]: "finite (run_keys xss)"
  by (simp add: run_keys_def)

lemma at_key_simps [simp]:
  "at_key k [] = []"
  "at_key k (xs # xss) = map snd (filter (\<lambda>(k', x). k' = k) xs) @ at_key k xss"
  by (simp_all add: at_key_def)

lemma run_heads_simps [simp]:
  "run_heads [] = []"
  "run_heads (xs # xss) = (if xs = [] then run_heads xss else hd xs # run_heads xss)"
  by (simp_all add: run_heads_def)

lemma run_heads_keys: "fst ` set (run_heads xss) \<subseteq> run_keys xss"
  by (induction xss) auto

lemma heads_below:
  assumes "list_all ascending xss" and "least_key (map fst (run_heads xss)) = Some k" and "j \<in> run_keys xss"
  shows "k \<le> j"
proof -
  obtain xs where xs: "xs \<in> set xss" "j \<in> fst ` set xs"
    using assms(3) by (auto simp: run_keys_def)
  then have "xs \<noteq> []" by auto
  then obtain x ys where cons: "xs = x # ys" by (meson neq_Nil_conv)
  have "hd xs \<in> set (run_heads xss)"
    using xs(1) cons by (force simp: run_heads_def)
  then have "k \<le> fst (hd xs)"
    using least_key_le[OF assms(2), of "fst (hd xs)"] by simp
  moreover have "ascending xs" using assms(1) xs(1) by (simp add: list_all_iff)
  then have "fst (hd xs) \<le> j" using xs(2) cons by (auto dest: less_imp_le)
  ultimately show ?thesis by (rule order.trans)
qed

lemma filter_key_none: "k \<notin> fst ` set xs \<Longrightarrow> filter (\<lambda>(k', x). k' = k) xs = []"
  by (force simp: filter_empty_conv)

lemma ascending_tail_notin:
  assumes "ascending xs"
  shows "k \<notin> fst ` set (run_tail k xs) \<or> (xs \<noteq> [] \<and> fst (hd xs) \<noteq> k)"
  using assms by (cases xs) (auto simp: run_tail_def split: prod.splits)

lemma at_least_key:
  assumes "list_all ascending xss" and "\<forall>j \<in> run_keys xss. k \<le> j"
  shows "at_key k xss = map snd (filter (\<lambda>(k', x). k' = k) (run_heads xss))"
  using assms
proof (induction xss)
  case (Cons xs xss)
  have IH: "at_key k xss = map snd (filter (\<lambda>(k', x). k' = k) (run_heads xss))"
    using Cons by simp
  show ?case
  proof (cases xs)
    case Nil
    then show ?thesis using IH by simp
  next
    case (Cons x ys)
    have "k < fst y" if "y \<in> set ys" for y
    proof -
      have "k \<le> fst x" using Cons.prems(2) Cons by simp
      also have "fst x < fst y" using Cons.prems(1) Cons that by simp
      finally show ?thesis .
    qed
    then have "filter (\<lambda>(k', x). k' = k) ys = []" by (force simp: filter_empty_conv)
    then show ?thesis using IH Cons by (cases x) simp
  qed
qed simp

lemma run_tail_keys:
  assumes "ascending xs" and "\<forall>j \<in> fst ` set xs. k \<le> j"
  shows "fst ` set (run_tail k xs) = fst ` set xs - {k}"
proof (cases xs)
  case (Cons x ys)
  have gt: "fst x < fst y" if "y \<in> set ys" for y
    using assms(1) Cons that by simp
  have "k \<le> fst x" using assms(2) Cons by simp
  then have "k \<notin> fst ` set ys" using gt by force
  moreover have "fst x \<notin> fst ` set ys" using gt by force
  ultimately show ?thesis using Cons by (cases x) (auto simp: run_tail_def)
qed (simp add: run_tail_def)

lemma tails_keys:
  assumes "list_all ascending xss" and "\<forall>j \<in> run_keys xss. k \<le> j"
  shows "run_keys (map (run_tail k) xss) = run_keys xss - {k}"
  using assms
proof (induction xss)
  case (Cons xs xss)
  then show ?case using run_tail_keys[of xs k] by auto
qed simp

lemma tails_at:
  assumes "j \<noteq> k"
  shows "at_key j (map (run_tail k) xss) = at_key j xss"
proof (induction xss)
  case (Cons xs xss)
  then show ?case using assms by (cases xs) (auto simp: run_tail_def split: prod.splits)
qed simp

lemma ascending_run_tail: "ascending xs \<Longrightarrow> ascending (run_tail k xs)"
  by (cases xs) (auto simp: run_tail_def split: prod.splits)

lemma groups_unfold:
  assumes asc: "list_all ascending xss" and k: "least_key (map fst (run_heads xss)) = Some k"
  shows "groups xss =
    (k, map snd (filter (\<lambda>(k', x). k' = k) (run_heads xss))) # groups (map (run_tail k) xss)"
proof -
  have low: "\<forall>j \<in> run_keys xss. k \<le> j" using heads_below[OF asc k] by blast
  have mem: "k \<in> run_keys xss"
    using least_key_mem[OF k] run_heads_keys[of xss] by auto
  have "Min (run_keys xss) = k"
    using low mem by (intro Min_eqI) auto
  then have "sorted_list_of_set (run_keys xss) = k # sorted_list_of_set (run_keys xss - {k})"
    using mem sorted_list_of_set_nonempty[of "run_keys xss"] by auto
  moreover have "at_key j (map (run_tail k) xss) = at_key j xss" if "j \<in> run_keys xss - {k}" for j
    using that by (simp add: tails_at)
  ultimately show ?thesis
    by (simp add: groups_def tails_keys[OF asc low] at_least_key[OF asc low])
qed

lemma groups_empty: "run_heads xss = [] \<Longrightarrow> groups xss = []"
proof -
  assume "run_heads xss = []"
  then have "run_keys xss = {}" by (induction xss) (auto split: if_splits)
  then show ?thesis by (simp add: groups_def)
qed

section \<open>Advancing the cursors on a key\<close>

fun advance_all :: "('c \<Rightarrow> 's \<Rightarrow> ('c \<times> 's) result) \<Rightarrow> ('c \<Rightarrow> bool) \<Rightarrow> 'c list \<Rightarrow> 's \<Rightarrow> ('c list \<times> 's) result" where
  "advance_all adv sel [] s = Inr ([], s)"
| "advance_all adv sel (c # cs) s =
    rbind (if sel c then adv c s else Inr (c, s)) (\<lambda>(c', s').
    rbind (advance_all adv sel cs s') (\<lambda>(cs', s''). Inr (c' # cs', s'')))"

definition on_head :: "('c \<Rightarrow> ('k, 'x) run) \<Rightarrow> 'k \<Rightarrow> 'c \<Rightarrow> bool" where
  "on_head items k c \<longleftrightarrow> (case items c of [] \<Rightarrow> False | (k', x) # xs \<Rightarrow> k' = k)"

section \<open>The merge\<close>

locale kway_merge =
  fixes good :: "'c \<Rightarrow> bool"
    and items :: "'c \<Rightarrow> ('k :: linorder, 'x) run"
    and adv :: "'c \<Rightarrow> 's \<Rightarrow> ('c \<times> 's) result"
    and view :: "'s \<Rightarrow> 'v"
    and visit :: "'k \<Rightarrow> 'x list \<Rightarrow> 's \<Rightarrow> 's result"
    and vvisit :: "'k \<Rightarrow> 'x list \<Rightarrow> 'v \<Rightarrow> 'v result"
    and loop :: "'c list \<Rightarrow> 's \<Rightarrow> 's result"
  assumes items_ascending: "good c \<Longrightarrow> ascending (items c)"
    and adv_items: "good c \<Longrightarrow> items c = x # xs \<Longrightarrow>
      \<exists>c' s'. adv c s = Inr (c', s') \<and> good c' \<and> items c' = xs \<and> view s' = view s"
    and visit_view: "map_sum id view (visit k ms s) = vvisit k ms (view s)"
    and loop_unfold: "list_all good cs \<Longrightarrow>
      loop cs s = (case least_key (map fst (run_heads (map items cs))) of
          None \<Rightarrow> Inr s
        | Some k \<Rightarrow>
            rbind (visit k (map snd (filter (\<lambda>(k', x). k' = k) (run_heads (map items cs)))) s) (\<lambda>s1.
            rbind (advance_all adv (on_head items k) cs s1) (\<lambda>(cs', s2). loop cs' s2)))"
begin

lemma advance_all_items:
  assumes "list_all good cs"
  shows "\<exists>cs' s'. advance_all adv (on_head items k) cs s = Inr (cs', s') \<and> list_all good cs' \<and>
    map items cs' = map (run_tail k) (map items cs) \<and> view s' = view s"
  using assms
proof (induction cs arbitrary: s)
  case (Cons c cs)
  have good: "good c" using Cons.prems by simp
  show ?case
  proof (cases "on_head items k c")
    case True
    then obtain x xs where it: "items c = (k, x) # xs"
      by (auto simp: on_head_def split: list.splits prod.splits)
    from adv_items[OF good it, of s] obtain c' s' where
      a: "adv c s = Inr (c', s')" "good c'" "items c' = xs" "view s' = view s" by blast
    from Cons.IH[of s'] Cons.prems obtain cs' s'' where
      "advance_all adv (on_head items k) cs s' = Inr (cs', s'')" "list_all good cs'"
      "map items cs' = map (run_tail k) (map items cs)" "view s'' = view s'" by auto
    then show ?thesis using True a it by (simp add: run_tail_def)
  next
    case False
    from Cons.IH[of s] Cons.prems obtain cs' s'' where
      "advance_all adv (on_head items k) cs s = Inr (cs', s'')" "list_all good cs'"
      "map items cs' = map (run_tail k) (map items cs)" "view s'' = view s" by auto
    moreover have "run_tail k (items c) = items c"
      using False by (auto simp: run_tail_def on_head_def split: list.splits prod.splits)
    ultimately show ?thesis using False good by simp
  qed
qed simp

lemma all_ascending: "list_all good cs \<Longrightarrow> list_all ascending (map items cs)"
  by (induction cs) (auto simp: items_ascending)

lemma loop_groups:
  assumes "list_all good cs"
  shows "map_sum id view (loop cs s) = rfold (\<lambda>(k, xs). vvisit k xs) (groups (map items cs)) (view s)"
  using assms
proof (induction "sum_list (map (length \<circ> items) cs)" arbitrary: cs s rule: less_induct)
  case less
  note good = less.prems
  show ?case
  proof (cases "least_key (map fst (run_heads (map items cs)))")
    case None
    then have "groups (map items cs) = []" by (intro groups_empty) simp
    then show ?thesis using None loop_unfold[OF good] by simp
  next
    case (Some k)
    let ?ms = "map snd (filter (\<lambda>(k', x). k' = k) (run_heads (map items cs)))"
    note unf = groups_unfold[OF all_ascending[OF good] Some]
    have visited: "vvisit k ?ms (view s) = map_sum id view (visit k ?ms s)"
      by (simp add: visit_view)
    show ?thesis
    proof (cases "visit k ?ms s")
      case (Inl e)
      then show ?thesis using loop_unfold[OF good, of s] Some unf visited by simp
    next
      case (Inr s1)
      from advance_all_items[OF good, of k s1] obtain cs' s2 where
        adv': "advance_all adv (on_head items k) cs s1 = Inr (cs', s2)" and good': "list_all good cs'"
        and its: "map items cs' = map (run_tail k) (map items cs)" and vw: "view s2 = view s1" by blast
      have shorter: "sum_list (map (length \<circ> items) cs') < sum_list (map (length \<circ> items) cs)"
      proof -
        have len: "sum_list (map (length \<circ> items) cs0) = sum_list (map length (map items cs0))" for cs0
          by (simp add: comp_def)
        have le: "sum_list (map length (map (run_tail k) xss)) \<le> sum_list (map length xss)" for xss :: "('k, 'x) run list"
          by (induction xss) (auto simp: run_tail_def split: list.splits prod.splits intro: add_le_mono)
        from least_key_mem[OF Some] obtain x where "(k, x) \<in> set (run_heads (map items cs))" by auto
        then have "(k, x) \<in> hd ` {xs \<in> set (map items cs). xs \<noteq> []}"
          by (simp only: run_heads_def set_map set_filter)
        then obtain xs where "xs \<in> set (map items cs)" and hd: "xs \<noteq> []" "hd xs = (k, x)"
          by (elim imageE CollectE conjE) metis
        then obtain as bs where sp: "map items cs = as @ xs # bs" by (auto dest!: split_list)
        have "length (run_tail k xs) < length xs" using hd by (cases xs) (auto simp: run_tail_def)
        then show ?thesis using le[of as] le[of bs] by (simp add: len its sp del: map_map)
      qed
      have "map_sum id view (loop cs s) = map_sum id view (loop cs' s2)"
        using loop_unfold[OF good, of s] Some Inr adv' by simp
      also have "\<dots> = rfold (\<lambda>(k, xs). vvisit k xs) (groups (map items cs')) (view s2)"
        using less.hyps[OF shorter good'] .
      finally show ?thesis using unf visited Inr by (simp add: its vw)
    qed
  qed
qed

end

section \<open>What the groups hold\<close>

lemma groups_ascending: "sorted_wrt (<) (map fst (groups xss))"
proof -
  have "map fst (groups xss) = sorted_list_of_set (run_keys xss)"
    by (simp add: groups_def comp_def)
  then show ?thesis by simp
qed

lemma groups_mem: "(k, xs) \<in> set (groups xss) \<longleftrightarrow> k \<in> run_keys xss \<and> xs = at_key k xss"
  by (auto simp: groups_def)

lemma at_key_empty: "at_key k xss = [] \<longleftrightarrow> k \<notin> run_keys xss"
  by (induction xss) (force simp: filter_empty_conv)+

lemma groups_nonempty: "(k, xs) \<in> set (groups xss) \<Longrightarrow> xs \<noteq> []"
  by (auto simp: groups_mem at_key_empty)

lemma groups_map_of: "map_of (groups xss) k = (if k \<in> run_keys xss then Some (at_key k xss) else None)"
  by (auto simp: groups_def map_of_map_restrict restrict_map_def)

end
