(* ===== verification/RecoveryLoad.thy ===== *)
theory RecoveryLoad
  imports Resume KWay
begin

text \<open>
  Loading the hint files into a key directory at open (\<^verbatim>\<open>db_recovery.cpp\<close>): the sorted merge of one
  worker's files, the range-partitioned merge of the workers' trees, and the merge of hint streams
  that the blind key directory uses. A cursor is the list of the entries its scanner has left. A
  bulk loader is the list it was given. Threads write to slots of their own, so a parallel loop
  runs its bodies in order and rethrows the first failure.
\<close>

section \<open>What recovery collects\<close>

record RecoveredFile =
  rf_file_id :: nat
  rf_data_file :: path
  rf_total_bytes :: nat

record RangeTombstone =
  rt_start :: key
  rt_end :: key
  rt_seq :: nat
  rt_file_id :: nat
  rt_needed :: bool

record PointTombstone =
  pt_seq :: nat
  pt_file_id :: nat

type_synonym tombstones = "(key \<times> PointTombstone) list"

record RecoveryResult =
  rr_key_dir :: key_dir
  rr_tombstones :: tombstones
  rr_ranges :: "RangeTombstone list"
  rr_max_seq :: nat
  rr_file_stats :: file_stats
  rr_needed :: "nat list"
  rr_skipped :: bool
  rr_markers :: "change_marker list"

definition covers :: "RangeTombstone \<Rightarrow> key \<Rightarrow> bool" where
  "covers rt k \<longleftrightarrow> \<not> k < rt_start rt \<and> k < rt_end rt"

text \<open>The map of point tombstones keeps the newest of a key, in key order.\<close>

fun note_tombstone :: "key \<Rightarrow> PointTombstone \<Rightarrow> tombstones \<Rightarrow> tombstones" where
  "note_tombstone k p [] = [(k, if pt_seq p > 0 then p else \<lparr>pt_seq = 0, pt_file_id = 0\<rparr>)]"
| "note_tombstone k p ((k', p') # ts) =
    (if k < k' then (k, if pt_seq p > 0 then p else \<lparr>pt_seq = 0, pt_file_id = 0\<rparr>) # (k', p') # ts
     else if k = k' then (k', if pt_seq p > pt_seq p' then p else p') # ts
     else (k', p') # note_tombstone k p ts)"

text \<open>A key of the B+ tree has at most 65535 bytes; the loader takes its keys in the order given.\<close>

definition bulk_append :: "key \<Rightarrow> KeyDirEntry \<Rightarrow> key_dir \<Rightarrow> key_dir result" where
  "bulk_append k e out =
    (if length k > kMaxKeySize then Inl (LogicError ''BulkLoader: key exceeds 65535 bytes'')
     else Inr (out @ [(k, e)]))"

definition sorted_markers :: "change_marker list \<Rightarrow> change_marker list option" where
  "sorted_markers ms = (if ms = [] then None else Some (sort_key since_sequence ms))"

definition recovery_needed_tombstones :: "nat list \<Rightarrow> RangeTombstone list \<Rightarrow> nat \<Rightarrow> bool \<Rightarrow> NeededTombstones" where
  "recovery_needed_tombstones point ranges hz skipped_files =
    (if skipped_files then \<lparr>horizon = 0, needed_sequences = []\<rparr>
     else \<lparr>horizon = hz,
       needed_sequences = remdups_adj (sort (point @ map rt_seq (filter rt_needed ranges)))\<rparr>)"

text \<open>Every body runs; then the first failure is rethrown.\<close>

fun run_all :: "('i \<Rightarrow> ('a, 's) io) \<Rightarrow> 'i list \<Rightarrow> ('a result list, 's) io" where
  "run_all body [] = io_ret []"
| "run_all body (i # is) =
    io_bind (io_attempt (body i)) (\<lambda>r. io_bind (run_all body is) (\<lambda>rs. io_ret (r # rs)))"

definition recovery_parallel_for :: "nat \<Rightarrow> (nat \<Rightarrow> ('a, 's) io) \<Rightarrow> ('a list, 's) io" where
  "recovery_parallel_for n body = io_bind (run_all body [0..<n]) (\<lambda>rs. io_lift (rmap id rs))"

section \<open>Needed tombstones\<close>

type_synonym hint_match = "HintEntry \<times> nat"

definition older_put_elsewhere :: "hint_match list \<Rightarrow> nat \<Rightarrow> nat \<Rightarrow> bool" where
  "older_put_elsewhere ms sequ fid \<longleftrightarrow>
     list_ex (\<lambda>(p, f). hn_type p = Put \<and> hn_sequence p < sequ \<and> f \<noteq> fid) ms"

definition mark_points :: "hint_match list \<Rightarrow> nat list \<Rightarrow> nat list" where
  "mark_points ms needed = needed @
     map (hn_sequence \<circ> fst)
       (filter (\<lambda>(d, f). hn_type d = Delete \<and> older_put_elsewhere ms (hn_sequence d) f) ms)"

definition mark_ranges :: "key \<Rightarrow> hint_match list \<Rightarrow> RangeTombstone list \<Rightarrow> RangeTombstone list" where
  "mark_ranges k ms rts =
    map (\<lambda>rt. if \<not> rt_needed rt \<and> covers rt k \<and> older_put_elsewhere ms (rt_seq rt) (rt_file_id rt)
              then rt\<lparr>rt_needed := True\<rparr> else rt) rts"

definition recovery_mark_needed ::
  "key \<Rightarrow> hint_match list \<Rightarrow> RangeTombstone list \<Rightarrow> nat list \<Rightarrow> RangeTombstone list \<times> nat list" where
  "recovery_mark_needed k ms rts needed = (mark_ranges k ms rts, mark_points ms needed)"

section \<open>Sorted merge of one worker's files\<close>

record Cursor =
  c_file_id :: nat
  c_rest :: "HintEntry list"
  c_cur :: "HintEntry option"
  c_lookahead :: "HintEntry option"

record merge_state =
  ms_max_seq :: nat
  ms_fstats :: file_stats
  ms_tombstones :: tombstones
  ms_ranges :: "RangeTombstone list"
  ms_needed :: "nat list"
  ms_markers :: "change_marker list"
  ms_skipped :: bool

definition note_stats :: "HintEntry \<Rightarrow> FileStats \<Rightarrow> FileStats" where
  "note_stats he fs =
    (let sequ = hn_sequence he in fs\<lparr>
       min_sequence := (if min_sequence fs = 0 \<or> sequ < min_sequence fs then sequ else min_sequence fs),
       max_sequence := (if sequ > max_sequence fs then sequ else max_sequence fs),
       tombstone_bytes := tombstone_bytes fs +
         word_of_nat (tombstone_size (hn_type he) (length (hn_key he)) (length (hn_end_key he))),
       marker_bytes := marker_bytes fs + word_of_nat (marker_size (hn_type he)),
       change_marker_bytes := change_marker_bytes fs + word_of_nat (change_marker_size (hn_type he))\<rparr>)"

definition note_hint :: "nat \<Rightarrow> HintEntry \<Rightarrow> merge_state \<Rightarrow> merge_state" where
  "note_hint fid he m = m\<lparr>
     ms_max_seq := (if hn_sequence he > ms_max_seq m then hn_sequence he else ms_max_seq m),
     ms_fstats := fs_set fid (note_stats he (case fs_get (ms_fstats m) fid of None \<Rightarrow> FileStats_empty | Some fs \<Rightarrow> fs))
       (ms_fstats m)\<rparr>"

text \<open>The head of a file: markers and range tombstones, up to the first put or delete.\<close>

fun read_head :: "nat \<Rightarrow> HintEntry list \<Rightarrow> merge_state \<Rightarrow> Cursor \<times> merge_state" where
  "read_head fid [] m = (\<lparr>c_file_id = fid, c_rest = [], c_cur = None, c_lookahead = None\<rparr>, m)"
| "read_head fid (he # hes) m =
    (let m1 = note_hint fid he m in
     case hn_type he of
       RangeDel \<Rightarrow> read_head fid hes (m1\<lparr>ms_ranges := ms_ranges m1 @
         [\<lparr>rt_start = hn_key he, rt_end = hn_end_key he, rt_seq = hn_sequence he, rt_file_id = fid,
           rt_needed = False\<rparr>]\<rparr>)
     | BulkBegin \<Rightarrow> read_head fid hes m1
     | BulkEnd \<Rightarrow> read_head fid hes m1
     | ChangeMarker \<Rightarrow> read_head fid hes (m1\<lparr>ms_markers := ms_markers m1 @
         [\<lparr>since_sequence = hn_sequence he, marker_id = hn_marker_id he\<rparr>]\<rparr>)
     | _ \<Rightarrow> (\<lparr>c_file_id = fid, c_rest = hes, c_cur = None, c_lookahead = Some he\<rparr>, m1))"

definition misplaced_range :: error where
  "misplaced_range = RuntimeError ''bytecask: range tombstone inside a sorted hint run''"

definition not_sorted :: error where
  "not_sorted = RuntimeError ''bytecask: hint file is not sorted''"

definition data_type :: "EntryType \<Rightarrow> bool" where
  "data_type t \<longleftrightarrow> t = Put \<or> t = Delete"

fun next_data :: "nat \<Rightarrow> HintEntry list \<Rightarrow> merge_state \<Rightarrow> (HintEntry option \<times> HintEntry list \<times> merge_state) result" where
  "next_data fid [] m = Inr (None, [], m)"
| "next_data fid (he # hes) m =
    (let m1 = note_hint fid he m in
     if hn_type he = RangeDel then Inl misplaced_range
     else if data_type (hn_type he) then Inr (Some he, hes, m1)
     else next_data fid hes m1)"

lemma next_data_length: "next_data fid hes m = Inr (ho, hes', m') \<Longrightarrow>
   length hes' + (if ho = None then 0 else 1) \<le> length hes"
  by (induction fid hes m rule: next_data.induct) (auto simp: Let_def split: if_splits)

text \<open>The entries of the key a cursor sits on, collapsed to the newest; the next key's first is kept.\<close>

function load_loop ::
  "nat \<Rightarrow> HintEntry \<Rightarrow> HintEntry list \<Rightarrow> merge_state \<Rightarrow> (Cursor \<times> merge_state) result" where
  "load_loop fid cur hes m =
    rbind (next_data fid hes m) (\<lambda>(ho, hes', m').
    case ho of
      None \<Rightarrow> Inr (\<lparr>c_file_id = fid, c_rest = hes', c_cur = Some cur, c_lookahead = None\<rparr>, m')
    | Some he \<Rightarrow>
        if hn_key he < hn_key cur then Inl not_sorted
        else if hn_key he = hn_key cur
        then load_loop fid (if hn_sequence he > hn_sequence cur then he else cur) hes' m'
        else Inr (\<lparr>c_file_id = fid, c_rest = hes', c_cur = Some cur, c_lookahead = Some he\<rparr>, m'))"
  by pat_completeness auto
termination
  by (relation "measure (\<lambda>(fid, cur, hes, m). length hes)") (auto dest: next_data_length)

declare load_loop.simps [simp del]

definition load :: "Cursor \<Rightarrow> merge_state \<Rightarrow> (Cursor \<times> merge_state) result" where
  "load c m =
    (case c_lookahead c of
       Some l \<Rightarrow> load_loop (c_file_id c) l (c_rest c) m
     | None \<Rightarrow>
         rbind (next_data (c_file_id c) (c_rest c) m) (\<lambda>(ho, hes, m').
         case ho of
           Some he \<Rightarrow> load_loop (c_file_id c) he hes m'
         | None \<Rightarrow> Inr (c\<lparr>c_rest := hes, c_cur := None\<rparr>, m')))"

fun load_all :: "(Cursor \<Rightarrow> bool) \<Rightarrow> Cursor list \<Rightarrow> merge_state \<Rightarrow> (Cursor list \<times> merge_state) result" where
  "load_all sel [] m = Inr ([], m)"
| "load_all sel (c # cs) m =
    (if sel c then rbind (load c m) (\<lambda>(c', m'). rbind (load_all sel cs m') (\<lambda>(cs', m''). Inr (c' # cs', m'')))
     else rbind (load_all sel cs m) (\<lambda>(cs', m''). Inr (c # cs', m'')))"

text \<open>
  The smallest key the cursors sit on, and the cursors that sit on it. The order in which a heap
  yields equal keys is unspecified; it is the order of the cursors here.
\<close>

definition cursor_keys :: "Cursor list \<Rightarrow> key list" where
  "cursor_keys cs = List.map_filter (\<lambda>c. map_option hn_key (c_cur c)) cs"

definition sits_on :: "key \<Rightarrow> Cursor \<Rightarrow> bool" where
  "sits_on k c \<longleftrightarrow> (case c_cur c of None \<Rightarrow> False | Some he \<Rightarrow> hn_key he = k)"

definition matches_on :: "key \<Rightarrow> Cursor list \<Rightarrow> hint_match list" where
  "matches_on k cs = map (\<lambda>c. (the (c_cur c), c_file_id c)) (filter (sits_on k) cs)"

fun newest :: "hint_match \<Rightarrow> hint_match list \<Rightarrow> hint_match" where
  "newest w [] = w"
| "newest w (x # xs) = newest (if hn_sequence (fst x) > hn_sequence (fst w) then x else w) xs"

definition note_deletes :: "key \<Rightarrow> hint_match list \<Rightarrow> tombstones \<Rightarrow> tombstones" where
  "note_deletes k ms ts =
    fold (\<lambda>(d, f). note_tombstone k \<lparr>pt_seq = hn_sequence d, pt_file_id = f\<rparr>)
      (filter (\<lambda>(d, f). hn_type d = Delete) ms) ts"

definition suppressed :: "RangeTombstone list \<Rightarrow> key \<Rightarrow> nat \<Rightarrow> bool" where
  "suppressed rts k sequ \<longleftrightarrow> list_ex (\<lambda>rt. \<not> sequ \<ge> rt_seq rt \<and> covers rt k) rts"

text \<open>One key of the merge: its tombstones are noted, the newest entry decides.\<close>

definition merge_key :: "key \<Rightarrow> hint_match list \<Rightarrow> merge_state \<Rightarrow> key_dir \<Rightarrow> (merge_state \<times> key_dir) result" where
  "merge_key k ms m out =
    (let (w, wf) = newest (hd ms) (tl ms);
         marked = recovery_mark_needed k ms (ms_ranges m) (ms_needed m);
         m1 = m\<lparr>ms_tombstones := note_deletes k ms (ms_tombstones m), ms_ranges := fst marked,
                ms_needed := snd marked\<rparr>
     in if hn_type w = Put \<and> \<not> suppressed (ms_ranges m1) k (hn_sequence w)
        then rbind (kde_make (hn_sequence w) (hn_file_offset w) wf (hn_value_size w)) (\<lambda>e.
             rbind (bulk_append k e out) (\<lambda>out'. Inr (m1, out')))
        else Inr (m1, out))"

text \<open>Each key of the merge consumes an entry of a cursor that sits on it.\<close>

definition weight :: "Cursor \<Rightarrow> nat" where
  "weight c = length (c_rest c) + (if c_cur c = None then 0 else 1) + (if c_lookahead c = None then 0 else 1)"

lemma load_loop_weight: "load_loop fid cur hes m = Inr (c', m') \<Longrightarrow> weight c' \<le> Suc (length hes)"
proof (induction fid cur hes m rule: load_loop.induct)
  case (1 fid cur hes m)
  obtain ho hes1 m1 where nd: "next_data fid hes m = Inr (ho, hes1, m1)"
    using 1(2) by (subst (asm) load_loop.simps) (auto simp: result_simps)
  have len: "length hes1 + (if ho = None then 0 else 1) \<le> length hes"
    using next_data_length[OF nd] .
  show ?case
  proof (cases ho)
    case None
    then show ?thesis using 1(2) nd len by (subst (asm) load_loop.simps) (auto simp: weight_def)
  next
    case (Some he)
    show ?thesis
    proof (cases "hn_key he = hn_key cur")
      case True
      with 1(2) nd Some have "load_loop fid (if hn_sequence he > hn_sequence cur then he else cur) hes1 m1 = Inr (c', m')"
        by (subst (asm) load_loop.simps) simp
      with 1(1)[OF nd refl refl Some _ True] True len Some show ?thesis by simp
    next
      case False
      then show ?thesis using 1(2) nd len Some
        by (subst (asm) load_loop.simps) (auto simp: weight_def split: if_splits)
    qed
  qed
qed

lemma load_weight:
  assumes "load c m = Inr (c', m')"
  shows "weight c' + (if c_cur c = None then 0 else 1) \<le> weight c"
proof (cases "c_lookahead c")
  case (Some l)
  with assms have "load_loop (c_file_id c) l (c_rest c) m = Inr (c', m')" by (simp add: load_def)
  from load_loop_weight[OF this] Some show ?thesis by (simp add: weight_def)
next
  case None
  with assms obtain ho hes m1 where nd: "next_data (c_file_id c) (c_rest c) m = Inr (ho, hes, m1)"
    and rest: "(case ho of Some he \<Rightarrow> load_loop (c_file_id c) he hes m1
      | None \<Rightarrow> Inr (c\<lparr>c_rest := hes, c_cur := None\<rparr>, m1)) = Inr (c', m')"
    by (auto simp: load_def result_simps)
  show ?thesis
  proof (cases ho)
    case None1: None
    then show ?thesis using rest next_data_length[OF nd] None by (auto simp: weight_def)
  next
    case (Some he)
    with rest load_loop_weight have "weight c' \<le> Suc (length hes)" by simp
    then show ?thesis using next_data_length[OF nd] Some None by (simp add: weight_def)
  qed
qed

lemma load_all_weight:
  assumes "load_all sel cs m = Inr (cs', m')"
  shows "sum_list (map weight cs') + length (filter (\<lambda>c. sel c \<and> c_cur c \<noteq> None) cs) \<le> sum_list (map weight cs)"
  using assms
proof (induction cs arbitrary: m cs')
  case (Cons c cs)
  show ?case
  proof (cases "sel c")
    case True
    with Cons.prems obtain c1 m1 cs1 where l: "load c m = Inr (c1, m1)"
      and a: "load_all sel cs m1 = Inr (cs1, m')" and "cs' = c1 # cs1"
      by (auto simp: result_simps)
    then show ?thesis using Cons.IH[OF a] load_weight[OF l] True by (auto split: if_splits)
  next
    case False
    with Cons.prems obtain cs1 where a: "load_all sel cs m = Inr (cs1, m')" and "cs' = c # cs1"
      by (auto simp: result_simps)
    then show ?thesis using Cons.IH[OF a] False by auto
  qed
qed simp

lemma least_key_sits:
  assumes "least_key (cursor_keys cs) = Some k"
  shows "filter (\<lambda>c. sits_on k c \<and> c_cur c \<noteq> None) cs \<noteq> []"
proof -
  from least_key_mem[OF assms] obtain c he where "c \<in> set cs" "c_cur c = Some he" "hn_key he = k"
    by (auto simp: cursor_keys_def List.map_filter_def)
  then show ?thesis by (auto simp: filter_empty_conv sits_on_def intro!: bexI[of _ c])
qed

function merge_loop :: "Cursor list \<Rightarrow> merge_state \<Rightarrow> key_dir \<Rightarrow> (merge_state \<times> key_dir) result" where
  "merge_loop cs m out =
    (case least_key (cursor_keys cs) of
       None \<Rightarrow> Inr (m, out)
     | Some k \<Rightarrow>
         rbind (merge_key k (matches_on k cs) m out) (\<lambda>(m1, out1).
         rbind (load_all (sits_on k) cs m1) (\<lambda>(cs', m2). merge_loop cs' m2 out1)))"
  by pat_completeness auto
termination
proof (relation "measure (\<lambda>(cs, m, out). sum_list (map weight cs))", goal_cases)
  case (2 cs m out k x1 m1 out1 x2 cs' m2)
  then show ?case
    using load_all_weight[of "sits_on k" cs m1 cs' m2] least_key_sits[of cs k]
    by (cases "filter (\<lambda>c. sits_on k c \<and> c_cur c \<noteq> None) cs") auto
qed simp

declare merge_loop.simps [simp del]

text \<open>
  Phase A opens each hint file and reads its head; a file that cannot be opened is skipped in the
  lenient mode. An error of the scan is a fault after the open.
\<close>

fun open_cursors :: "build \<Rightarrow> bool \<Rightarrow> RecoveredFile list \<Rightarrow> merge_state \<Rightarrow> (Cursor list \<times> merge_state, db) io" where
  "open_cursors b strict [] m = io_ret ([], m)"
| "open_cursors b strict (rf # rfs) m =
    io_bind (open_hint_or_skip b (rf_data_file rf) strict) (\<lambda>h. case h of
        None \<Rightarrow> open_cursors b strict rfs (m\<lparr>ms_skipped := True\<rparr>)
      | Some hes \<Rightarrow>
          io_bind io_point (\<lambda>_.
          let (c, m1) = read_head (rf_file_id rf) hes m in
          io_bind (open_cursors b strict rfs m1) (\<lambda>(cs, m2). io_ret (c # cs, m2))))"

definition seed_stats :: "RecoveredFile list \<Rightarrow> file_stats" where
  "seed_stats rfs = map (\<lambda>rf. (rf_file_id rf, FileStats_empty\<lparr>total_bytes := word_of_nat (rf_total_bytes rf)\<rparr>)) rfs"

definition merge_start :: "RecoveredFile list \<Rightarrow> merge_state" where
  "merge_start rfs = \<lparr>ms_max_seq = 0, ms_fstats = seed_stats rfs, ms_tombstones = [], ms_ranges = [],
     ms_needed = [], ms_markers = [], ms_skipped = False\<rparr>"

definition merge_result :: "merge_state \<Rightarrow> key_dir \<Rightarrow> RecoveryResult" where
  "merge_result m out = \<lparr>rr_key_dir = out, rr_tombstones = ms_tombstones m, rr_ranges = ms_ranges m,
     rr_max_seq = ms_max_seq m, rr_file_stats = ms_fstats m, rr_needed = ms_needed m,
     rr_skipped = ms_skipped m, rr_markers = ms_markers m\<rparr>"

definition merge_cursors :: "Cursor list \<Rightarrow> merge_state \<Rightarrow> RecoveryResult result" where
  "merge_cursors cs m =
    rbind (load_all (\<lambda>c. True) cs m) (\<lambda>(cs', m1).
    rbind (merge_loop cs' m1 []) (\<lambda>(m2, out). Inr (merge_result m2 out)))"

definition recovery_build_sorted :: "build \<Rightarrow> bool \<Rightarrow> RecoveredFile list \<Rightarrow> (RecoveryResult, db) io" where
  "recovery_build_sorted b strict rfs =
    io_bind (open_cursors b strict rfs (merge_start rfs)) (\<lambda>(cs, m). io_lift (merge_cursors cs m))"

section \<open>Range-partitioned recovery\<close>

definition worker_files :: "nat \<Rightarrow> RecoveredFile list \<Rightarrow> nat \<Rightarrow> RecoveredFile list" where
  "worker_files W rfs i = map snd (filter (\<lambda>(j, rf). j mod W = i) (enumerate 0 rfs))"

definition union_stats :: "file_stats list \<Rightarrow> file_stats" where
  "union_stats fss = fold (\<lambda>(f, fs) m. if fs_get m f = None then fs_set f fs m else m) (concat fss) []"

definition union_tombstones :: "tombstones list \<Rightarrow> tombstones" where
  "union_tombstones tss = fold (\<lambda>(k, p). note_tombstone k p) (concat tss) []"

text \<open>
  The splitters: \<^term>\<open>sep\<close> stands for the separators a B+ tree offers as a sample of its keys, which
  depend on its nodes. Any sample will do.
\<close>

definition pick_splitters :: "nat \<Rightarrow> key list \<Rightarrow> key list" where
  "pick_splitters R pool =
    remdups_adj (map (\<lambda>r. pool ! (r * length pool div R))
      (filter (\<lambda>r. pool \<noteq> [] \<and> r * length pool div R < length pool) [1..<R]))"

definition splitters_of :: "(key_dir \<Rightarrow> nat \<Rightarrow> key list) \<Rightarrow> nat \<Rightarrow> RecoveryResult list \<Rightarrow> key list" where
  "splitters_of sep R parts =
    (if R > 1 then pick_splitters R (sort (concat (map (\<lambda>p. sep (rr_key_dir p) (R * 8)) parts))) else [])"

definition range_lo :: "key list \<Rightarrow> nat \<Rightarrow> key" where
  "range_lo spl r = (if r = 0 then [] else spl ! (r - 1))"

definition range_hi :: "key list \<Rightarrow> nat \<Rightarrow> key option" where
  "range_hi spl r = (if r + 1 < length spl + 1 then Some (spl ! r) else None)"

definition below_hi :: "key option \<Rightarrow> key \<Rightarrow> bool" where
  "below_hi hi k \<longleftrightarrow> (case hi of None \<Rightarrow> True | Some h \<Rightarrow> k < h)"

definition reaches :: "key \<Rightarrow> key option \<Rightarrow> RangeTombstone \<Rightarrow> bool" where
  "reaches lo hi rt \<longleftrightarrow> below_hi hi (rt_start rt) \<and> (lo = [] \<or> rt_end rt > lo)"

record RangeOut =
  ro_run :: key_dir
  ro_live :: live_map
  ro_needed :: "nat list"
  ro_needed_ranges :: "nat list"

definition live_add :: "nat \<Rightarrow> nat \<Rightarrow> live_map \<Rightarrow> live_map" where
  "live_add f n m = AList.update f (live_at m f + word_of_nat n) m"

text \<open>A tree cursor: the entries it has left, live while its key lies in the slice.\<close>

definition live_head :: "key option \<Rightarrow> key_dir \<Rightarrow> (key \<times> KeyDirEntry) option" where
  "live_head hi c = (case c of [] \<Rightarrow> None | (k, e) # _ \<Rightarrow> if below_hi hi k then Some (k, e) else None)"

definition heads_on :: "key option \<Rightarrow> key \<Rightarrow> key_dir list \<Rightarrow> KeyDirEntry list" where
  "heads_on hi k cs = map snd (filter (\<lambda>(k', e). k' = k) (List.map_filter (live_head hi) cs))"

definition on_key :: "key option \<Rightarrow> key \<Rightarrow> key_dir \<Rightarrow> bool" where
  "on_key hi k c \<longleftrightarrow> (case live_head hi c of None \<Rightarrow> False | Some (k', e) \<Rightarrow> k' = k)"

definition advance_on :: "key option \<Rightarrow> key \<Rightarrow> key_dir list \<Rightarrow> key_dir list" where
  "advance_on hi k cs = map (\<lambda>c. if on_key hi k c then tl c else c) cs"

fun newest_kde :: "KeyDirEntry \<Rightarrow> KeyDirEntry list \<Rightarrow> KeyDirEntry result" where
  "newest_kde w [] = Inr w"
| "newest_kde w (e # es) = rbind (kde_newer e w) (\<lambda>n. newest_kde (if n then e else w) es)"

text \<open>The newest point tombstone on the key, from the list walked in step with the merge.\<close>

definition tomb_on :: "key \<Rightarrow> tombstones \<Rightarrow> PointTombstone option" where
  "tomb_on k ts = (case ts of [] \<Rightarrow> None | (k', p) # _ \<Rightarrow> if k' = k then Some p else None)"

definition needed_on :: "PointTombstone option \<Rightarrow> KeyDirEntry \<Rightarrow> nat list" where
  "needed_on tomb e = (case tomb of None \<Rightarrow> [] | Some p \<Rightarrow> if kde_sequence e < pt_seq p then [pt_seq p] else [])"

definition needed_ranges_on :: "(nat \<times> RangeTombstone) list \<Rightarrow> key \<Rightarrow> KeyDirEntry \<Rightarrow> nat list" where
  "needed_ranges_on rts k e =
    map fst (filter (\<lambda>(i, rt). \<not> (kde_sequence e \<ge> rt_seq rt \<or> kde_file_id e = rt_file_id rt) \<and> covers rt k) rts)"

definition range_key ::
  "(nat \<times> RangeTombstone) list \<Rightarrow> key \<Rightarrow> KeyDirEntry list \<Rightarrow> PointTombstone option \<Rightarrow> RangeOut \<Rightarrow> RangeOut result" where
  "range_key rts k es tomb ro =
    rbind (newest_kde (hd es) (tl es)) (\<lambda>w.
      let ro1 = ro\<lparr>ro_needed := ro_needed ro @ concat (map (needed_on tomb) es),
                   ro_needed_ranges := ro_needed_ranges ro @ concat (map (needed_ranges_on rts k) es)\<rparr>;
          drop1 = (case tomb of None \<Rightarrow> False | Some p \<Rightarrow> kde_sequence w < pt_seq p)
      in if drop1 \<or> suppressed (map snd rts) k (kde_sequence w) then Inr ro1
         else rbind (bulk_append k w (ro_run ro1)) (\<lambda>run.
                Inr (ro1\<lparr>ro_run := run,
                  ro_live := live_add (kde_file_id w) (entry_size (length k) (kde_value_size w)) (ro_live ro1)\<rparr>)))"

lemma advance_on_shorter:
  assumes "least_key (map fst (List.map_filter (live_head hi) cs)) = Some k"
  shows "sum_list (map length (advance_on hi k cs)) < sum_list (map length cs)"
proof -
  have le: "sum_list (map length (advance_on hi k xs)) \<le> sum_list (map length xs)" for xs
    by (induction xs) (auto simp: advance_on_def)
  from least_key_mem[OF assms] obtain c where "c \<in> set cs" and on: "on_key hi k c"
    by (force simp: List.map_filter_def on_key_def)
  then obtain ys zs where cs: "cs = ys @ c # zs" by (auto dest: split_list)
  have "c \<noteq> []" using on by (auto simp: on_key_def live_head_def)
  then have "length (tl c) < length c" by (cases c) auto
  with le[of ys] le[of zs] on show ?thesis by (simp add: cs advance_on_def)
qed

function range_loop ::
  "key option \<Rightarrow> (nat \<times> RangeTombstone) list \<Rightarrow> tombstones \<Rightarrow> key_dir list \<Rightarrow> RangeOut \<Rightarrow> RangeOut result" where
  "range_loop hi rts ts cs ro =
    (case least_key (map fst (List.map_filter (live_head hi) cs)) of
       None \<Rightarrow> Inr ro
     | Some k \<Rightarrow>
         let ts' = dropWhile (\<lambda>(k', p). k' < k) ts in
         rbind (range_key rts k (heads_on hi k cs) (tomb_on k ts') ro)
           (range_loop hi rts ts' (advance_on hi k cs)))"
  by pat_completeness auto
termination
  by (relation "measure (\<lambda>(hi, rts, ts, cs, ro). sum_list (map length cs))") (auto simp: advance_on_shorter)

declare range_loop.simps [simp del]

definition merge_range ::
  "key list \<Rightarrow> tombstones \<Rightarrow> RangeTombstone list \<Rightarrow> key_dir list \<Rightarrow> nat \<Rightarrow> RangeOut result" where
  "merge_range spl ts rts parts r =
    (let lo = range_lo spl r; hi = range_hi spl r
     in range_loop hi (filter (\<lambda>(i, rt). reaches lo hi rt) (enumerate 0 rts))
          (if lo = [] then ts else dropWhile (\<lambda>(k, p). k < lo) ts)
          (map (\<lambda>kd. kd_lower_bound kd lo) parts)
          \<lparr>ro_run = [], ro_live = [], ro_needed = [], ro_needed_ranges = []\<rparr>)"

definition sum_live :: "live_map list \<Rightarrow> live_map" where
  "sum_live ls = fold (\<lambda>(f, n) m. AList.update f (live_at m f + n) m) (concat ls) []"

definition with_live :: "live_map \<Rightarrow> file_stats \<Rightarrow> file_stats" where
  "with_live m fss = map (\<lambda>(f, fs). (f, fs\<lparr>live_bytes := live_at m f\<rparr>)) fss"

definition flag_ranges :: "nat list \<Rightarrow> RangeTombstone list \<Rightarrow> RangeTombstone list" where
  "flag_ranges idx rts = map (\<lambda>(i, rt). if i \<in> set idx then rt\<lparr>rt_needed := True\<rparr> else rt) (enumerate 0 rts)"

text \<open>The merge of the workers' trees, and the state it fills in with what vacuum may drop.\<close>

definition merge_parts ::
  "(key_dir \<Rightarrow> nat \<Rightarrow> key list) \<Rightarrow> nat \<Rightarrow> RecoveryResult list \<Rightarrow> EngineState \<Rightarrow>
   (EngineState \<times> NeededTombstones) result" where
  "merge_parts sep W parts s =
    (let ts = union_tombstones (map rr_tombstones parts);
         rts = concat (map rr_ranges parts);
         max_seq = fold max (map rr_max_seq parts) 0;
         spl = splitters_of sep W parts
     in rbind (rmap (merge_range spl ts rts (map rr_key_dir parts)) [0..<length spl + 1]) (\<lambda>outs.
          let needed = concat (map rr_needed parts) @ concat (map ro_needed outs);
              rts' = flag_ranges (concat (map ro_needed_ranges outs)) rts
          in Inr (s\<lparr>key_dir := concat (map ro_run outs), next_seq := max_seq + 1,
                    file_stats := with_live (sum_live (map ro_live outs)) (union_stats (map rr_file_stats parts)),
                    change_markers := sorted_markers (concat (map rr_markers parts))\<rparr>,
                  recovery_needed_tombstones needed rts' max_seq (list_ex rr_skipped parts))))"

definition recovery_load_ranged ::
  "build \<Rightarrow> (key_dir \<Rightarrow> nat \<Rightarrow> key list) \<Rightarrow> nat \<Rightarrow> bool \<Rightarrow> EngineState \<Rightarrow> RecoveredFile list \<Rightarrow> (EngineState, db) io" where
  "recovery_load_ranged b sep threads strict s rfs =
    (if rfs = [] then io_ret s
     else let W = min (length rfs) threads in
       io_bind (recovery_parallel_for W (\<lambda>i. recovery_build_sorted b strict (worker_files W rfs i))) (\<lambda>parts.
       io_bind (io_lift (merge_parts sep W parts s)) (\<lambda>(s', needed).
       io_bind (io_modify (\<lambda>d. d\<lparr>needed_tombstones := needed\<rparr>)) (\<lambda>_. io_ret s'))))"

end
