(* ===== verification/RecoveryStreams.thy ===== *)
theory RecoveryStreams
  imports RecoveryLoad
begin

text \<open>
  Hint-stream recovery, the path of the blind key directory (\<^verbatim>\<open>recovery_load_streams\<close>). A position in
  a hint file is the index of an entry; \<^term>\<open>pos\<close> says in which frame and at which offset of it the
  entry lies, which only decides where fences go.
\<close>

section \<open>Fences\<close>

record FileRun =
  fr_hint :: "HintEntry list option"
  fr_data_start :: nat
  fr_fences :: "(key \<times> nat) list"
  fr_ranges :: "RangeTombstone list"
  fr_stats :: FileStats
  fr_max_seq :: nat
  fr_markers :: "change_marker list"

record fence_scan =
  fsc_in_data :: bool
  fsc_next_fence :: "nat \<times> nat"
  fsc_prev :: "key option"

abbreviation (input) kFenceStep :: nat where "kFenceStep \<equiv> 4096"

type_synonym hint_pos = "nat \<Rightarrow> nat \<times> nat"

definition scan_data :: "hint_pos \<Rightarrow> HintEntry \<Rightarrow> nat \<Rightarrow> fence_scan \<Rightarrow> FileRun \<Rightarrow> fence_scan \<times> FileRun" where
  "scan_data pos he i st run =
    (let run1 = (if fsc_in_data st then run else run\<lparr>fr_data_start := i\<rparr>);
         st1 = st\<lparr>fsc_in_data := True\<rparr>
     in if fsc_prev st = Some (hn_key he) then (st1, run1)
        else if pos i \<ge> fsc_next_fence st
        then (st1\<lparr>fsc_next_fence := (fst (pos i), (snd (pos i) div kFenceStep + 1) * kFenceStep),
                  fsc_prev := Some (hn_key he)\<rparr>,
              run1\<lparr>fr_fences := fr_fences run1 @ [(hn_key he, i)]\<rparr>)
        else (st1\<lparr>fsc_prev := Some (hn_key he)\<rparr>, run1))"

fun scan_hints :: "hint_pos \<Rightarrow> nat \<Rightarrow> HintEntry list \<Rightarrow> nat \<Rightarrow> fence_scan \<Rightarrow> FileRun \<Rightarrow> FileRun result" where
  "scan_hints pos fid [] i st run =
    Inr (if fsc_in_data st then run else run\<lparr>fr_data_start := i\<rparr>)"
| "scan_hints pos fid (he # hes) i st run =
    (let run1 = run\<lparr>fr_stats := note_stats he (fr_stats run), fr_max_seq := max (fr_max_seq run) (hn_sequence he)\<rparr> in
     case hn_type he of
       BulkBegin \<Rightarrow> scan_hints pos fid hes (i + 1) st run1
     | BulkEnd \<Rightarrow> scan_hints pos fid hes (i + 1) st run1
     | ChangeMarker \<Rightarrow> scan_hints pos fid hes (i + 1) st
         (run1\<lparr>fr_markers := fr_markers run1 @ [\<lparr>since_sequence = hn_sequence he, marker_id = hn_marker_id he\<rparr>]\<rparr>)
     | RangeDel \<Rightarrow>
         if fsc_in_data st then Inl misplaced_range
         else scan_hints pos fid hes (i + 1) st (run1\<lparr>fr_ranges := fr_ranges run1 @
           [\<lparr>rt_start = hn_key he, rt_end = hn_end_key he, rt_seq = hn_sequence he, rt_file_id = fid,
             rt_needed = False\<rparr>]\<rparr>)
     | _ \<Rightarrow> (case scan_data pos he i st run1 of (st', run') \<Rightarrow> scan_hints pos fid hes (i + 1) st' run'))"

definition run_start :: "RecoveredFile \<Rightarrow> FileRun" where
  "run_start rf = \<lparr>fr_hint = None, fr_data_start = 0, fr_fences = [], fr_ranges = [],
     fr_stats = FileStats_empty\<lparr>total_bytes := word_of_nat (rf_total_bytes rf)\<rparr>, fr_max_seq = 0,
     fr_markers = []\<rparr>"

definition scan_file :: "build \<Rightarrow> (RecoveredFile \<Rightarrow> hint_pos) \<Rightarrow> bool \<Rightarrow> RecoveredFile \<Rightarrow> (FileRun, db) io" where
  "scan_file b pos strict rf =
    io_bind (open_hint_or_skip b (rf_data_file rf) strict) (\<lambda>h. case h of
        None \<Rightarrow> io_ret (run_start rf)
      | Some hes \<Rightarrow>
          io_bind io_point (\<lambda>_.
          io_lift (scan_hints (pos rf) (rf_file_id rf) hes 0
            \<lparr>fsc_in_data = False, fsc_next_fence = (0, 0), fsc_prev = None\<rparr>
            ((run_start rf)\<lparr>fr_hint := Some hes\<rparr>))))"

text \<open>Each worker scans the files with its index modulo the number of workers, one after another.\<close>

fun scan_files :: "build \<Rightarrow> (RecoveredFile \<Rightarrow> hint_pos) \<Rightarrow> bool \<Rightarrow> (nat \<times> RecoveredFile) list \<Rightarrow> ((nat \<times> FileRun) list, db) io" where
  "scan_files b pos strict [] = io_ret []"
| "scan_files b pos strict ((i, rf) # rfs) =
    io_bind (scan_file b pos strict rf) (\<lambda>run.
    io_bind (scan_files b pos strict rfs) (\<lambda>runs. io_ret ((i, run) # runs)))"

definition scan_worker ::
  "build \<Rightarrow> (RecoveredFile \<Rightarrow> hint_pos) \<Rightarrow> bool \<Rightarrow> nat \<Rightarrow> RecoveredFile list \<Rightarrow> nat \<Rightarrow> ((nat \<times> FileRun) list, db) io" where
  "scan_worker b pos strict W rfs w = scan_files b pos strict (filter (\<lambda>(j, rf). j mod W = w) (enumerate 0 rfs))"

definition fence_splitters :: "nat \<Rightarrow> FileRun list \<Rightarrow> key list" where
  "fence_splitters W runs =
    (if W > 1 then
       (let pool = sort (concat (map (map fst \<circ> fr_fences) runs))
        in foldl (\<lambda>spl r. let k = pool ! (r * length pool div W)
                          in if spl = [] \<or> k > last spl then spl @ [k] else spl)
             [] (if pool = [] then [] else [1..<W]))
     else [])"

section \<open>Merging a range of the streams\<close>

fun stream_next :: "HintEntry list \<Rightarrow> (HintEntry option \<times> HintEntry list) result" where
  "stream_next [] = Inr (None, [])"
| "stream_next (he # hes) =
    (if data_type (hn_type he) then Inr (Some he, hes)
     else if hn_type he = RangeDel then Inl misplaced_range
     else stream_next hes)"

lemma stream_next_length: "stream_next hes = Inr (ho, hes') \<Longrightarrow> length hes' + (if ho = None then 0 else 1) \<le> length hes"
  by (induction hes rule: stream_next.induct) (auto split: if_splits)

function stream_loop :: "nat \<Rightarrow> HintEntry \<Rightarrow> HintEntry list \<Rightarrow> Cursor result" where
  "stream_loop fid cur hes =
    rbind (stream_next hes) (\<lambda>(ho, hes').
    case ho of
      None \<Rightarrow> Inr \<lparr>c_file_id = fid, c_rest = hes', c_cur = Some cur, c_lookahead = None\<rparr>
    | Some he \<Rightarrow>
        if hn_key he < hn_key cur then Inl not_sorted
        else if hn_key he = hn_key cur
        then stream_loop fid (if hn_sequence he > hn_sequence cur then he else cur) hes'
        else Inr \<lparr>c_file_id = fid, c_rest = hes', c_cur = Some cur, c_lookahead = Some he\<rparr>)"
  by pat_completeness auto
termination
  by (relation "measure (\<lambda>(fid, cur, hes). length hes)") (auto dest: stream_next_length)

declare stream_loop.simps [simp del]

text \<open>A cursor whose next key is not below the upper bound is empty from then on.\<close>

definition stream_load :: "key option \<Rightarrow> Cursor \<Rightarrow> Cursor result" where
  "stream_load hi c =
    rbind (case c_lookahead c of
             Some l \<Rightarrow> Inr (Some l, c_rest c)
           | None \<Rightarrow> stream_next (c_rest c)) (\<lambda>(ho, hes).
    case ho of
      None \<Rightarrow> Inr (c\<lparr>c_rest := hes, c_cur := None\<rparr>)
    | Some he \<Rightarrow>
        if \<not> below_hi hi (hn_key he)
        then Inr \<lparr>c_file_id = c_file_id c, c_rest = hes, c_cur = None, c_lookahead = None\<rparr>
        else stream_loop (c_file_id c) he hes)"

function skip_below :: "key \<Rightarrow> Cursor \<Rightarrow> Cursor result" where
  "skip_below lo c =
    rbind (stream_next (c_rest c)) (\<lambda>(ho, hes).
    case ho of
      None \<Rightarrow> Inr (c\<lparr>c_rest := hes\<rparr>)
    | Some he \<Rightarrow> if \<not> hn_key he < lo then Inr (c\<lparr>c_rest := hes, c_lookahead := Some he\<rparr>)
        else skip_below lo (c\<lparr>c_rest := hes\<rparr>))"
  by pat_completeness auto
termination
  by (relation "measure (\<lambda>(lo, c). length (c_rest c))") (auto dest: stream_next_length)

declare skip_below.simps [simp del]

definition seek_start :: "FileRun \<Rightarrow> key \<Rightarrow> nat" where
  "seek_start run lo =
    (let below = takeWhile (\<lambda>(k, i). k < lo) (fr_fences run)
     in if lo = [] \<or> below = [] then fr_data_start run else snd (last below))"

definition stream_cursor :: "key \<Rightarrow> key option \<Rightarrow> nat \<Rightarrow> FileRun \<Rightarrow> HintEntry list \<Rightarrow> Cursor result" where
  "stream_cursor lo hi fid run hes =
    (let c = \<lparr>c_file_id = fid, c_rest = drop (seek_start run lo) hes, c_cur = None, c_lookahead = None\<rparr>
     in rbind (if lo = [] then Inr c else skip_below lo c) (stream_load hi))"

fun stream_cursors :: "key \<Rightarrow> key option \<Rightarrow> (RecoveredFile \<times> FileRun) list \<Rightarrow> Cursor list result" where
  "stream_cursors lo hi [] = Inr []"
| "stream_cursors lo hi ((rf, run) # rs) =
    (case fr_hint run of
       None \<Rightarrow> stream_cursors lo hi rs
     | Some hes \<Rightarrow>
         rbind (stream_cursor lo hi (rf_file_id rf) run hes) (\<lambda>c.
         rbind (stream_cursors lo hi rs) (\<lambda>cs. Inr (if c_cur c = None then cs else c # cs))))"

fun stream_load_all :: "key option \<Rightarrow> (Cursor \<Rightarrow> bool) \<Rightarrow> Cursor list \<Rightarrow> Cursor list result" where
  "stream_load_all hi sel [] = Inr []"
| "stream_load_all hi sel (c # cs) =
    rbind (if sel c then stream_load hi c else Inr c) (\<lambda>c'.
    rbind (stream_load_all hi sel cs) (\<lambda>cs'. Inr (c' # cs')))"

definition match_entry :: "hint_match \<Rightarrow> KeyDirEntry result" where
  "match_entry m = kde_make (hn_sequence (fst m)) (hn_file_offset (fst m)) (snd m) (hn_value_size (fst m))"

fun newest_match :: "hint_match \<times> KeyDirEntry \<Rightarrow> hint_match list \<Rightarrow> (hint_match \<times> KeyDirEntry) result" where
  "newest_match w [] = Inr w"
| "newest_match w (m # ms) =
    rbind (match_entry m) (\<lambda>e.
    rbind (kde_newer e (snd w)) (\<lambda>n. newest_match (if n then (m, e) else w) ms))"

text \<open>The blind loader checks that its keys ascend.\<close>

definition blind_append :: "key \<Rightarrow> KeyDirEntry \<Rightarrow> key_dir \<Rightarrow> key_dir result" where
  "blind_append k e out =
    (if length k > kMaxKeySize then Inl (LogicError ''BlindBTree: key exceeds 65535 bytes'')
     else if kde_file_id e > kMaxFileId then Inl (LogicError ''BlindBTree: file_id exceeds 20 bits'')
     else if out \<noteq> [] \<and> \<not> fst (last out) < k then Inl (InvalidArgument ''BlindBulkLoader: keys not ascending'')
     else Inr (out @ [(k, e)]))"

record StreamOut =
  so_run :: key_dir
  so_live :: live_map
  so_needed :: "nat list"
  so_ranges :: "RangeTombstone list"

definition stream_key :: "RangeTombstone list \<Rightarrow> key \<Rightarrow> hint_match list \<Rightarrow> StreamOut \<Rightarrow> StreamOut result" where
  "stream_key rts k ms so =
    rbind (match_entry (hd ms)) (\<lambda>e0.
    rbind (newest_match (hd ms, e0) (tl ms)) (\<lambda>(w, e).
      let marked = recovery_mark_needed k ms (so_ranges so) (so_needed so);
          so1 = so\<lparr>so_ranges := fst marked, so_needed := snd marked\<rparr>
      in if hn_type (fst w) = Put \<and> \<not> suppressed rts k (kde_sequence e)
         then rbind (blind_append k e (so_run so1)) (\<lambda>run.
                Inr (so1\<lparr>so_run := run,
                  so_live := live_add (kde_file_id e) (entry_size (length k) (kde_value_size e)) (so_live so1)\<rparr>))
         else Inr so1))"

lemma stream_loop_weight: "stream_loop fid cur hes = Inr c' \<Longrightarrow> weight c' \<le> Suc (length hes)"
proof (induction fid cur hes rule: stream_loop.induct)
  case (1 fid cur hes)
  obtain ho hes1 where nd: "stream_next hes = Inr (ho, hes1)"
    using 1(2) by (subst (asm) stream_loop.simps) (auto simp: result_simps)
  have len: "length hes1 + (if ho = None then 0 else 1) \<le> length hes"
    using stream_next_length[OF nd] .
  show ?case
  proof (cases ho)
    case None
    then show ?thesis using 1(2) nd len by (subst (asm) stream_loop.simps) (auto simp: weight_def)
  next
    case (Some he)
    show ?thesis
    proof (cases "hn_key he = hn_key cur")
      case True
      with 1(2) nd Some have "stream_loop fid (if hn_sequence he > hn_sequence cur then he else cur) hes1 = Inr c'"
        by (subst (asm) stream_loop.simps) simp
      with 1(1)[OF nd refl Some _ True] True len Some show ?thesis by simp
    next
      case False
      then show ?thesis using 1(2) nd len Some
        by (subst (asm) stream_loop.simps) (auto simp: weight_def split: if_splits)
    qed
  qed
qed

lemma stream_load_weight:
  assumes "stream_load hi c = Inr c'"
  shows "weight c' + (if c_cur c = None then 0 else 1) \<le> weight c"
proof -
  obtain ho hes where nx: "(case c_lookahead c of Some l \<Rightarrow> Inr (Some l, c_rest c)
      | None \<Rightarrow> stream_next (c_rest c)) = Inr (ho, hes)"
    and rest: "(case ho of None \<Rightarrow> Inr (c\<lparr>c_rest := hes, c_cur := None\<rparr>)
      | Some he \<Rightarrow> if \<not> below_hi hi (hn_key he)
        then Inr \<lparr>c_file_id = c_file_id c, c_rest = hes, c_cur = None, c_lookahead = None\<rparr>
        else stream_loop (c_file_id c) he hes) = Inr c'"
    using assms by (auto simp: stream_load_def result_simps)
  have len: "length hes + (if ho = None then 0 else 1) \<le> length (c_rest c) + (if c_lookahead c = None then 0 else 1)"
    using nx stream_next_length[of "c_rest c" ho hes] by (cases "c_lookahead c") auto
  show ?thesis
  proof (cases ho)
    case None
    then show ?thesis using rest len nx by (cases "c_lookahead c") (auto simp: weight_def)
  next
    case (Some he)
    then show ?thesis using rest len stream_loop_weight[of "c_file_id c" he hes c']
      by (auto simp: weight_def[of c] split: if_splits) (auto simp: weight_def)
  qed
qed

lemma stream_load_all_weight:
  assumes "stream_load_all hi sel cs = Inr cs'"
  shows "sum_list (map weight cs') + length (filter (\<lambda>c. sel c \<and> c_cur c \<noteq> None) cs) \<le> sum_list (map weight cs)"
  using assms
proof (induction cs arbitrary: cs')
  case (Cons c cs)
  then obtain c1 cs1 where l: "(if sel c then stream_load hi c else Inr c) = Inr c1"
    and a: "stream_load_all hi sel cs = Inr cs1" and "cs' = c1 # cs1"
    by (auto simp: result_simps)
  then show ?case using Cons.IH[OF a] stream_load_weight[of hi c c1] by (auto split: if_splits)
qed simp

function stream_merge :: "key option \<Rightarrow> RangeTombstone list \<Rightarrow> Cursor list \<Rightarrow> StreamOut \<Rightarrow> StreamOut result" where
  "stream_merge hi rts cs so =
    (case least_key (cursor_keys cs) of
       None \<Rightarrow> Inr so
     | Some k \<Rightarrow>
         rbind (stream_key rts k (matches_on k cs) so) (\<lambda>so1.
         rbind (stream_load_all hi (sits_on k) cs) (\<lambda>cs'. stream_merge hi rts cs' so1)))"
  by pat_completeness auto
termination
proof (relation "measure (\<lambda>(hi, rts, cs, so). sum_list (map weight cs))", goal_cases)
  case (2 hi rts cs so k so1 cs')
  then show ?case
    using stream_load_all_weight[of hi "sits_on k" cs cs'] least_key_sits[of cs k]
    by (cases "filter (\<lambda>c. sits_on k c \<and> c_cur c \<noteq> None) cs") auto
qed simp

declare stream_merge.simps [simp del]

definition stream_range ::
  "key list \<Rightarrow> RangeTombstone list \<Rightarrow> (RecoveredFile \<times> FileRun) list \<Rightarrow> nat \<Rightarrow> StreamOut result" where
  "stream_range spl rts runs r =
    (let lo = range_lo spl r; hi = range_hi spl r; near = filter (reaches lo hi) rts
     in rbind (stream_cursors lo hi runs) (\<lambda>cs.
          stream_merge hi near cs \<lparr>so_run = [], so_live = [], so_needed = [], so_ranges = near\<rparr>))"

section \<open>The whole load\<close>

definition merge_streams ::
  "nat \<Rightarrow> RecoveredFile list \<Rightarrow> FileRun list \<Rightarrow> EngineState \<Rightarrow> (EngineState \<times> NeededTombstones) result" where
  "merge_streams W rfs runs s =
    (let max_seq = fold max (map fr_max_seq runs) 0;
         rts = concat (map fr_ranges runs);
         spl = fence_splitters W runs
     in rbind (rmap (stream_range spl rts (zip rfs runs)) [0..<length spl + 1]) (\<lambda>outs.
          let needed = concat (map (\<lambda>o1. so_needed o1 @ map rt_seq (filter rt_needed (so_ranges o1))) outs);
              live = sum_live (map so_live outs)
          in Inr (s\<lparr>key_dir := concat (map so_run outs), next_seq := max_seq + 1,
                    file_stats := map (\<lambda>(rf, run). (rf_file_id rf, (fr_stats run)\<lparr>live_bytes := live_at live (rf_file_id rf)\<rparr>))
                      (zip rfs runs),
                    change_markers := sorted_markers (concat (map fr_markers runs))\<rparr>,
                  recovery_needed_tombstones needed [] max_seq (list_ex (\<lambda>run. fr_hint run = None) runs))))"

definition recovery_load_streams ::
  "build \<Rightarrow> (RecoveredFile \<Rightarrow> hint_pos) \<Rightarrow> nat \<Rightarrow> bool \<Rightarrow> EngineState \<Rightarrow> RecoveredFile list \<Rightarrow> (EngineState, db) io" where
  "recovery_load_streams b pos threads strict s rfs =
    (if rfs = [] then io_ret s
     else let W = min (length rfs) threads in
       io_bind (recovery_parallel_for W (scan_worker b pos strict W rfs)) (\<lambda>scanned.
       let runs = map (\<lambda>i. the (map_of (concat scanned) i)) [0..<length rfs] in
       io_bind (io_lift (merge_streams W rfs runs s)) (\<lambda>(s', needed).
       io_bind (io_modify (\<lambda>d. d\<lparr>needed_tombstones := needed\<rparr>)) (\<lambda>_. io_ret s'))))"

end
