(* ===== verification/RecoveryMerge.thy ===== *)
theory RecoveryMerge
  imports RecoveryStreams
begin

text \<open>
  What the merges of recovery compute. Each of the three loops is shown to be a merge of ascending
  runs, so its result is a fold over the keys with the entries all files hold for them.
\<close>

section \<open>Cursors on sorted hints\<close>

definition data :: "HintEntry list \<Rightarrow> HintEntry list" where
  "data hes = filter (\<lambda>h. data_type (hn_type h)) hes"

definition pick :: "HintEntry \<Rightarrow> HintEntry list \<Rightarrow> HintEntry" where
  "pick h hs = foldl (\<lambda>c h. if hn_sequence h > hn_sequence c then h else c) h hs"

function collapse :: "HintEntry list \<Rightarrow> HintEntry list" where
  "collapse [] = []"
| "collapse (h # hs) =
    pick h (takeWhile (\<lambda>x. hn_key x = hn_key h) hs) # collapse (dropWhile (\<lambda>x. hn_key x = hn_key h) hs)"
  by pat_completeness auto
termination
  by (relation "measure length") (auto intro: le_imp_less_Suc length_dropWhile_le)

definition upcoming :: "Cursor \<Rightarrow> HintEntry list" where
  "upcoming c = (case c_lookahead c of None \<Rightarrow> [] | Some l \<Rightarrow> [l]) @ data (c_rest c)"

definition cursor_ok :: "Cursor \<Rightarrow> bool" where
  "cursor_ok c \<longleftrightarrow> (\<forall>h \<in> set (c_rest c). hn_type h \<noteq> RangeDel) \<and> sorted (map hn_key (upcoming c)) \<and>
     (\<forall>h. c_cur c = Some h \<longrightarrow> (\<forall>x \<in> set (upcoming c). hn_key h < hn_key x))"

definition tagged :: "nat \<Rightarrow> HintEntry list \<Rightarrow> (key \<times> hint_match) list" where
  "tagged fid hs = map (\<lambda>h. (hn_key h, (h, fid))) hs"

definition below :: "key option \<Rightarrow> HintEntry list \<Rightarrow> HintEntry list" where
  "below hi hs = takeWhile (\<lambda>h. below_hi hi (hn_key h)) hs"

definition items :: "key option \<Rightarrow> Cursor \<Rightarrow> (key \<times> hint_match) list" where
  "items hi c = (case c_cur c of None \<Rightarrow> [] | Some h \<Rightarrow> tagged (c_file_id c) (h # below hi (collapse (upcoming c))))"

lemma data_simps [simp]:
  "data [] = []"
  "data (h # hs) = (if data_type (hn_type h) then h # data hs else data hs)"
  "data (xs @ ys) = data xs @ data ys"
  by (simp_all add: data_def)

lemma pick_key: "(\<forall>x \<in> set hs. hn_key x = hn_key h) \<Longrightarrow> hn_key (pick h hs) = hn_key h"
  unfolding pick_def by (induction hs arbitrary: h) auto

lemma collapse_keys: "set (map hn_key (collapse hs)) = set (map hn_key hs)"
proof (induction hs rule: collapse.induct)
  case (2 h hs)
  have "hn_key (pick h (takeWhile (\<lambda>x. hn_key x = hn_key h) hs)) = hn_key h"
    by (rule pick_key) (auto dest: set_takeWhileD)
  moreover have "set hs = set (takeWhile (\<lambda>x. hn_key x = hn_key h) hs) \<union> set (dropWhile (\<lambda>x. hn_key x = hn_key h) hs)"
    by (metis set_append takeWhile_dropWhile_id)
  ultimately show ?case using 2 by (auto dest: set_takeWhileD)
qed simp

lemma sorted_dropWhile_gt:
  assumes "sorted (map hn_key (h # hs))" and "x \<in> set (dropWhile (\<lambda>x. hn_key x = hn_key h) hs)"
  shows "hn_key h < hn_key x"
  using assms
proof (induction hs)
  case (Cons y hs)
  then show ?case by (cases "hn_key y = hn_key h") (auto simp: order.strict_iff_order)
qed simp

lemma sorted_map_dropWhile: "sorted_wrt R (map f xs) \<Longrightarrow> sorted_wrt R (map f (dropWhile P xs))"
  by (induction xs) auto

lemma sorted_map_takeWhile: "sorted_wrt R (map f xs) \<Longrightarrow> sorted_wrt R (map f (takeWhile P xs))"
  by (induction xs) (auto dest: set_takeWhileD)

lemma collapse_ascending: "sorted (map hn_key hs) \<Longrightarrow> sorted_wrt (<) (map hn_key (collapse hs))"
proof (induction hs rule: collapse.induct)
  case (2 h hs)
  let ?d = "dropWhile (\<lambda>x. hn_key x = hn_key h) hs"
  have k: "hn_key (pick h (takeWhile (\<lambda>x. hn_key x = hn_key h) hs)) = hn_key h"
    by (rule pick_key) (auto dest: set_takeWhileD)
  have "sorted (map hn_key ?d)"
    using 2(2) by (intro sorted_map_dropWhile) simp
  then have IH: "sorted_wrt (<) (map hn_key (collapse ?d))" by (rule 2(1))
  have "hn_key h < j" if "j \<in> set (map hn_key (collapse ?d))" for j
    using that sorted_dropWhile_gt[OF 2(2)] unfolding collapse_keys by auto
  with IH k show ?case by simp
qed simp

subsection \<open>Loading a cursor\<close>

lemma stream_next_data:
  assumes "\<forall>h \<in> set hes. hn_type h \<noteq> RangeDel"
  shows "\<exists>pre hes' ho. stream_next hes = Inr (ho, hes') \<and> hes = pre @ hes' \<and>
    data hes = (case ho of None \<Rightarrow> [] | Some h \<Rightarrow> [h]) @ data hes'"
  using assms
proof (induction hes rule: stream_next.induct)
  case (2 he hes)
  show ?case
  proof (cases "data_type (hn_type he)")
    case True
    then show ?thesis by (intro exI[of _ "[he]"] exI[of _ hes] exI[of _ "Some he"]) (simp add: data_def)
  next
    case False
    with 2 obtain pre hes' ho where "stream_next hes = Inr (ho, hes')" "hes = pre @ hes'"
      "data hes = (case ho of None \<Rightarrow> [] | Some h \<Rightarrow> [h]) @ data hes'" by auto
    with False 2(2) show ?thesis
      by (intro exI[of _ "he # pre"] exI[of _ hes'] exI[of _ ho]) (simp add: data_def)
  qed
qed (simp add: data_def)

lemma stream_loop_collapse:
  assumes "\<forall>h \<in> set hes. hn_type h \<noteq> RangeDel" and "sorted (map hn_key (cur # data hes))"
  shows "\<exists>c' pre. stream_loop fid cur hes = Inr c' \<and> hes = pre @ c_rest c' \<and> c_file_id c' = fid \<and>
    c_cur c' = Some (pick cur (takeWhile (\<lambda>x. hn_key x = hn_key cur) (data hes))) \<and>
    upcoming c' = dropWhile (\<lambda>x. hn_key x = hn_key cur) (data hes)"
  using assms
proof (induction fid cur hes rule: stream_loop.induct)
  case (1 fid cur hes)
  from stream_next_data[OF 1(2)] obtain pre hes' ho where
    nx: "stream_next hes = Inr (ho, hes')" and pre: "hes = pre @ hes'"
    and dt: "data hes = (case ho of None \<Rightarrow> [] | Some h \<Rightarrow> [h]) @ data hes'" by blast
  show ?case
  proof (cases ho)
    case None
    have "data hes' = []"
      using nx None by (induction hes rule: stream_next.induct) (auto simp: data_def split: if_splits)
    then show ?thesis using nx None pre dt
      by (subst stream_loop.simps) (auto simp: upcoming_def pick_def)
  next
    case (Some he)
    have le: "hn_key cur \<le> hn_key he" using 1(3) dt Some by simp
    show ?thesis
    proof (cases "hn_key he = hn_key cur")
      case True
      let ?cur = "if hn_sequence he > hn_sequence cur then he else cur"
      have same: "hn_key ?cur = hn_key cur" using True by simp
      have "\<forall>h \<in> set hes'. hn_type h \<noteq> RangeDel" using 1(2) pre by simp
      moreover have "sorted (map hn_key (?cur # data hes'))" using 1(3) dt Some same by simp
      ultimately obtain c' pre' where "stream_loop fid ?cur hes' = Inr c'" "hes' = pre' @ c_rest c'"
        "c_file_id c' = fid"
        "c_cur c' = Some (pick ?cur (takeWhile (\<lambda>x. hn_key x = hn_key cur) (data hes')))"
        "upcoming c' = dropWhile (\<lambda>x. hn_key x = hn_key cur) (data hes')"
        using 1(1)[OF nx refl Some _ True] same True by (auto simp del: if_image_distrib)
      then show ?thesis using nx Some True pre dt
        by (intro exI[of _ c'] exI[of _ "pre @ pre'"]) (subst stream_loop.simps, auto simp: pick_def)
    next
      case False
      then show ?thesis using nx Some pre dt le
        by (subst stream_loop.simps) (auto simp: upcoming_def pick_def)
    qed
  qed
qed

text \<open>A loaded cursor sits on what its upcoming entries collapse to, up to the upper bound.\<close>

lemma stream_next_none: "stream_next hes = Inr (None, hes') \<Longrightarrow> data hes' = [] \<and> hes' = []"
  by (induction hes rule: stream_next.induct) (auto simp: data_def split: if_splits)

lemma stream_load_items:
  assumes ok: "cursor_ok c"
  shows "\<exists>c' pre. stream_load hi c = Inr c' \<and> c_rest c = pre @ c_rest c' \<and> c_file_id c' = c_file_id c \<and>
    cursor_ok c' \<and> items hi c' = tagged (c_file_id c) (below hi (collapse (upcoming c)))"
proof -
  have nr: "\<forall>h \<in> set (c_rest c). hn_type h \<noteq> RangeDel" and srt: "sorted (map hn_key (upcoming c))"
    using ok by (auto simp: cursor_ok_def)
  obtain pre0 ho hes where
    nx: "(case c_lookahead c of Some l \<Rightarrow> Inr (Some l, c_rest c) | None \<Rightarrow> stream_next (c_rest c)) = Inr (ho, hes)"
    and pre0: "c_rest c = pre0 @ hes"
    and pend: "upcoming c = (case ho of None \<Rightarrow> [] | Some h \<Rightarrow> [h]) @ data hes"
    and none: "ho = None \<Longrightarrow> data hes = [] \<and> hes = [] \<and> c_lookahead c = None"
  proof (cases "c_lookahead c")
    case None
    from stream_next_data[OF nr] obtain pre hes' ho' where
      "stream_next (c_rest c) = Inr (ho', hes')" "c_rest c = pre @ hes'"
      "data (c_rest c) = (case ho' of None \<Rightarrow> [] | Some h \<Rightarrow> [h]) @ data hes'" by blast
    then show thesis
      using that[of ho' hes' pre] None stream_next_none[of "c_rest c" hes'] by (auto simp: upcoming_def)
  next
    case (Some l)
    then show thesis using that[of "Some l" "c_rest c" "[]"] by (simp add: upcoming_def)
  qed
  show ?thesis
  proof (cases ho)
    case None
    let ?c = "c\<lparr>c_rest := hes, c_cur := None\<rparr>"
    have "stream_load hi c = Inr ?c" using nx None by (simp add: stream_load_def)
    moreover have "upcoming c = []" using pend None none by simp
    ultimately show ?thesis using pre0 none[OF None]
      by (intro exI[of _ ?c] exI[of _ pre0])
         (simp add: cursor_ok_def upcoming_def items_def tagged_def below_def data_def)
  next
    case (Some he)
    have pend': "upcoming c = he # data hes" using pend Some by simp
    show ?thesis
    proof (cases "below_hi hi (hn_key he)")
      case True
      have nr': "\<forall>h \<in> set hes. hn_type h \<noteq> RangeDel" using nr pre0 by simp
      from stream_loop_collapse[OF nr', of he "c_file_id c"] srt pend' obtain c' pre where
        c': "stream_loop (c_file_id c) he hes = Inr c'" "hes = pre @ c_rest c'" "c_file_id c' = c_file_id c"
        "c_cur c' = Some (pick he (takeWhile (\<lambda>x. hn_key x = hn_key he) (data hes)))"
        "upcoming c' = dropWhile (\<lambda>x. hn_key x = hn_key he) (data hes)" by auto
      have k: "hn_key (pick he (takeWhile (\<lambda>x. hn_key x = hn_key he) (data hes))) = hn_key he"
        by (rule pick_key) (auto dest: set_takeWhileD)
      have "stream_load hi c = Inr c'" using nx Some True c'(1) by (simp add: stream_load_def)
      moreover have "cursor_ok c'"
      proof -
        have srt': "sorted (map hn_key (he # data hes))" using srt pend' by simp
        have "sorted (map hn_key (upcoming c'))"
          unfolding c'(5) using srt' by (intro sorted_map_dropWhile) simp
        moreover have "hn_key he < hn_key x" if "x \<in> set (upcoming c')" for x
          using sorted_dropWhile_gt[OF srt'] that by (simp add: c'(5))
        moreover have "\<forall>h \<in> set (c_rest c'). hn_type h \<noteq> RangeDel" using nr' c'(2) by simp
        ultimately show ?thesis using c'(4) k by (simp add: cursor_ok_def)
      qed
      moreover have "items hi c' = tagged (c_file_id c) (below hi (collapse (upcoming c)))"
        using c' k True pend' by (simp add: items_def below_def)
      ultimately show ?thesis using c' pre0 by (intro exI[of _ c'] exI[of _ "pre0 @ pre"]) simp
    next
      case False
      let ?c = "\<lparr>c_file_id = c_file_id c, c_rest = hes, c_cur = None, c_lookahead = None\<rparr>"
      have k: "hn_key (pick he (takeWhile (\<lambda>x. hn_key x = hn_key he) (data hes))) = hn_key he"
        by (rule pick_key) (auto dest: set_takeWhileD)
      have "stream_load hi c = Inr ?c" using nx Some False by (simp add: stream_load_def)
      moreover have "sorted (map hn_key (data hes))" using srt unfolding pend' by simp
      then have "cursor_ok ?c" using nr pre0 by (simp add: cursor_ok_def upcoming_def)
      moreover have "items hi ?c = tagged (c_file_id c) (below hi (collapse (upcoming c)))"
        using False pend' k by (simp add: items_def below_def tagged_def)
      ultimately show ?thesis using pre0 by (intro exI[of _ ?c] exI[of _ pre0]) simp
    qed
  qed
qed

lemma items_ascending:
  assumes "cursor_ok c"
  shows "ascending (items hi c)"
proof (cases "c_cur c")
  case None
  then show ?thesis by (simp add: items_def)
next
  case (Some h)
  let ?cs = "collapse (upcoming c)"
  have asc: "sorted_wrt (<) (map hn_key ?cs)"
    using assms by (intro collapse_ascending) (simp add: cursor_ok_def)
  have gt: "hn_key h < hn_key x" if "x \<in> set ?cs" for x
  proof -
    have "hn_key x \<in> set (map hn_key (upcoming c))"
      using that collapse_keys[of "upcoming c"] by (metis image_eqI list.set_map)
    then show ?thesis using assms Some by (auto simp: cursor_ok_def)
  qed
  have "sorted_wrt (<) (map hn_key (below hi ?cs))"
    unfolding below_def by (rule sorted_map_takeWhile[OF asc])
  moreover have "hn_key h < hn_key x" if "x \<in> set (below hi ?cs)" for x
    using that gt by (auto simp: below_def dest: set_takeWhileD)
  ultimately show ?thesis using Some by (simp add: items_def tagged_def comp_def)
qed

text \<open>Advancing a cursor on its head drops that head.\<close>

lemma stream_load_tail:
  assumes "cursor_ok c" and "items hi c = x # xs"
  shows "\<exists>c' pre. stream_load hi c = Inr c' \<and> c_rest c = pre @ c_rest c' \<and> cursor_ok c' \<and>
    c_file_id c' = c_file_id c \<and> items hi c' = xs"
  using stream_load_items[OF assms(1), of hi] assms(2)
  by (auto simp: items_def tagged_def split: option.splits)

section \<open>The three loops are merges\<close>

lemma cursor_keys_heads: "cursor_keys cs = map fst (run_heads (map (items hi) cs))"
  unfolding cursor_keys_def List.map_filter_def
  by (induction cs) (auto simp: items_def tagged_def split: option.splits)

lemma sits_on_head: "sits_on k c \<longleftrightarrow> on_head (items hi) k c"
  by (auto simp: sits_on_def on_head_def items_def tagged_def split: option.splits)

lemma matches_heads: "matches_on k cs = map snd (filter (\<lambda>(k', x). k' = k) (run_heads (map (items hi) cs)))"
  unfolding matches_on_def
  by (induction cs) (auto simp: sits_on_def items_def tagged_def split: option.splits)

lemma stream_load_all_advance:
  "advance_all (\<lambda>c s. rbind (stream_load hi c) (\<lambda>c'. Inr (c', s))) sel cs s =
    rbind (stream_load_all hi sel cs) (\<lambda>cs'. Inr (cs', s))"
proof (induction cs)
  case (Cons c cs)
  show ?case
    by (cases "sel c"; cases "stream_load hi c"; cases "stream_load_all hi sel cs") (simp_all add: Cons)
qed simp

interpretation streams: kway_merge cursor_ok "items hi" "\<lambda>c s. rbind (stream_load hi c) (\<lambda>c'. Inr (c', s))"
  "\<lambda>so. so" "stream_key rts" "stream_key rts" "stream_merge hi rts" for hi rts
proof (unfold_locales, goal_cases)
  case (1 c)
  then show ?case by (rule items_ascending)
next
  case (2 c x xs s)
  from stream_load_tail[OF this] show ?case by auto
next
  case (3 k ms s)
  then show ?case by (cases "stream_key rts k ms s") simp_all
next
  case (4 cs s)
  show ?case
    by (subst stream_merge.simps)
       (simp add: cursor_keys_heads[of _ hi] matches_heads[of _ _ hi] sits_on_head[of _ _ hi, abs_def]
         stream_load_all_advance split: option.split, simp add: rbind_def split: sum.split)
qed

text \<open>A worker's cursor loads as a stream does, and notes the entries it steps over.\<close>

lemma next_data_stream:
  "stream_next hes = Inr (ho, hes') \<Longrightarrow>
    \<exists>pre. hes = pre @ hes' \<and> next_data fid hes m = Inr (ho, hes', fold (note_hint fid) pre m)"
proof (induction hes arbitrary: m rule: stream_next.induct)
  case (2 he hes)
  show ?case
  proof (cases "data_type (hn_type he)")
    case True
    then show ?thesis using 2(2)
      by (intro exI[of _ "[he]"]) (auto simp: data_type_def Let_def)
  next
    case False
    with 2(2) have "hn_type he \<noteq> RangeDel" and "stream_next hes = Inr (ho, hes')" by (auto split: if_splits)
    with 2(1)[of "note_hint fid he m"] False obtain pre where "hes = pre @ hes'"
      "next_data fid hes (note_hint fid he m) = Inr (ho, hes', fold (note_hint fid) pre (note_hint fid he m))"
      by blast
    then show ?thesis using False \<open>hn_type he \<noteq> RangeDel\<close>
      by (intro exI[of _ "he # pre"]) (simp add: Let_def)
  qed
qed simp

lemma load_loop_stream:
  "stream_loop fid cur hes = Inr c' \<Longrightarrow>
    \<exists>pre. hes = pre @ c_rest c' \<and> load_loop fid cur hes m = Inr (c', fold (note_hint fid) pre m)"
proof (induction fid cur hes arbitrary: m rule: stream_loop.induct)
  case (1 fid cur hes)
  obtain ho hes1 where nx: "stream_next hes = Inr (ho, hes1)"
    using 1(2) by (subst (asm) stream_loop.simps) (auto simp: result_simps)
  from next_data_stream[OF nx, of fid m] obtain pre where
    pre: "hes = pre @ hes1" and nd: "next_data fid hes m = Inr (ho, hes1, fold (note_hint fid) pre m)" by blast
  show ?case
  proof (cases ho)
    case None
    then show ?thesis using 1(2) nx nd pre
      by (subst (asm) stream_loop.simps, subst load_loop.simps) auto
  next
    case (Some he)
    show ?thesis
    proof (cases "hn_key he = hn_key cur")
      case True
      let ?cur = "if hn_sequence he > hn_sequence cur then he else cur"
      have "stream_loop fid ?cur hes1 = Inr c'"
        using 1(2) nx Some True by (subst (asm) stream_loop.simps) simp
      from 1(1)[OF nx refl Some _ True this] True obtain pre' where "hes1 = pre' @ c_rest c'"
        "load_loop fid ?cur hes1 (fold (note_hint fid) pre m) =
          Inr (c', fold (note_hint fid) pre' (fold (note_hint fid) pre m))" by auto
      then show ?thesis using nd Some True pre
        by (intro exI[of _ "pre @ pre'"]) (subst load_loop.simps, simp)
    next
      case False
      then show ?thesis using 1(2) nx nd pre Some
        by (subst (asm) stream_loop.simps, subst load_loop.simps) (auto split: if_splits)
    qed
  qed
qed

lemma load_stream:
  assumes "stream_load None c = Inr c'"
  shows "\<exists>pre. c_rest c = pre @ c_rest c' \<and> load c m = Inr (c', fold (note_hint (c_file_id c)) pre m)"
proof (cases "c_lookahead c")
  case (Some l)
  then show ?thesis using assms load_loop_stream by (simp add: stream_load_def load_def below_hi_def)
next
  case None
  with assms obtain ho hes where nx: "stream_next (c_rest c) = Inr (ho, hes)"
    by (auto simp: stream_load_def result_simps)
  from next_data_stream[OF nx] obtain pre where pre: "c_rest c = pre @ hes"
    and nd: "next_data (c_file_id c) (c_rest c) m = Inr (ho, hes, fold (note_hint (c_file_id c)) pre m)" by blast
  show ?thesis
  proof (cases ho)
    case None1: None
    then show ?thesis using assms None nx nd pre by (auto simp: stream_load_def load_def)
  next
    case (Some he)
    with assms None nx have "stream_loop (c_file_id c) he hes = Inr c'"
      by (simp add: stream_load_def below_hi_def)
    from load_loop_stream[OF this, of "fold (note_hint (c_file_id c)) pre m"] obtain pre' where
      "hes = pre' @ c_rest c'"
      "load_loop (c_file_id c) he hes (fold (note_hint (c_file_id c)) pre m) =
        Inr (c', fold (note_hint (c_file_id c)) pre' (fold (note_hint (c_file_id c)) pre m))" by blast
    then show ?thesis using None nd pre Some by (intro exI[of _ "pre @ pre'"]) (simp add: load_def)
  qed
qed

text \<open>What a visit of a key sees of the merge: everything but the notes.\<close>

definition unnoted :: "merge_state \<Rightarrow> merge_state" where
  "unnoted m = m\<lparr>ms_max_seq := 0, ms_fstats := []\<rparr>"

definition part_view :: "merge_state \<times> key_dir \<Rightarrow> merge_state \<times> key_dir" where
  "part_view = map_prod unnoted id"

definition part_visit :: "key \<Rightarrow> hint_match list \<Rightarrow> merge_state \<times> key_dir \<Rightarrow> (merge_state \<times> key_dir) result" where
  "part_visit k ms s = merge_key k ms (fst s) (snd s)"

definition part_adv :: "Cursor \<Rightarrow> merge_state \<times> key_dir \<Rightarrow> (Cursor \<times> merge_state \<times> key_dir) result" where
  "part_adv c s = rbind (load c (fst s)) (\<lambda>(c', m'). Inr (c', m', snd s))"

lemma unnoted_note [simp]: "unnoted (note_hint fid he m) = unnoted m"
  by (simp add: unnoted_def note_hint_def)

lemma unnoted_notes [simp]: "unnoted (fold (note_hint fid) hes m) = unnoted m"
  by (induction hes arbitrary: m) simp_all

lemma unnoted_fields [simp]:
  "ms_ranges (unnoted m) = ms_ranges m" "ms_needed (unnoted m) = ms_needed m"
  "ms_tombstones (unnoted m) = ms_tombstones m" "ms_markers (unnoted m) = ms_markers m"
  "ms_skipped (unnoted m) = ms_skipped m"
  by (simp_all add: unnoted_def)

lemma part_visit_view: "map_sum id part_view (part_visit k ms s) = part_visit k ms (part_view s)"
proof -
  obtain m out where s: "s = (m, out)" by fastforce
  have upd: "unnoted (m\<lparr>ms_tombstones := a, ms_ranges := b, ms_needed := d\<rparr>) =
      (unnoted m)\<lparr>ms_tombstones := a, ms_ranges := b, ms_needed := d\<rparr>" for a b d
    by (simp add: unnoted_def)
  show ?thesis
    by (simp add: s part_visit_def part_view_def merge_key_def Let_def upd split: prod.split)
       (auto simp: rbind_def upd split: sum.split)
qed

lemma load_all_advance:
  "advance_all part_adv sel cs (m, out) = rbind (load_all sel cs m) (\<lambda>(cs', m'). Inr (cs', m', out))"
proof (induction cs arbitrary: m)
  case (Cons c cs)
  have step: "part_adv c (m, out) = rbind (load c m) (\<lambda>(c', m'). Inr (c', m', out))"
    by (simp add: part_adv_def)
  show ?case
  proof (cases "sel c")
    case True
    show ?thesis
    proof (cases "load c m")
      case (Inr r)
      then show ?thesis using True Cons[of "snd r"]
        by (cases r; cases "load_all sel cs (snd r)") (auto simp: step)
    qed (simp add: True step)
  next
    case False
    then show ?thesis using Cons[of m] by (cases "load_all sel cs m") auto
  qed
qed simp

interpretation parts: kway_merge cursor_ok "items None" part_adv part_view part_visit part_visit
  "\<lambda>cs s. merge_loop cs (fst s) (snd s)"
proof (unfold_locales, goal_cases)
  case (1 c)
  then show ?case by (rule items_ascending)
next
  case (2 c x xs s)
  from stream_load_tail[OF this] obtain c' where c': "stream_load None c = Inr c'" "cursor_ok c'" "items None c' = xs"
    by auto
  from load_stream[OF c'(1), of "fst s"] obtain pre where
    "load c (fst s) = Inr (c', fold (note_hint (c_file_id c)) pre (fst s))" by blast
  with c' show ?case by (auto simp: part_adv_def part_view_def map_prod_def split: prod.split)
next
  case (3 k ms s)
  show ?case by (rule part_visit_view)
next
  case (4 cs s)
  obtain m out where s: "s = (m, out)" by fastforce
  show ?case
    unfolding s fst_conv snd_conv
    by (subst merge_loop.simps)
       (simp add: cursor_keys_heads[of _ None] matches_heads[of _ _ None] sits_on_head[of _ _ None, abs_def]
         part_visit_def split: option.split, auto simp: rbind_def load_all_advance split: sum.split prod.split)
qed

text \<open>The trees of the workers: a cursor is the list of the entries it has left.\<close>

definition tree_slice :: "key option \<Rightarrow> key_dir \<Rightarrow> key_dir" where
  "tree_slice hi c = takeWhile (\<lambda>(k, e). below_hi hi k) c"

definition tree_ok :: "tombstones \<Rightarrow> key_dir \<Rightarrow> bool" where
  "tree_ok ts c \<longleftrightarrow> ascending c \<and> ascending ts"

definition tree_visit ::
  "tombstones \<Rightarrow> (nat \<times> RangeTombstone) list \<Rightarrow> key \<Rightarrow> KeyDirEntry list \<Rightarrow> RangeOut \<Rightarrow> RangeOut result" where
  "tree_visit ts rts k es ro = range_key rts k es (map_of ts k) ro"

lemma live_heads: "List.map_filter (live_head hi) cs = run_heads (map (tree_slice hi) cs)"
  unfolding List.map_filter_def
  by (induction cs) (auto simp: live_head_def tree_slice_def split: list.splits prod.splits)

lemma on_key_head: "on_key hi k c \<longleftrightarrow> on_head (tree_slice hi) k c"
  by (auto simp: on_key_def on_head_def live_head_def tree_slice_def split: list.splits prod.splits)

lemma advance_on_all:
  "advance_all (\<lambda>c s. Inr (tl c, s)) (on_head (tree_slice hi) k) cs s = Inr (advance_on hi k cs, s)"
  by (induction cs) (auto simp: advance_on_def on_key_head)

lemma tomb_on_drop: "ascending ts \<Longrightarrow> tomb_on k (dropWhile (\<lambda>(k', p). k' < k) ts) = map_of ts k"
proof (induction ts)
  case (Cons x ts)
  obtain j p where x: "x = (j, p)" by fastforce
  show ?case
  proof (cases "j < k")
    case True
    then show ?thesis using Cons x by auto
  next
    case False
    have "map_of ts k = None" if "j \<noteq> k"
      using that False Cons.prems x by (force simp: map_of_eq_None_iff)
    then show ?thesis using False x by (simp add: tomb_on_def)
  qed
qed (simp add: tomb_on_def)

lemma dropWhile_dropWhile: "(\<And>x. Q x \<Longrightarrow> P x) \<Longrightarrow> dropWhile P (dropWhile Q xs) = dropWhile P xs"
  by (induction xs) auto

lemma range_loop_drop:
  assumes "\<forall>j \<in> fst ` set (run_heads (map (tree_slice hi) cs)). k \<le> j"
  shows "range_loop hi rts (dropWhile (\<lambda>(k', p). k' < k) ts) cs ro = range_loop hi rts ts cs ro"
proof (cases "least_key (map fst (run_heads (map (tree_slice hi) cs)))")
  case None
  then show ?thesis by (subst (1 2) range_loop.simps) (simp add: live_heads)
next
  case (Some j)
  then have "k \<le> j" using least_key_mem[OF Some] assms by auto
  then have "dropWhile (\<lambda>(k', p). k' < j) (dropWhile (\<lambda>(k', p). k' < k) ts) = dropWhile (\<lambda>(k', p). k' < j) ts"
    by (intro dropWhile_dropWhile) auto
  then show ?thesis using Some by (subst (1 2) range_loop.simps) (simp add: live_heads)
qed

lemma slice_ascending: "ascending c \<Longrightarrow> ascending (tree_slice hi c)"
  unfolding tree_slice_def by (rule sorted_map_takeWhile)

lemma advance_on_slices:
  assumes "list_all ascending cs"
  shows "map (tree_slice hi) (advance_on hi k cs) = map (run_tail k) (map (tree_slice hi) cs)"
  using assms
proof (induction cs)
  case (Cons c cs)
  have "tree_slice hi (if on_key hi k c then tl c else c) = run_tail k (tree_slice hi c)"
    by (cases c) (auto simp: on_key_head on_head_def tree_slice_def run_tail_def split: prod.splits)
  then show ?case using Cons by (simp add: advance_on_def)
qed (simp add: advance_on_def)

interpretation trees: kway_merge "tree_ok ts" "tree_slice hi" "\<lambda>c s. Inr (tl c, s)" "\<lambda>ro. ro"
  "tree_visit ts rts" "tree_visit ts rts" "range_loop hi rts ts" for hi rts ts
proof (unfold_locales, goal_cases)
  case (1 c)
  then show ?case by (simp add: tree_ok_def slice_ascending)
next
  case (2 c x xs s)
  then show ?case by (cases c) (auto simp: tree_ok_def tree_slice_def split: if_splits)
next
  case (3 k ms s)
  show ?case by (cases "tree_visit ts rts k ms s") simp_all
next
  case (4 cs s)
  show ?case
  proof (cases "least_key (map fst (run_heads (map (tree_slice hi) cs)))")
    case None
    then show ?thesis by (subst range_loop.simps) (simp add: live_heads)
  next
    case (Some k)
    then have "cs \<noteq> []" by (cases cs) auto
    with 4 have asc: "list_all ascending cs" and ts: "ascending ts"
      by (auto simp: tree_ok_def list_all_iff neq_Nil_conv)
    have "list_all ascending (map (tree_slice hi) cs)"
      using asc by (simp add: list_all_iff slice_ascending)
    then have low: "\<forall>j \<in> run_keys (map (tree_slice hi) cs). k \<le> j" using heads_below[OF _ Some] by blast
    have "\<forall>j \<in> fst ` set (run_heads (map (tree_slice hi) (advance_on hi k cs))). k \<le> j"
      using run_heads_keys[of "map (tree_slice hi) (advance_on hi k cs)"] low
        tails_keys[OF \<open>list_all ascending (map (tree_slice hi) cs)\<close> low]
      unfolding advance_on_slices[OF asc] by blast
    then have drop: "range_loop hi rts (dropWhile (\<lambda>(k', p). k' < k) ts) (advance_on hi k cs) =
        range_loop hi rts ts (advance_on hi k cs)"
      by (intro ext range_loop_drop)
    show ?thesis
      by (subst range_loop.simps)
         (simp add: live_heads heads_on_def Some tree_visit_def tomb_on_drop[OF ts] drop advance_on_all Let_def)
  qed
qed

end
