(* ===== verification/Recovery.thy ===== *)
theory Recovery
  imports RecoveryStreams "HOL-Library.Char_ord"
begin

text \<open>
  Opening a database (\<^verbatim>\<open>db_recovery.cpp\<close> and the constructor in \<^verbatim>\<open>db.cpp\<close>): the files found in the
  directory, the cut of a torn tail, the load of their hints and the repair of an interrupted
  vacuum. A new process knows a file only by its bytes, so opening one makes its length the logical
  end. Staged hint files are not part of the directory.
\<close>

section \<open>Sequence overlaps\<close>

definition range_list :: "file_stats \<Rightarrow> (nat \<times> nat \<times> nat) list" where
  "range_list fss = sort_key fst (map (\<lambda>(f, fs). (min_sequence fs, max_sequence fs, f))
     (filter (\<lambda>(f, fs). min_sequence fs > 0) fss))"

fun first_overlap :: "(nat \<times> nat \<times> nat) option \<Rightarrow> (nat \<times> nat \<times> nat) list \<Rightarrow> (nat \<times> nat) option" where
  "first_overlap prev [] = None"
| "first_overlap prev (r # rs) =
    (case prev of
       None \<Rightarrow> first_overlap (Some r) rs
     | Some p \<Rightarrow> if fst r \<le> fst (snd p) then Some (snd (snd p), snd (snd r)) else first_overlap (Some r) rs)"

definition find_sequence_overlap :: "EngineState \<Rightarrow> (nat \<times> nat) option" where
  "find_sequence_overlap s = first_overlap None (range_list (file_stats s))"

text \<open>
  Every entry of the copy is in the source, in order. Both scans are lazy: an error of one is thrown
  when it is reached.
\<close>

fun match_copy :: "DataEntry list \<Rightarrow> error option \<Rightarrow> DataEntry list \<Rightarrow> error option \<Rightarrow> bool result" where
  "match_copy [] cerr src serr = (case cerr of Some e \<Rightarrow> Inl e | None \<Rightarrow> Inr True)"
| "match_copy (c # cs) cerr [] serr = (case serr of Some e \<Rightarrow> Inl e | None \<Rightarrow> Inr False)"
| "match_copy (c # cs) cerr (s # ss) serr =
    (if e_sequence s > e_sequence c then Inr False
     else if s = c then (case serr of Some e \<Rightarrow> if ss = [] then Inl e else match_copy cs cerr ss serr
                         | None \<Rightarrow> match_copy cs cerr ss serr)
     else match_copy (c # cs) cerr ss serr)"

definition committed_of :: "build \<Rightarrow> path \<Rightarrow> db \<Rightarrow> DataEntry list \<times> error option" where
  "committed_of b p d =
    (case scan_committed (b_crc b) Throw (f_bytes (file_at p d)) 0 of (es, off, err) \<Rightarrow> (map fst es, err))"

definition is_compaction_of :: "build \<Rightarrow> path \<Rightarrow> path \<Rightarrow> (bool, db) io" where
  "is_compaction_of b copy source =
    io_bind (openDataFileForRead copy) (\<lambda>_.
    io_bind (openDataFileForRead source) (\<lambda>_.
    io_bind (io_get (committed_of b source)) (\<lambda>(src, serr).
    io_bind (io_get (committed_of b copy)) (\<lambda>(cs, cerr).
      io_lift (if src = [] \<and> serr \<noteq> None then Inl (the serr) else match_copy cs cerr src serr)))))"

definition recovery_undo_interrupted_vacuum :: "build \<Rightarrow> path \<Rightarrow> path \<Rightarrow> (unit, db) io" where
  "recovery_undo_interrupted_vacuum b p q =
    io_bind (io_get (\<lambda>d. length (f_bytes (file_at p d)) \<le> length (f_bytes (file_at q d)))) (\<lambda>p_smaller.
    let copy = (if p_smaller then p else q); source = (if p_smaller then q else p) in
    io_bind (is_compaction_of b copy source) (\<lambda>ok.
    if \<not> ok then io_throw (RuntimeError ''bytecask: corrupt database - data files hold entries under the same sequence numbers'')
    else io_bind (remove_hint (path_stem copy)) (\<lambda>_. remove_file copy)))"

section \<open>The tail of a file without a hint\<close>

definition tail_is_zero :: "bytes \<Rightarrow> nat \<Rightarrow> bool" where
  "tail_is_zero bs end = list_all (\<lambda>x. x = 0) (drop end bs)"

abbreviation (input) kEntryTypeOffset :: nat where "kEntryTypeOffset \<equiv> 8"

definition first_sequence :: "bytes \<Rightarrow> nat" where
  "first_sequence bs =
    (if length bs < kHeaderSize then 0
     else let h = read_header (take kHeaderSize bs) in
       if \<not> is_known_entry_type (h_entry_type h) \<and> tail_is_zero bs kEntryTypeOffset then 0
       else h_sequence h)"

fun check_others :: "build \<Rightarrow> path \<Rightarrow> nat \<Rightarrow> path list \<Rightarrow> (unit, db) io" where
  "check_others b p sequ [] = io_ret ()"
| "check_others b p sequ (q # qs) =
    (if q = p then check_others b p sequ qs
     else
       io_bind (openDataFileForRead q) (\<lambda>_.
       io_bind (io_get id) (\<lambda>d.
       let bs = f_bytes (file_at q d) in
       if sequ \<noteq> 0 \<and> first_sequence bs > sequ then
         io_throw (RuntimeError ''bytecask: corrupt database - not the file a crash could have torn; refusing to truncate it'')
       else if map_of (hints d) (path_stem q) \<noteq> None then check_others b p sequ qs
       else (case scan_committed (b_crc b) Stop bs 0 of (es, off, err) \<Rightarrow>
         if \<not> tail_is_zero bs off then
           io_throw (RuntimeError ''bytecask: corrupt database - two files hold data past their last committed record'')
         else check_others b p sequ qs))))"

definition recovery_check_tail :: "build \<Rightarrow> path \<Rightarrow> nat \<Rightarrow> path list \<Rightarrow> (unit, db) io" where
  "recovery_check_tail b p end data_paths =
    io_bind (io_get (\<lambda>d. f_bytes (file_at p d))) (\<lambda>bs.
    if tail_is_zero bs end then io_ret ()
    else check_others b p (first_sequence bs) data_paths)"

definition truncate_durably :: "path \<Rightarrow> nat \<Rightarrow> (unit, db) io" where
  "truncate_durably p sz =
    io_bind io_point (\<lambda>_.
    io_bind (update_file p (\<lambda>f. f\<lparr>f_bytes := take sz (f_bytes f), f_size := sz,
               f_synced := min (f_synced f) sz\<rparr>)) (\<lambda>_.
      sync_file p))"

section \<open>The files of the directory\<close>

definition extension :: "path \<Rightarrow> string" where
  "extension p = drop (length (path_stem p)) p"

definition is_staging :: "path \<Rightarrow> bool" where
  "is_staging p \<longleftrightarrow> extension p = ''.tmp'' \<and>
     (extension (path_stem p) = ''.hint'' \<or> extension (path_stem p) = ''.data'')"

definition data_paths_of :: "path list \<Rightarrow> path list" where
  "data_paths_of ps = sort (filter (\<lambda>p. extension p = ''.data'') ps)"

definition open_recovered :: "path \<Rightarrow> (unit, db) io" where
  "open_recovered p =
    io_bind (openDataFileForRead p) (\<lambda>_. update_file p (\<lambda>f. f\<lparr>f_size := length (f_bytes f)\<rparr>))"

definition cut_tail :: "build \<Rightarrow> path list \<Rightarrow> path \<Rightarrow> nat \<Rightarrow> (unit, db) io" where
  "cut_tail b data_paths p end =
    io_bind (recovery_check_tail b p end data_paths) (\<lambda>_.
    io_bind (io_get (\<lambda>d. f_size (file_at p d))) (\<lambda>sz.
      if end < sz then truncate_durably p end else io_ret ()))"

definition recover_file :: "build \<Rightarrow> path list \<Rightarrow> nat \<Rightarrow> path \<Rightarrow> (RecoveredFile, db) io" where
  "recover_file b data_paths fid p =
    io_bind (io_get (\<lambda>d. map_of (hints d) (path_stem p) = None)) (\<lambda>hintless.
    io_bind (io_get (\<lambda>d. length (f_bytes (file_at p d)))) (\<lambda>sz.
    io_bind (if hintless then rewrite_durably p sz else io_ret ()) (\<lambda>_.
    io_bind (open_recovered p) (\<lambda>_.
    io_bind (if hintless then flush_hints_for b p (Some (cut_tail b data_paths p)) else io_ret ()) (\<lambda>_.
    io_bind (io_get (\<lambda>d. length (f_bytes (file_at p d)))) (\<lambda>sz'.
    io_bind (if sz' < sz then open_recovered p else io_ret ()) (\<lambda>_.
      io_ret \<lparr>rf_file_id = fid, rf_data_file = p, rf_total_bytes = sz'\<rparr>)))))))"

fun recover_files :: "build \<Rightarrow> path list \<Rightarrow> nat \<Rightarrow> path list \<Rightarrow> (RecoveredFile list, db) io" where
  "recover_files b data_paths fid [] = io_ret []"
| "recover_files b data_paths fid (p # ps) =
    io_bind (recover_file b data_paths fid p) (\<lambda>rf.
    io_bind (recover_files b data_paths (fid + 1) ps) (\<lambda>rfs. io_ret (rf # rfs)))"

definition recovery_prepare_files :: "build \<Rightarrow> (EngineState \<times> RecoveredFile list, db) io" where
  "recovery_prepare_files b =
    io_bind io_point (\<lambda>_.
    io_bind (io_get (\<lambda>d. map fst (dir d))) (\<lambda>names.
    io_bind (io_each remove_file (filter is_staging names)) (\<lambda>_.
    let data_paths = data_paths_of names in
    if length data_paths > kMaxFileId then io_throw (RuntimeError ''DB::open: too many data files'')
    else
      io_bind (recover_files b data_paths 0 data_paths) (\<lambda>rfs.
        io_ret (EngineState_new\<lparr>files := map (\<lambda>rf. (rf_file_id rf, rf_data_file rf)) rfs,
                  next_file_id := length data_paths\<rparr>, rfs)))))"

section \<open>Opening\<close>

text \<open>What the load of either key directory leaves to the tree and to the hint frames.\<close>

record load_layout =
  lay_separators :: "key_dir \<Rightarrow> nat \<Rightarrow> key list"
  lay_positions :: "RecoveredFile \<Rightarrow> hint_pos"

definition recovery_load :: "build \<Rightarrow> load_layout \<Rightarrow> Options \<Rightarrow> EngineState \<Rightarrow> RecoveredFile list \<Rightarrow> (EngineState, db) io" where
  "recovery_load b lay o1 s rfs =
    (if b_reads_keys b
     then recovery_load_streams b (lay_positions lay) (recovery_threads o1) (fail_recovery_on_crc_errors o1) s rfs
     else recovery_load_ranged b (lay_separators lay) (recovery_threads o1) (fail_recovery_on_crc_errors o1) s rfs)"

text \<open>
  One pass: \<^term>\<open>Inl\<close> the two files that overlap, \<^term>\<open>Inr\<close> the recovered state.
\<close>

definition recovery_pass :: "build \<Rightarrow> load_layout \<Rightarrow> Options \<Rightarrow> ((path \<times> path) + EngineState, db) io" where
  "recovery_pass b lay o1 =
    io_bind (io_modify (\<lambda>d. d\<lparr>needed_tombstones := \<lparr>horizon = 0, needed_sequences = []\<rparr>\<rparr>)) (\<lambda>_.
    io_bind (recovery_prepare_files b) (\<lambda>(s, rfs).
    io_bind (io_attempt (recovery_load b lay o1 s rfs)) (\<lambda>loaded. case loaded of
        Inr s' \<Rightarrow>
          (case find_sequence_overlap s' of
             None \<Rightarrow> io_ret (Inr s')
           | Some (x, y) \<Rightarrow> io_ret (Inl (path_of s x, path_of s y)))
      | Inl (SequenceOverlap x y) \<Rightarrow> io_ret (Inl (path_of s x, path_of s y))
      | Inl e \<Rightarrow> io_throw e)))"

text \<open>Each pass but the last removes a data file, so the number of files bounds the passes.\<close>

fun recovery_open_loop :: "build \<Rightarrow> load_layout \<Rightarrow> Options \<Rightarrow> nat \<Rightarrow> (EngineState option, db) io" where
  "recovery_open_loop b lay o1 0 = io_ret None"
| "recovery_open_loop b lay o1 (Suc n) =
    io_bind (recovery_pass b lay o1) (\<lambda>r. case r of
        Inr s \<Rightarrow> io_ret (Some s)
      | Inl (p, q) \<Rightarrow> io_bind (recovery_undo_interrupted_vacuum b p q) (\<lambda>_. recovery_open_loop b lay o1 n))"

definition recovery_open :: "build \<Rightarrow> load_layout \<Rightarrow> Options \<Rightarrow> (EngineState option, db) io" where
  "recovery_open b lay o1 =
    io_bind (io_get (\<lambda>d. length (dir d))) (\<lambda>n. recovery_open_loop b lay o1 (Suc n))"

definition db_settings :: "Options \<Rightarrow> db \<Rightarrow> db" where
  "db_settings o1 d = d\<lparr>rotation_threshold := max_file_bytes o1, max_hint_backlog := opt_max_hint_backlog o1,
     size_limits := \<lparr>max_key_bytes = opt_max_key_bytes o1, max_value_bytes = opt_max_value_bytes o1\<rparr>,
     scratch_bytes := thread_scratch_bytes o1, write_fault := False, flush_error := None, worker := []\<rparr>"

text \<open>
  The constructor: the settings, the directory and its lock, recovery, the new active file. The
  result is \<^term>\<open>False\<close> only if the passes ran out.
\<close>

definition db_open :: "build \<Rightarrow> load_layout \<Rightarrow> Options \<Rightarrow> (bool, db) io" where
  "db_open b lay o1 =
    io_bind (io_lift (check_options o1)) (\<lambda>_.
    io_bind (io_modify (db_settings o1)) (\<lambda>_.
    io_bind sync_directory (\<lambda>_.
    io_bind io_point (\<lambda>_.
    io_bind (recovery_open b lay o1) (\<lambda>r. case r of
        None \<Rightarrow> io_ret False
      | Some s \<Rightarrow> io_bind (open_active b o1 s) (\<lambda>_. io_ret True))))))"

end
