(* ===== verification/RecoveryCorrect.thy ===== *)
theory RecoveryCorrect
  imports RecoveryMerge Recovery
begin

text \<open>
  Recovery is right: whatever the number of threads and wherever the ranges are cut, the key
  directory it loads maps each key to its newest entry when that is a put no newer range tombstone
  covers, and holds no other key.
\<close>

section \<open>What the hint files say\<close>

text \<open>The hint files of an open: file ids with the entries of their hints.\<close>

type_synonym hint_files = "(nat \<times> HintEntry list) list"

definition hint_head :: "HintEntry list \<Rightarrow> HintEntry list" where
  "hint_head hes = takeWhile (\<lambda>h. \<not> data_type (hn_type h)) hes"

definition hint_run :: "HintEntry list \<Rightarrow> HintEntry list" where
  "hint_run hes = dropWhile (\<lambda>h. \<not> data_type (hn_type h)) hes"

definition sorted_hints :: "HintEntry list \<Rightarrow> bool" where
  "sorted_hints hes \<longleftrightarrow>
     list_all (\<lambda>h. hn_type h \<in> {BulkBegin, BulkEnd, ChangeMarker, RangeDel}) (hint_head hes) \<and>
     list_all (\<lambda>h. data_type (hn_type h)) (hint_run hes) \<and> sorted (map hn_key (hint_run hes))"

definition ranges_of :: "nat \<Rightarrow> HintEntry list \<Rightarrow> RangeTombstone list" where
  "ranges_of fid hes = map (\<lambda>h. \<lparr>rt_start = hn_key h, rt_end = hn_end_key h, rt_seq = hn_sequence h,
     rt_file_id = fid, rt_needed = False\<rparr>) (filter (\<lambda>h. hn_type h = RangeDel) hes)"

definition markers_of :: "HintEntry list \<Rightarrow> change_marker list" where
  "markers_of hes = map (\<lambda>h. \<lparr>since_sequence = hn_sequence h, marker_id = hn_marker_id h\<rparr>)
     (filter (\<lambda>h. hn_type h = ChangeMarker) hes)"

text \<open>The newest entry each file holds for a key.\<close>

definition file_match :: "key \<Rightarrow> nat \<times> HintEntry list \<Rightarrow> hint_match list" where
  "file_match k f = (case filter (\<lambda>h. hn_key h = k) (data (snd f)) of
     [] \<Rightarrow> [] | h # hs \<Rightarrow> [(pick h hs, fst f)])"

definition matches :: "hint_files \<Rightarrow> key \<Rightarrow> hint_match list" where
  "matches fs k = concat (map (file_match k) fs)"

definition all_ranges :: "hint_files \<Rightarrow> RangeTombstone list" where
  "all_ranges fs = concat (map (\<lambda>(fid, hes). ranges_of fid hes) fs)"

definition match_kde :: "hint_match \<Rightarrow> KeyDirEntry" where
  "match_kde m = kde_pack (hn_sequence (fst m)) (hn_file_offset (fst m)) (snd m) (hn_value_size (fst m))"

definition decide :: "RangeTombstone list \<Rightarrow> key \<Rightarrow> hint_match list \<Rightarrow> KeyDirEntry option" where
  "decide rts k ms =
    (case ms of
       [] \<Rightarrow> None
     | m # ms' \<Rightarrow>
         let w = newest m ms' in
         if hn_type (fst w) = Put \<and> \<not> suppressed rts k (hn_sequence (fst w)) then Some (match_kde w) else None)"

text \<open>The entry recovery gives a key.\<close>

definition recovered :: "hint_files \<Rightarrow> key \<Rightarrow> KeyDirEntry option" where
  "recovered fs k = decide (all_ranges fs) k (matches fs k)"

text \<open>Entries that fit a key directory entry, under sequences of their own.\<close>

definition hint_fits :: "HintEntry \<Rightarrow> bool" where
  "hint_fits h \<longleftrightarrow> 0 < hn_sequence h \<and> hn_sequence h \<le> kMaxSequence \<and> hn_file_offset h \<le> kMaxFileOffset \<and>
     hn_value_size h \<le> kMaxValueSize \<and> length (hn_key h) \<le> kMaxKeySize"

definition hints_ok :: "hint_files \<Rightarrow> bool" where
  "hints_ok fs \<longleftrightarrow> (\<forall>(fid, hes) \<in> set fs. fid \<le> kMaxFileId \<and> sorted_hints hes \<and> (\<forall>h \<in> set hes. hint_fits h)) \<and>
     distinct (map fst fs) \<and> distinct (map hn_sequence (concat (map snd fs)))"

section \<open>The newest of a list\<close>

lemma newest_mem: "newest w ms \<in> set (w # ms)"
  by (induction ms arbitrary: w) auto

lemma newest_max: "x \<in> set (w # ms) \<Longrightarrow> hn_sequence (fst x) \<le> hn_sequence (fst (newest w ms))"
proof (induction ms arbitrary: w x)
  case (Cons m ms)
  let ?w = "if hn_sequence (fst m) > hn_sequence (fst w) then m else w"
  have up: "hn_sequence (fst ?w) \<le> hn_sequence (fst (newest ?w ms))"
    using Cons.IH[of ?w ?w] by simp
  show ?case
  proof (cases "x \<in> set ms")
    case True
    then show ?thesis using Cons.IH[of x ?w] by simp
  next
    case False
    then show ?thesis using Cons.prems up by (auto split: if_splits)
  qed
qed simp

text \<open>With sequences of their own the newest is determined by the set of entries.\<close>

lemma decide_Some_iff:
  assumes "inj_on (\<lambda>m. hn_sequence (fst m)) (set ms)"
  shows "decide rts k ms = Some e \<longleftrightarrow>
    (\<exists>w \<in> set ms. (\<forall>x \<in> set ms. hn_sequence (fst x) \<le> hn_sequence (fst w)) \<and> hn_type (fst w) = Put \<and>
       \<not> suppressed rts k (hn_sequence (fst w)) \<and> e = match_kde w)"
proof (cases ms)
  case Nil
  then show ?thesis by (simp add: decide_def)
next
  case (Cons m ms')
  let ?n = "newest m ms'"
  have n: "?n \<in> set ms" "\<And>x. x \<in> set ms \<Longrightarrow> hn_sequence (fst x) \<le> hn_sequence (fst ?n)"
    using Cons newest_mem[of m ms'] newest_max[of _ m ms'] by auto
  have uniq: "w = ?n" if "w \<in> set ms" "\<forall>x \<in> set ms. hn_sequence (fst x) \<le> hn_sequence (fst w)" for w
  proof -
    have "hn_sequence (fst w) = hn_sequence (fst ?n)" using that n by (meson le_antisym)
    with assms that(1) n(1) show ?thesis by (auto dest: inj_onD)
  qed
  have "decide rts k ms = Some e \<longleftrightarrow>
      hn_type (fst ?n) = Put \<and> \<not> suppressed rts k (hn_sequence (fst ?n)) \<and> e = match_kde ?n"
    by (auto simp: decide_def Cons Let_def)
  also have "\<dots> \<longleftrightarrow> (\<exists>w \<in> set ms. (\<forall>x \<in> set ms. hn_sequence (fst x) \<le> hn_sequence (fst w)) \<and>
      hn_type (fst w) = Put \<and> \<not> suppressed rts k (hn_sequence (fst w)) \<and> e = match_kde w)"
    using n uniq by blast
  finally show ?thesis .
qed

lemma suppressed_cong:
  assumes "map (\<lambda>rt. rt\<lparr>rt_needed := False\<rparr>) rts = map (\<lambda>rt. rt\<lparr>rt_needed := False\<rparr>) rts'"
  shows "suppressed rts k n = suppressed rts' k n"
proof -
  have *: "suppressed xs k n = list_ex (\<lambda>rt. \<not> n \<ge> rt_seq rt \<and> covers rt k) (map (\<lambda>rt. rt\<lparr>rt_needed := False\<rparr>) xs)" for xs
    by (induction xs) (simp_all add: suppressed_def covers_def)
  show ?thesis by (simp add: * assms)
qed

section \<open>One worker\<close>

text \<open>A file's collapsed run holds its newest entry for each key.\<close>

lemma takeWhile_sorted_filter:
  assumes "sorted (map hn_key (h # hs))"
  shows "takeWhile (\<lambda>x. hn_key x = hn_key h) hs = filter (\<lambda>x. hn_key x = hn_key h) hs"
  using assms
proof (induction hs)
  case (Cons y hs)
  show ?case
  proof (cases "hn_key y = hn_key h")
    case True
    then show ?thesis using Cons by simp
  next
    case False
    then have "hn_key x \<noteq> hn_key h" if "x \<in> set hs" for x
      using Cons.prems that by force
    then show ?thesis using False by (simp add: filter_empty_conv)
  qed
qed simp

lemma filter_dropWhile_other:
  "k \<noteq> j \<Longrightarrow> filter (\<lambda>x. hn_key x = k) (dropWhile (\<lambda>x. hn_key x = j) hs) = filter (\<lambda>x. hn_key x = k) hs"
  by (induction hs) auto

lemma collapse_match:
  assumes "sorted (map hn_key hs)"
  shows "filter (\<lambda>h. hn_key h = k) (collapse hs) =
    (case filter (\<lambda>h. hn_key h = k) hs of [] \<Rightarrow> [] | h # hs' \<Rightarrow> [pick h hs'])"
  using assms
proof (induction hs rule: collapse.induct)
  case (2 h hs)
  let ?d = "dropWhile (\<lambda>x. hn_key x = hn_key h) hs"
  have key: "hn_key (pick h (takeWhile (\<lambda>x. hn_key x = hn_key h) hs)) = hn_key h"
    by (rule pick_key) (auto dest: set_takeWhileD)
  have sd: "sorted (map hn_key ?d)" using 2(2) by (intro sorted_map_dropWhile) simp
  show ?case
  proof (cases "k = hn_key h")
    case True
    have "filter (\<lambda>x. hn_key x = k) (collapse ?d) = []"
    proof -
      have "hn_key h < j" if "j \<in> set (map hn_key (collapse ?d))" for j
        using that sorted_dropWhile_gt[OF 2(2)] unfolding collapse_keys by auto
      then show ?thesis using True by (force simp: filter_empty_conv)
    qed
    then show ?thesis using True key takeWhile_sorted_filter[OF 2(2)] by simp
  next
    case False
    then show ?thesis using 2(1)[OF sd] key by (simp add: filter_dropWhile_other)
  qed
qed simp

lemma data_hint_run: "sorted_hints hes \<Longrightarrow> data hes = hint_run hes"
proof -
  assume "sorted_hints hes"
  then have "data (hint_run hes) = hint_run hes" "data (hint_head hes) = []"
    by (auto simp: sorted_hints_def data_def list_all_iff filter_empty_conv hint_head_def dest: set_takeWhileD)
  moreover have "hes = hint_head hes @ hint_run hes" by (simp add: hint_head_def hint_run_def)
  ultimately show ?thesis by (metis append_Nil data_simps(3))
qed

definition file_run :: "nat \<times> HintEntry list \<Rightarrow> (key \<times> hint_match) list" where
  "file_run f = tagged (fst f) (collapse (data (snd f)))"

lemma file_run_match:
  assumes "sorted_hints (snd f)"
  shows "map snd (filter (\<lambda>(k', x). k' = k) (file_run f)) = file_match k f"
proof -
  have srt: "sorted (map hn_key (data (snd f)))"
    using assms by (simp add: data_hint_run) (simp add: sorted_hints_def)
  have "map snd (filter (\<lambda>(k', x). k' = k) (tagged fid hs)) = map (\<lambda>h. (h, fid)) (filter (\<lambda>h. hn_key h = k) hs)" for fid hs
    by (induction hs) (auto simp: tagged_def)
  then show ?thesis
    by (simp add: file_run_def file_match_def collapse_match[OF srt] split: list.split)
qed

lemma runs_matches:
  assumes "\<forall>f \<in> set fs. sorted_hints (snd f)"
  shows "at_key k (map file_run fs) = matches fs k"
  using assms by (induction fs) (simp_all add: matches_def file_run_match)

text \<open>Reading the head of a file leaves its run.\<close>

definition head_noted :: "nat \<Rightarrow> HintEntry list \<Rightarrow> merge_state \<Rightarrow> merge_state" where
  "head_noted fid hes m = (unnoted m)\<lparr>ms_ranges := ms_ranges m @ ranges_of fid hes,
     ms_markers := ms_markers m @ markers_of hes\<rparr>"

lemma read_head_run:
  assumes "list_all (\<lambda>h. hn_type h \<in> {BulkBegin, BulkEnd, ChangeMarker, RangeDel}) (hint_head hes)"
    and "list_all (\<lambda>h. data_type (hn_type h)) (hint_run hes)"
  shows "\<exists>c m' pre. read_head fid hes m = (c, m') \<and> c_file_id c = fid \<and> c_cur c = None \<and>
    upcoming c = hint_run hes \<and> hes = pre @ c_rest c \<and>
    (\<forall>h \<in> set (c_rest c). data_type (hn_type h)) \<and> unnoted m' = head_noted fid hes m"
  using assms
proof (induction hes arbitrary: m)
  case Nil
  show ?case by (simp add: hint_run_def upcoming_def head_noted_def ranges_of_def markers_of_def unnoted_def)
next
  case (Cons he hes)
  show ?case
  proof (cases "data_type (hn_type he)")
    case True
    let ?c = "\<lparr>c_file_id = fid, c_rest = hes, c_cur = None, c_lookahead = Some he\<rparr>"
    have rh: "read_head fid (he # hes) m = (?c, note_hint fid he m)"
      using True by (cases "hn_type he") (auto simp: data_type_def Let_def)
    have all: "list_all (\<lambda>h. data_type (hn_type h)) (he # hes)" using Cons.prems(2) True by (simp add: hint_run_def)
    have up: "upcoming ?c = he # hes"
    proof -
      have "data hes = hes" using all by (induction hes) auto
      then show ?thesis by (simp add: upcoming_def)
    qed
    have "ranges_of fid (he # hes) = []" "markers_of (he # hes) = []"
      using all by (auto simp: ranges_of_def markers_of_def filter_empty_conv list_all_iff data_type_def)
    then have "unnoted (note_hint fid he m) = head_noted fid (he # hes) m"
      by (simp add: head_noted_def)
    with rh up all True show ?thesis
      by (intro exI[of _ ?c] exI[of _ "note_hint fid he m"] exI[of _ "[he]"]) (simp add: hint_run_def list_all_iff)
  next
    case False
    have pr: "list_all (\<lambda>h. hn_type h \<in> {BulkBegin, BulkEnd, ChangeMarker, RangeDel}) (hint_head hes)"
      "list_all (\<lambda>h. data_type (hn_type h)) (hint_run hes)"
      and ty: "hn_type he \<in> {BulkBegin, BulkEnd, ChangeMarker, RangeDel}"
      using Cons.prems False by (auto simp: hint_head_def hint_run_def)
    define m1 where "m1 = (case hn_type he of
        RangeDel \<Rightarrow> (note_hint fid he m)\<lparr>ms_ranges := ms_ranges (note_hint fid he m) @
          [\<lparr>rt_start = hn_key he, rt_end = hn_end_key he, rt_seq = hn_sequence he, rt_file_id = fid, rt_needed = False\<rparr>]\<rparr>
      | ChangeMarker \<Rightarrow> (note_hint fid he m)\<lparr>ms_markers := ms_markers (note_hint fid he m) @
          [\<lparr>since_sequence = hn_sequence he, marker_id = hn_marker_id he\<rparr>]\<rparr>
      | _ \<Rightarrow> note_hint fid he m)"
    have rh: "read_head fid (he # hes) m = read_head fid hes m1"
      using ty by (auto simp: m1_def Let_def)
    have hn: "head_noted fid hes m1 = head_noted fid (he # hes) m"
      using ty by (auto simp: m1_def head_noted_def ranges_of_def markers_of_def unnoted_def note_hint_def)
    from Cons.IH[OF pr, of m1] obtain c m' pre where "read_head fid hes m1 = (c, m')" "c_file_id c = fid"
      "c_cur c = None" "upcoming c = hint_run hes" "hes = pre @ c_rest c"
      "\<forall>h \<in> set (c_rest c). data_type (hn_type h)" "unnoted m' = head_noted fid hes m1" by blast
    with rh hn False show ?thesis
      by (intro exI[of _ c] exI[of _ m'] exI[of _ "he # pre"]) (simp add: hint_run_def)
  qed
qed

fun read_heads :: "hint_files \<Rightarrow> merge_state \<Rightarrow> Cursor list \<times> merge_state" where
  "read_heads [] m = ([], m)"
| "read_heads ((fid, hes) # fs) m =
    (let (c, m1) = read_head fid hes m; (cs, m2) = read_heads fs m1 in (c # cs, m2))"

lemma head_noted_Nil: "unnoted m = (unnoted m)\<lparr>ms_ranges := ms_ranges m @ [], ms_markers := ms_markers m @ []\<rparr>"
  by (simp add: unnoted_def)

lemma read_heads_runs:
  assumes "\<forall>f \<in> set fs. sorted_hints (snd f)"
  shows "\<exists>cs m'. read_heads fs m = (cs, m') \<and> list_all cursor_ok cs \<and>
    map (\<lambda>c. tagged (c_file_id c) (collapse (upcoming c))) cs = map file_run fs \<and>
    unnoted m' = (unnoted m)\<lparr>ms_ranges := ms_ranges m @ all_ranges fs,
      ms_markers := ms_markers m @ concat (map (\<lambda>f. markers_of (snd f)) fs)\<rparr>"
  using assms
proof (induction fs arbitrary: m)
  case Nil
  show ?case using head_noted_Nil by (simp add: all_ranges_def)
next
  case (Cons f fs)
  obtain fid hes where f: "f = (fid, hes)" by fastforce
  have srt: "sorted_hints hes" using Cons.prems f by simp
  from read_head_run[of hes fid m] srt obtain c m1 pre where
    c: "read_head fid hes m = (c, m1)" "c_file_id c = fid" "c_cur c = None" "upcoming c = hint_run hes"
      "hes = pre @ c_rest c" "\<forall>h \<in> set (c_rest c). data_type (hn_type h)"
    and m1: "unnoted m1 = head_noted fid hes m" by (auto simp: sorted_hints_def)
  from Cons.IH[of m1] Cons.prems obtain cs m' where
    cs: "read_heads fs m1 = (cs, m')" "list_all cursor_ok cs"
      "map (\<lambda>c. tagged (c_file_id c) (collapse (upcoming c))) cs = map file_run fs"
    and m': "unnoted m' = (unnoted m1)\<lparr>ms_ranges := ms_ranges m1 @ all_ranges fs,
      ms_markers := ms_markers m1 @ concat (map (\<lambda>f. markers_of (snd f)) fs)\<rparr>" by auto
  have "cursor_ok c"
    using c srt by (auto simp: cursor_ok_def sorted_hints_def data_type_def)
  moreover have "ms_ranges m1 = ms_ranges m @ ranges_of fid hes" "ms_markers m1 = ms_markers m @ markers_of hes"
    using arg_cong[OF m1, of ms_ranges] arg_cong[OF m1, of ms_markers] by (simp_all add: head_noted_def)
  moreover have "tagged (c_file_id c) (collapse (upcoming c)) = file_run f"
    using c(2,4) by (simp add: file_run_def f data_hint_run[OF srt])
  ultimately show ?case using f c cs m' m1
    by (auto simp: all_ranges_def head_noted_def)
qed

lemma load_all_first:
  assumes "list_all cursor_ok cs"
  shows "\<exists>cs' m'. load_all (\<lambda>c. True) cs m = Inr (cs', m') \<and> list_all cursor_ok cs' \<and> unnoted m' = unnoted m \<and>
    map (items None) cs' = map (\<lambda>c. tagged (c_file_id c) (collapse (upcoming c))) cs"
  using assms
proof (induction cs arbitrary: m)
  case (Cons c cs)
  have all: "below None hs = hs" for hs by (simp add: below_def below_hi_def)
  from stream_load_items[of c None] Cons.prems obtain c' where
    c': "stream_load None c = Inr c'" "cursor_ok c'" "items None c' = tagged (c_file_id c) (collapse (upcoming c))"
    by (auto simp: all)
  from load_stream[OF c'(1), of m] obtain pre where
    ld: "load c m = Inr (c', fold (note_hint (c_file_id c)) pre m)" by blast
  from Cons.IH[of "fold (note_hint (c_file_id c)) pre m"] Cons.prems obtain cs' m' where
    "load_all (\<lambda>c. True) cs (fold (note_hint (c_file_id c)) pre m) = Inr (cs', m')" "list_all cursor_ok cs'"
    "unnoted m' = unnoted m" "map (items None) cs' = map (\<lambda>c. tagged (c_file_id c) (collapse (upcoming c))) cs"
    by auto
  then show ?case using ld c' by auto
qed simp

subsection \<open>Visiting the keys\<close>

definition unflagged :: "RangeTombstone list \<Rightarrow> RangeTombstone list" where
  "unflagged rts = map (\<lambda>rt. rt\<lparr>rt_needed := False\<rparr>) rts"

lemma unflagged_mark [simp]: "unflagged (mark_ranges k ms rts) = unflagged rts"
  by (simp add: unflagged_def mark_ranges_def)

lemma decide_unflagged: "unflagged rts = unflagged rts' \<Longrightarrow> decide rts k ms = decide rts' k ms"
  unfolding unflagged_def decide_def
  by (cases ms) (simp_all add: Let_def suppressed_cong[of rts rts'])

definition match_fits :: "hint_match \<Rightarrow> bool" where
  "match_fits m \<longleftrightarrow> hint_fits (fst m) \<and> snd m \<le> kMaxFileId"

definition visited :: "key \<Rightarrow> hint_match list \<Rightarrow> merge_state \<Rightarrow> merge_state" where
  "visited k ms m = m\<lparr>ms_tombstones := note_deletes k ms (ms_tombstones m),
     ms_ranges := mark_ranges k ms (ms_ranges m), ms_needed := mark_points ms (ms_needed m)\<rparr>"

lemma part_visit_ok:
  assumes "ms \<noteq> []" and "\<forall>m \<in> set ms. match_fits m" and "\<forall>m \<in> set ms. hn_key (fst m) = k"
  shows "part_visit k ms (m, out) = Inr (visited k ms m, out @ (case decide (ms_ranges m) k ms of None \<Rightarrow> [] | Some e \<Rightarrow> [(k, e)]))"
proof -
  obtain x xs where ms: "ms = x # xs" using assms(1) by (cases ms) auto
  let ?w = "newest x xs"
  have w: "match_fits ?w" "hn_key (fst ?w) = k" using newest_mem[of x xs] assms(2,3) ms by auto
  have dec: "suppressed (mark_ranges k ms (ms_ranges m)) k n = suppressed (ms_ranges m) k n" for n
    by (rule suppressed_cong) (simp only: unflagged_def[symmetric] unflagged_mark)
  have kde: "kde_make (hn_sequence (fst ?w)) (hn_file_offset (fst ?w)) (snd ?w) (hn_value_size (fst ?w)) = Inr (match_kde ?w)"
    using w(1) by (simp add: kde_make_iff match_kde_def match_fits_def hint_fits_def)
  have "length k \<le> kMaxKeySize" using w by (auto simp: match_fits_def hint_fits_def)
  then show ?thesis
    unfolding part_visit_def merge_key_def
    using kde
    by (auto simp: ms dec[unfolded ms] Let_def visited_def recovery_mark_needed_def decide_def bulk_append_def split: prod.splits)
qed

lemma parts_fold:
  assumes "\<forall>(k, ms) \<in> set gs. ms \<noteq> [] \<and> (\<forall>m \<in> set ms. match_fits m \<and> hn_key (fst m) = k)"
  shows "rfold (\<lambda>(k, ms). part_visit k ms) gs (m, out) =
    Inr (fold (\<lambda>(k, ms). visited k ms) gs m,
         out @ concat (map (\<lambda>(k, ms). case decide (ms_ranges m) k ms of None \<Rightarrow> [] | Some e \<Rightarrow> [(k, e)]) gs))"
  using assms
proof (induction gs arbitrary: m out)
  case (Cons g gs)
  obtain k ms where g: "g = (k, ms)" by fastforce
  have v: "part_visit k ms (m, out) = Inr (visited k ms m, out @ (case decide (ms_ranges m) k ms of None \<Rightarrow> [] | Some e \<Rightarrow> [(k, e)]))"
    using Cons.prems g by (intro part_visit_ok) auto
  have "decide (ms_ranges (visited k ms m)) = decide (ms_ranges m)"
    by (intro ext decide_unflagged) (simp add: visited_def)
  then show ?case using Cons.IH Cons.prems g v by simp
qed simp

subsection \<open>Point tombstones\<close>

definition tomb_seq :: "tombstones \<Rightarrow> key \<Rightarrow> nat" where
  "tomb_seq ts k = (case map_of ts k of None \<Rightarrow> 0 | Some p \<Rightarrow> pt_seq p)"

definition del_seq :: "hint_match list \<Rightarrow> nat" where
  "del_seq ms = fold (\<lambda>m. max (hn_sequence (fst m))) (filter (\<lambda>m. hn_type (fst m) = Delete) ms) 0"

lemma note_tombstone_keys: "fst ` set (note_tombstone k p ts) = insert k (fst ` set ts)"
  by (induction k p ts rule: note_tombstone.induct) auto

lemma note_tombstone_ascending: "ascending ts \<Longrightarrow> ascending (note_tombstone k p ts)"
proof (induction k p ts rule: note_tombstone.induct)
  case (2 k p k' p' ts)
  then show ?case
    using note_tombstone_keys[of k p ts] by (auto simp: not_less_iff_gr_or_eq)
qed simp

lemma note_tombstone_seq:
  "ascending ts \<Longrightarrow> tomb_seq (note_tombstone k p ts) j = (if j = k then max (pt_seq p) (tomb_seq ts k) else tomb_seq ts j)"
proof (induction k p ts rule: note_tombstone.induct)
  case (1 k p)
  show ?case by (simp add: tomb_seq_def)
next
  case (2 k p k' p' ts)
  have none: "map_of ts k = None" if "k < k'"
    using 2(2) that by (force simp: map_of_eq_None_iff)
  show ?case
  proof (cases "k < k'")
    case True
    then show ?thesis using none by (auto simp: tomb_seq_def)
  next
    case False
    then show ?thesis using 2 by (cases "k = k'") (auto simp: tomb_seq_def split: if_splits)
  qed
qed

lemma fold_note_tombstones:
  assumes "ascending ts"
  shows "ascending (fold (\<lambda>(k, p). note_tombstone k p) xs ts) \<and>
    tomb_seq (fold (\<lambda>(k, p). note_tombstone k p) xs ts) j =
      fold (\<lambda>x. max (pt_seq (snd x))) (filter (\<lambda>x. fst x = j) xs) (tomb_seq ts j)"
  using assms
proof (induction xs arbitrary: ts)
  case (Cons x xs)
  obtain k p where x: "x = (k, p)" by fastforce
  show ?case
    using Cons.IH[of "note_tombstone k p ts"] note_tombstone_ascending[OF Cons.prems, of k p]
      note_tombstone_seq[OF Cons.prems, of k p j] x by auto
qed simp

lemma fold_max_acc: "fold (\<lambda>x. max (f x)) xs (a :: nat) = max a (fold (\<lambda>x. max (f x)) xs 0)"
proof (induction xs arbitrary: a)
  case (Cons x xs)
  show ?case by (simp add: Cons[of "max (f x) a"] Cons[of "f x"] max.assoc max.left_commute)
qed simp

lemma note_deletes_seq:
  assumes "ascending ts"
  shows "ascending (note_deletes k ms ts) \<and>
    tomb_seq (note_deletes k ms ts) j = (if j = k then max (tomb_seq ts k) (del_seq ms) else tomb_seq ts j)"
proof -
  let ?xs = "map (\<lambda>(d, f). (k, \<lparr>pt_seq = hn_sequence d, pt_file_id = f\<rparr>)) (filter (\<lambda>m. hn_type (fst m) = Delete) ms)"
  have nd: "note_deletes k ms ts = fold (\<lambda>(k, p). note_tombstone k p) ?xs ts"
    by (simp add: note_deletes_def fold_map comp_def case_prod_unfold)
  have fm: "fold (\<lambda>x. max (pt_seq (snd x))) ?xs a = max a (del_seq ms)" for a
    by (subst fold_max_acc) (simp add: del_seq_def fold_map comp_def case_prod_unfold)
  have "filter (\<lambda>x. fst x = j) ?xs = (if j = k then ?xs else [])"
    by (auto simp: filter_empty_conv)
  then show ?thesis using fold_note_tombstones[OF assms, of ?xs j] fm by (simp add: nd)
qed

lemma visited_fields:
  "ms_tombstones (fold (\<lambda>(k, ms). visited k ms) gs m) = fold (\<lambda>(k, ms). note_deletes k ms) gs (ms_tombstones m)"
  "unflagged (ms_ranges (fold (\<lambda>(k, ms). visited k ms) gs m)) = unflagged (ms_ranges m)"
  "ms_markers (fold (\<lambda>(k, ms). visited k ms) gs m) = ms_markers m"
  "ms_skipped (fold (\<lambda>(k, ms). visited k ms) gs m) = ms_skipped m"
  by (induction gs arbitrary: m) (auto simp: visited_def)

lemma note_deletes_groups:
  assumes "ascending ts" and "ascending gs"
  shows "ascending (fold (\<lambda>(k, ms). note_deletes k ms) gs ts) \<and>
    tomb_seq (fold (\<lambda>(k, ms). note_deletes k ms) gs ts) j =
      max (tomb_seq ts j) (case map_of gs j of None \<Rightarrow> 0 | Some ms \<Rightarrow> del_seq ms)"
  using assms
proof (induction gs arbitrary: ts)
  case (Cons g gs)
  obtain k ms where g: "g = (k, ms)" by fastforce
  have "map_of gs k = None" using Cons.prems(2) g by (force simp: map_of_eq_None_iff)
  then show ?case
    using Cons.IH[of "note_deletes k ms ts"] note_deletes_seq[OF Cons.prems(1), of k ms j] Cons.prems(2) g
      note_deletes_seq[OF Cons.prems(1), of k ms k]
    by (auto split: option.splits)
qed simp

subsection \<open>The result of a worker\<close>

text \<open>What a part says of the files it was built from.\<close>

definition part_of :: "hint_files \<Rightarrow> RecoveryResult \<Rightarrow> bool" where
  "part_of fs r \<longleftrightarrow> ascending (rr_key_dir r) \<and> (\<forall>k. map_of (rr_key_dir r) k = recovered fs k) \<and>
     ascending (rr_tombstones r) \<and> (\<forall>k. tomb_seq (rr_tombstones r) k = del_seq (matches fs k)) \<and>
     unflagged (rr_ranges r) = all_ranges fs \<and> rr_markers r = concat (map (\<lambda>f. markers_of (snd f)) fs) \<and>
     \<not> rr_skipped r"

lemma all_ranges_unflagged: "unflagged (all_ranges fs) = all_ranges fs"
  by (auto simp: unflagged_def all_ranges_def ranges_of_def map_concat intro!: arg_cong[of _ _ concat])

lemma opt_run:
  assumes "ascending gs"
  shows "ascending (concat (map (\<lambda>(k, ms). case f k ms of None \<Rightarrow> [] | Some e \<Rightarrow> [(k, e)]) gs)) \<and>
    map_of (concat (map (\<lambda>(k, ms). case f k ms of None \<Rightarrow> [] | Some e \<Rightarrow> [(k, e)]) gs)) j =
      (case map_of gs j of None \<Rightarrow> None | Some ms \<Rightarrow> f j ms)"
  using assms
proof (induction gs)
  case (Cons g gs)
  obtain k ms where g: "g = (k, ms)" by fastforce
  let ?r = "concat (map (\<lambda>(k, ms). case f k ms of None \<Rightarrow> [] | Some e \<Rightarrow> [(k, e)]) gs)"
  have sub: "fst ` set ?r \<subseteq> fst ` set gs" by (force split: option.splits)
  have "k < x" if "x \<in> fst ` set ?r" for x using that sub Cons.prems g by auto
  moreover have "map_of gs k = None" using Cons.prems g by (force simp: map_of_eq_None_iff)
  ultimately show ?case using Cons g by (auto split: option.splits)
qed simp

subsection \<open>The notes of a worker\<close>

text \<open>Every entry of every file is noted once, in the order of its file.\<close>

definition note_list :: "(nat \<times> HintEntry) list \<Rightarrow> merge_state \<Rightarrow> merge_state" where
  "note_list L m = fold (\<lambda>(f, he). note_hint f he) L m"

definition notes_of :: "merge_state \<Rightarrow> nat \<times> file_stats" where
  "notes_of m = (ms_max_seq m, ms_fstats m)"

definition of_file :: "nat \<Rightarrow> (nat \<times> HintEntry) list \<Rightarrow> HintEntry list" where
  "of_file f L = map snd (filter (\<lambda>x. fst x = f) L)"

definition stepped :: "(nat \<times> HintEntry) list \<Rightarrow> Cursor \<Rightarrow> Cursor \<Rightarrow> bool" where
  "stepped L c c' \<longleftrightarrow> c_file_id c' = c_file_id c \<and> c_rest c = of_file (c_file_id c) L @ c_rest c'"

lemma of_file_simps [simp]:
  "of_file f [] = []"
  "of_file f (xs @ ys) = of_file f xs @ of_file f ys"
  "of_file f (map (Pair g) hes) = (if g = f then hes else [])"
  by (auto simp: of_file_def filter_map comp_def)

lemma of_file_none: "f \<notin> fst ` set L \<Longrightarrow> of_file f L = []"
  by (force simp: of_file_def filter_empty_conv)

lemma note_list_append: "note_list (xs @ ys) m = note_list ys (note_list xs m)"
  by (simp add: note_list_def)

lemma note_list_file: "note_list (map (Pair f) hes) m = fold (note_hint f) hes m"
  by (simp add: note_list_def fold_map comp_def)

lemma notes_of_hint: "notes_of m = notes_of m' \<Longrightarrow> notes_of (note_hint f he m) = notes_of (note_hint f he m')"
  by (simp add: notes_of_def note_hint_def)

lemma notes_of_list: "notes_of m = notes_of m' \<Longrightarrow> notes_of (note_list L m) = notes_of (note_list L m')"
proof (induction L arbitrary: m m')
  case (Cons x L)
  obtain f he where x: "x = (f, he)" by fastforce
  show ?case using Cons.IH[OF notes_of_hint[OF Cons.prems]] by (simp add: note_list_def x)
qed (simp add: note_list_def)

lemma load_all_notes:
  assumes "load_all sel cs m = Inr (cs', m')" and "list_all cursor_ok cs" and "distinct (map c_file_id cs)"
  shows "\<exists>L. m' = note_list L m \<and> list_all2 (stepped L) cs cs' \<and> fst ` set L \<subseteq> set (map c_file_id cs)"
  using assms
proof (induction cs arbitrary: m cs')
  case (Cons c cs)
  have "\<exists>c1 pre cs1. c_file_id c1 = c_file_id c \<and> c_rest c = pre @ c_rest c1 \<and> cs' = c1 # cs1 \<and>
      load_all sel cs (fold (note_hint (c_file_id c)) pre m) = Inr (cs1, m')"
  proof (cases "sel c")
    case True
    from stream_load_items[of c None] Cons.prems(2) obtain c' where
      c': "stream_load None c = Inr c'" "c_file_id c' = c_file_id c" by auto
    from load_stream[OF c'(1), of m] obtain pre where
      "c_rest c = pre @ c_rest c'" "load c m = Inr (c', fold (note_hint (c_file_id c)) pre m)" by blast
    moreover from this Cons.prems(1) True obtain cs1 where
      "load_all sel cs (fold (note_hint (c_file_id c)) pre m) = Inr (cs1, m')" "cs' = c' # cs1"
      by (auto simp: rbind_Inr_iff)
    ultimately show ?thesis using c'(2) by blast
  next
    case False
    with Cons.prems(1) obtain cs1 where "load_all sel cs m = Inr (cs1, m')" "cs' = c # cs1"
      by (auto simp: rbind_Inr_iff)
    then have "c_rest c = [] @ c_rest c \<and> cs' = c # cs1 \<and>
        load_all sel cs (fold (note_hint (c_file_id c)) [] m) = Inr (cs1, m')" by simp
    then show ?thesis by blast
  qed
  then obtain c1 pre cs1 where c1: "c_file_id c1 = c_file_id c" "c_rest c = pre @ c_rest c1" "cs' = c1 # cs1"
    and rest: "load_all sel cs (fold (note_hint (c_file_id c)) pre m) = Inr (cs1, m')" by blast
  from Cons.IH[OF rest] Cons.prems(2,3) obtain L where
    L: "m' = note_list L (fold (note_hint (c_file_id c)) pre m)" "list_all2 (stepped L) cs cs1"
      "fst ` set L \<subseteq> set (map c_file_id cs)" by auto
  let ?L = "map (Pair (c_file_id c)) pre @ L"
  have "c_file_id c \<notin> fst ` set L" using L(3) Cons.prems(3) by auto
  then have "stepped ?L c c1" using c1 by (simp add: stepped_def of_file_none)
  moreover have "list_all2 (stepped ?L) cs cs1"
  proof (rule list.rel_mono_strong[OF L(2)])
    fix c0 c0'
    assume "c0 \<in> set cs" and st: "stepped L c0 c0'"
    then have "c_file_id c \<noteq> c_file_id c0" using Cons.prems(3) by auto
    with st show "stepped ?L c0 c0'" by (simp add: stepped_def)
  qed
  ultimately show ?case using c1 L
    by (intro exI[of _ ?L]) (auto simp: note_list_append note_list_file)
qed (auto simp: note_list_def)

lemma stepped_trans: "stepped L c c' \<Longrightarrow> stepped L' c' c'' \<Longrightarrow> stepped (L @ L') c c''"
  by (simp add: stepped_def)

lemma stepped_all_trans:
  assumes "list_all2 (stepped L) cs cs'" and "list_all2 (stepped L') cs' cs''"
  shows "list_all2 (stepped (L @ L')) cs cs''"
  using list_all2_trans[OF _ assms] stepped_trans by blast

lemma stepped_ids: "list_all2 (stepped L) cs cs' \<Longrightarrow> map c_file_id cs' = map c_file_id cs"
  by (induction cs cs' rule: list_all2_induct) (auto simp: stepped_def)

definition spent :: "Cursor \<Rightarrow> bool" where
  "spent c \<longleftrightarrow> (c_cur c = None \<longrightarrow> c_rest c = [])"

lemma stream_load_spent: "stream_load None c = Inr c' \<Longrightarrow> spent c'"
proof -
  assume ld: "stream_load None c = Inr c'"
  have loop: "stream_loop fid cur hes = Inr x \<Longrightarrow> c_cur x \<noteq> None" for fid cur hes x
  proof (induction fid cur hes rule: stream_loop.induct)
    case (1 fid cur hes)
    obtain ho hes1 where nx: "stream_next hes = Inr (ho, hes1)"
      using 1(2) by (subst (asm) stream_loop.simps) (auto simp: rbind_Inr_iff)
    show ?case
    proof (cases ho)
      case None
      then show ?thesis using 1(2) nx by (subst (asm) stream_loop.simps) auto
    next
      case (Some he)
      show ?thesis
      proof (cases "hn_key he = hn_key cur")
        case True
        with 1(2) nx Some have "stream_loop fid (if hn_sequence he > hn_sequence cur then he else cur) hes1 = Inr x"
          by (subst (asm) stream_loop.simps) simp
        with 1(1)[OF nx refl Some _ True] True show ?thesis by simp
      next
        case False
        then show ?thesis using 1(2) nx Some by (subst (asm) stream_loop.simps) (auto split: if_splits)
      qed
    qed
  qed
  obtain ho hes where
    nx: "(case c_lookahead c of Some l \<Rightarrow> Inr (Some l, c_rest c) | None \<Rightarrow> stream_next (c_rest c)) = Inr (ho, hes)"
    and rest: "(case ho of None \<Rightarrow> Inr (c\<lparr>c_rest := hes, c_cur := None\<rparr>)
      | Some he \<Rightarrow> if \<not> below_hi None (hn_key he)
        then Inr \<lparr>c_file_id = c_file_id c, c_rest = hes, c_cur = None, c_lookahead = None\<rparr>
        else stream_loop (c_file_id c) he hes) = Inr c'"
    using ld by (auto simp: stream_load_def rbind_Inr_iff)
  show ?thesis
  proof (cases ho)
    case None
    then have "hes = []" using nx stream_next_none by (auto split: option.splits)
    then show ?thesis using rest None by (auto simp: spent_def)
  next
    case (Some he)
    then have "stream_loop (c_file_id c) he hes = Inr c'" using rest by (simp add: below_hi_def)
    from loop[OF this] show ?thesis by (auto simp: spent_def)
  qed
qed

lemma load_all_spent:
  assumes "load_all sel cs m = Inr (cs', m')" and "list_all cursor_ok cs"
    and "\<forall>c \<in> set cs. sel c \<or> spent c"
  shows "list_all cursor_ok cs' \<and> list_all spent cs'"
  using assms
proof (induction cs arbitrary: m cs')
  case (Cons c cs)
  show ?case
  proof (cases "sel c")
    case True
    from stream_load_items[of c None] Cons.prems(2) obtain c' where
      c': "stream_load None c = Inr c'" "cursor_ok c'" by auto
    from load_stream[OF c'(1), of m] obtain pre where
      "load c m = Inr (c', fold (note_hint (c_file_id c)) pre m)" by blast
    with Cons.prems(1) True obtain cs1 where
      "load_all sel cs (fold (note_hint (c_file_id c)) pre m) = Inr (cs1, m')" "cs' = c' # cs1"
      by (auto simp: rbind_Inr_iff)
    then show ?thesis using Cons.IH Cons.prems(2,3) c' stream_load_spent[OF c'(1)] by auto
  next
    case False
    with Cons.prems(1) obtain cs1 where "load_all sel cs m = Inr (cs1, m')" "cs' = c # cs1"
      by (auto simp: rbind_Inr_iff)
    then show ?thesis using Cons.IH Cons.prems(2,3) False by auto
  qed
qed simp

lemma merge_key_notes: "merge_key k ms m out = Inr (m', out') \<Longrightarrow> notes_of m' = notes_of m"
  by (auto simp: merge_key_def Let_def notes_of_def rbind_Inr_iff split: prod.splits if_splits)

lemma merge_loop_notes:
  assumes "merge_loop cs m out = Inr (m', out')" and "list_all cursor_ok cs" and "list_all spent cs"
    and "distinct (map c_file_id cs)"
  shows "\<exists>L. notes_of m' = notes_of (note_list L m) \<and> (\<forall>c \<in> set cs. c_rest c = of_file (c_file_id c) L) \<and>
    fst ` set L \<subseteq> set (map c_file_id cs)"
  using assms
proof (induction cs m out rule: merge_loop.induct)
  case (1 cs m out)
  show ?case
  proof (cases "least_key (cursor_keys cs)")
    case None
    then have "\<forall>c \<in> set cs. c_cur c = None"
      by (force simp: cursor_keys_def List.map_filter_def filter_empty_conv)
    then have "\<forall>c \<in> set cs. c_rest c = []" using 1(4) by (auto simp: list_all_iff spent_def)
    then show ?thesis using 1(2) None
      by (subst (asm) merge_loop.simps) (auto intro!: exI[of _ "[]"] simp: note_list_def)
  next
    case (Some k)
    from 1(2) Some obtain m1 out1 cs' m2 where
      mk: "merge_key k (matches_on k cs) m out = Inr (m1, out1)"
      and la: "load_all (sits_on k) cs m1 = Inr (cs', m2)"
      and ml: "merge_loop cs' m2 out1 = Inr (m', out')"
      by (subst (asm) merge_loop.simps) (auto simp: rbind_Inr_iff)
    from load_all_notes[OF la 1(3) 1(5)] obtain L1 where
      L1: "m2 = note_list L1 m1" "list_all2 (stepped L1) cs cs'" "fst ` set L1 \<subseteq> set (map c_file_id cs)" by blast
    have ok: "list_all cursor_ok cs'" "list_all spent cs'"
      using load_all_spent[OF la 1(3)] 1(4) by (auto simp: list_all_iff)
    have ids: "map c_file_id cs' = map c_file_id cs" by (rule stepped_ids[OF L1(2)])
    from 1(1)[OF Some mk refl la refl ml ok] ids 1(5) obtain L2 where
      L2: "notes_of m' = notes_of (note_list L2 m2)" "\<forall>c \<in> set cs'. c_rest c = of_file (c_file_id c) L2"
        "fst ` set L2 \<subseteq> set (map c_file_id cs)" by auto
    have "notes_of m' = notes_of (note_list (L1 @ L2) m)"
      using L2(1) L1(1) notes_of_list[OF merge_key_notes[OF mk], of "L1 @ L2"] by (simp add: note_list_append)
    moreover have "c_rest c = of_file (c_file_id c) (L1 @ L2)" if "c \<in> set cs" for c
    proof -
      from that obtain i where "i < length cs" "c = cs ! i" by (auto simp: in_set_conv_nth)
      with L1(2) have "cs' ! i \<in> set cs'" "stepped L1 c (cs' ! i)" by (auto simp: list_all2_conv_all_nth)
      then obtain c' where "c' \<in> set cs'" "stepped L1 c c'" by blast
      then show ?thesis using L2(2) by (simp add: stepped_def)
    qed
    ultimately show ?thesis using L1(3) L2(3) by (intro exI[of _ "L1 @ L2"]) auto
  qed
qed

lemma read_head_notes:
  "read_head fid hes m = (c, m') \<Longrightarrow>
    \<exists>pre. hes = pre @ c_rest c \<and> c_file_id c = fid \<and> notes_of m' = notes_of (note_list (map (Pair fid) pre) m)"
proof (induction fid hes m rule: read_head.induct)
  case (2 fid he hes m)
  show ?case
  proof (cases "hn_type he \<in> {RangeDel, BulkBegin, BulkEnd, ChangeMarker}")
    case True
    then obtain m1 where m1: "read_head fid hes m1 = (c, m')" "notes_of m1 = notes_of (note_hint fid he m)"
      and IH: "\<exists>pre. hes = pre @ c_rest c \<and> c_file_id c = fid \<and> notes_of m' = notes_of (note_list (map (Pair fid) pre) m1)"
      using 2 by (auto simp: Let_def notes_of_def)
    from IH obtain pre where pre: "hes = pre @ c_rest c" "c_file_id c = fid"
      "notes_of m' = notes_of (note_list (map (Pair fid) pre) m1)" by blast
    have "notes_of m' = notes_of (note_list (map (Pair fid) (he # pre)) m)"
      using pre(3) notes_of_list[OF m1(2), of "map (Pair fid) pre"] by (simp add: note_list_def)
    with pre show ?thesis by (intro exI[of _ "he # pre"]) simp
  next
    case False
    then have "c = \<lparr>c_file_id = fid, c_rest = hes, c_cur = None, c_lookahead = Some he\<rparr>" "m' = note_hint fid he m"
      using 2(5) by (cases "hn_type he"; simp add: Let_def)+
    then show ?thesis by (intro exI[of _ "[he]"]) (simp add: note_list_def)
  qed
qed (auto simp: note_list_def)

lemma read_heads_notes:
  assumes "read_heads fs m = (cs, m')" and "distinct (map fst fs)"
  shows "\<exists>L. notes_of m' = notes_of (note_list L m) \<and> fst ` set L \<subseteq> set (map fst fs) \<and>
    list_all2 (\<lambda>f c. c_file_id c = fst f \<and> snd f = of_file (fst f) L @ c_rest c) fs cs"
  using assms
proof (induction fs arbitrary: m cs)
  case Nil
  then show ?case by (intro exI[of _ "[]"]) (simp add: note_list_def)
next
  case (Cons f fs)
  obtain fid hes where f: "f = (fid, hes)" by fastforce
  obtain c m1 cs1 where rh: "read_head fid hes m = (c, m1)" and rs: "read_heads fs m1 = (cs1, m')" and cs: "cs = c # cs1"
    using Cons.prems(1) f by (auto simp: split: prod.splits)
  from read_head_notes[OF rh] obtain pre where
    pre: "hes = pre @ c_rest c" "c_file_id c = fid" "notes_of m1 = notes_of (note_list (map (Pair fid) pre) m)" by blast
  from Cons.IH[OF rs] Cons.prems(2) obtain L where
    L: "notes_of m' = notes_of (note_list L m1)" "fst ` set L \<subseteq> set (map fst fs)"
      "list_all2 (\<lambda>f c. c_file_id c = fst f \<and> snd f = of_file (fst f) L @ c_rest c) fs cs1" by auto
  let ?L = "map (Pair fid) pre @ L"
  have "notes_of m' = notes_of (note_list ?L m)"
    using L(1) notes_of_list[OF pre(3), of L] by (simp add: note_list_append)
  moreover have "of_file fid L = []" using L(2) Cons.prems(2) f by (intro of_file_none) auto
  moreover have "list_all2 (\<lambda>f c. c_file_id c = fst f \<and> snd f = of_file (fst f) ?L @ c_rest c) fs cs1"
    by (rule list.rel_mono_strong[OF L(3)]) (use Cons.prems(2) f in force)
  ultimately show ?case using pre cs f L(2) by (intro exI[of _ ?L]) auto
qed

definition file_stat :: "nat \<Rightarrow> HintEntry list \<Rightarrow> FileStats" where
  "file_stat tb hes = fold note_stats hes (FileStats_empty\<lparr>total_bytes := word_of_nat tb\<rparr>)"

definition max_hint_seq :: "hint_files \<Rightarrow> nat" where
  "max_hint_seq fs = fold (\<lambda>h. max (hn_sequence h)) (concat (map snd fs)) 0"

lemma note_list_max: "ms_max_seq (note_list L m) = fold (\<lambda>x. max (hn_sequence (snd x))) L (ms_max_seq m)"
proof (induction L arbitrary: m)
  case (Cons x L)
  have "ms_max_seq (note_hint f he m) = max (hn_sequence he) (ms_max_seq m)" for f he
    by (simp add: note_hint_def max_def)
  then show ?case using Cons by (cases x) (simp add: note_list_def)
qed (simp add: note_list_def)

lemma note_list_stats:
  assumes "fst ` set L \<subseteq> fst ` set (ms_fstats m)"
  shows "map fst (ms_fstats (note_list L m)) = map fst (ms_fstats m) \<and>
    fs_get (ms_fstats (note_list L m)) f = map_option (fold note_stats (of_file f L)) (fs_get (ms_fstats m) f)"
  using assms
proof (induction L arbitrary: m)
  case Nil
  then show ?case by (simp add: note_list_def option.map_ident)
next
  case (Cons x L)
  obtain g he where x: "x = (g, he)" by fastforce
  have upd: "map fst (AList.update k v al) = map fst al" if "k \<in> fst ` set al" for k v and al :: "(nat \<times> FileStats) list"
    using that by (induction al) auto
  have keys: "map fst (ms_fstats (note_hint g he m)) = map fst (ms_fstats m)"
    using Cons.prems x by (simp add: note_hint_def fs_set_def upd)
  then have keys': "fst ` set (ms_fstats (note_hint g he m)) = fst ` set (ms_fstats m)"
    by (metis list.set_map)
  have IH: "map fst (ms_fstats (note_list L (note_hint g he m))) = map fst (ms_fstats m)"
    "fs_get (ms_fstats (note_list L (note_hint g he m))) f =
      map_option (fold note_stats (of_file f L)) (fs_get (ms_fstats (note_hint g he m)) f)"
    using Cons.IH[of "note_hint g he m"] Cons.prems keys keys' x by auto
  have "\<exists>st. fs_get (ms_fstats m) g = Some st"
    using Cons.prems x by (auto simp: fs_get_def map_of_eq_None_iff simp flip: not_None_eq)
  then have "fs_get (ms_fstats (note_hint g he m)) f =
      (if f = g then map_option (note_stats he) (fs_get (ms_fstats m) g) else fs_get (ms_fstats m) f)"
    by (auto simp: note_hint_def fs_set_def fs_get_def update_conv')
  then show ?case using IH x
    by (auto simp: note_list_def of_file_def option.map_comp comp_def)
qed

text \<open>What a part says of the sequences and sizes of its files.\<close>

definition part_notes :: "(nat \<Rightarrow> nat) \<Rightarrow> hint_files \<Rightarrow> RecoveryResult \<Rightarrow> bool" where
  "part_notes size_of fs r \<longleftrightarrow> rr_max_seq r = max_hint_seq fs \<and> map fst (rr_file_stats r) = map fst fs \<and>
     (\<forall>(fid, hes) \<in> set fs. fs_get (rr_file_stats r) fid = Some (file_stat (size_of fid) hes))"

lemma fold_max_perm:
  assumes "set xs = set ys"
  shows "fold (\<lambda>x. max (f x)) xs (a :: nat) = fold (\<lambda>x. max (f x)) ys a"
proof -
  have fold: "fold (\<lambda>x. max (f x)) zs b = Max (insert b (f ` set zs))" for zs and b :: nat
  proof (induction zs arbitrary: b)
    case (Cons z zs)
    have "Max (insert (max (f z) b) (f ` set zs)) = Max (insert b (insert (f z) (f ` set zs)))"
      by (cases "zs = []") (simp_all add: max.assoc max.commute max.left_commute)
    then show ?case using Cons by simp
  qed simp
  show ?thesis by (simp add: fold assms)
qed

lemma groups_of_files:
  assumes "hints_ok fs" and "(k, ms) \<in> set (groups (map file_run fs))"
  shows "ms = matches fs k" and "ms \<noteq> []" and "\<forall>m \<in> set ms. match_fits m \<and> hn_key (fst m) = k"
proof -
  have srt: "\<forall>f \<in> set fs. sorted_hints (snd f)" using assms(1) by (auto simp: hints_ok_def)
  show ms: "ms = matches fs k" using assms(2) runs_matches[OF srt] by (simp add: groups_mem)
  show "ms \<noteq> []" by (rule groups_nonempty[OF assms(2)])
  show "\<forall>m \<in> set ms. match_fits m \<and> hn_key (fst m) = k"
  proof
    fix m
    assume "m \<in> set ms"
    then obtain f where f: "f \<in> set fs" and m: "m \<in> set (file_match k f)"
      by (auto simp: ms matches_def)
    from m obtain h hs where flt: "filter (\<lambda>h. hn_key h = k) (data (snd f)) = h # hs" and "m = (pick h hs, fst f)"
      by (cases "filter (\<lambda>h. hn_key h = k) (data (snd f))") (auto simp: file_match_def)
    moreover have "pick h hs \<in> set (h # hs)"
      unfolding pick_def by (induction hs arbitrary: h) auto
    then have "pick h hs \<in> {x \<in> set (data (snd f)). hn_key x = k}"
      using flt by (metis set_filter)
    ultimately show "match_fits m \<and> hn_key (fst m) = k"
      using assms(1) f by (auto simp: match_fits_def hints_ok_def data_def)
  qed
qed

lemma groups_of_matches:
  assumes "hints_ok fs"
  shows "(case map_of (groups (map file_run fs)) k of None \<Rightarrow> z | Some ms \<Rightarrow> g ms) =
    (if matches fs k = [] then z else g (matches fs k))"
proof -
  have srt: "\<forall>f \<in> set fs. sorted_hints (snd f)" using assms(1) by (auto simp: hints_ok_def)
  show ?thesis
    using at_key_empty[of k "map file_run fs"] by (auto simp: groups_map_of runs_matches[OF srt])
qed

lemma worker_notes:
  assumes fs: "map fst fs = map rf_file_id rfs" and dist: "distinct (map fst fs)"
    and cs: "read_heads fs (merge_start rfs) = (cs, m)" and okc: "list_all cursor_ok cs"
    and ld: "load_all (\<lambda>c. True) cs m = Inr (cs1, m1)" and ok1: "list_all cursor_ok cs1"
    and ml: "merge_loop cs1 m1 [] = Inr (m2, out)"
  shows "part_notes (\<lambda>f. case map_of (map (\<lambda>rf. (rf_file_id rf, rf_total_bytes rf)) rfs) f of None \<Rightarrow> 0 | Some n \<Rightarrow> n)
    fs (merge_result m2 out)"
proof -
  from read_heads_notes[OF cs dist] obtain L0 where
    L0: "notes_of m = notes_of (note_list L0 (merge_start rfs))" "fst ` set L0 \<subseteq> set (map fst fs)"
      "list_all2 (\<lambda>f c. c_file_id c = fst f \<and> snd f = of_file (fst f) L0 @ c_rest c) fs cs" by blast
  have ids: "map c_file_id cs = map fst fs"
    using L0(3) by (induction fs cs rule: list_all2_induct) auto
  from load_all_notes[OF ld okc] ids dist obtain L1 where
    L1: "m1 = note_list L1 m" "list_all2 (stepped L1) cs cs1" "fst ` set L1 \<subseteq> set (map fst fs)" by auto
  have ids1: "map c_file_id cs1 = map fst fs" using stepped_ids[OF L1(2)] ids by simp
  have "list_all spent cs1" using load_all_spent[OF ld okc] by simp
  from merge_loop_notes[OF ml ok1 this] ids1 dist obtain L2 where
    L2: "notes_of m2 = notes_of (note_list L2 m1)" "\<forall>c \<in> set cs1. c_rest c = of_file (c_file_id c) L2"
      "fst ` set L2 \<subseteq> set (map fst fs)" by auto
  let ?L = "L0 @ L1 @ L2"
  have nts: "notes_of m2 = notes_of (note_list ?L (merge_start rfs))"
    using L2(1) L1(1) notes_of_list[OF L0(1), of "L1 @ L2"] by (simp add: note_list_append)
  have each: "of_file (fst f) ?L = snd f" if "f \<in> set fs" for f
  proof -
    from that obtain i where i: "i < length fs" "f = fs ! i" by (auto simp: in_set_conv_nth)
    then have "c_file_id (cs ! i) = fst f" "snd f = of_file (fst f) L0 @ c_rest (cs ! i)" "stepped L1 (cs ! i) (cs1 ! i)"
      "cs1 ! i \<in> set cs1"
      using L0(3) L1(2) by (auto simp: list_all2_conv_all_nth)
    then show ?thesis using L2(2) by (simp add: stepped_def)
  qed
  have sub: "fst ` set ?L \<subseteq> fst ` set (ms_fstats (merge_start rfs))"
  proof -
    have "map fst (ms_fstats (merge_start rfs)) = map fst fs"
      by (simp add: merge_start_def seed_stats_def fs comp_def)
    then have "fst ` set (ms_fstats (merge_start rfs)) = set (map fst fs)" by (metis list.set_map)
    then show ?thesis using L0(2) L1(3) L2(3) by auto
  qed
  have "set (map snd ?L) = set (concat (map snd fs))"
  proof
    show "set (concat (map snd fs)) \<subseteq> set (map snd ?L)"
    proof
      fix h
      assume "h \<in> set (concat (map snd fs))"
      then obtain f where "f \<in> set fs" "h \<in> set (snd f)" by auto
      then have "h \<in> set (of_file (fst f) ?L)" using each by simp
      then show "h \<in> set (map snd ?L)" by (auto simp: of_file_def)
    qed
    show "set (map snd ?L) \<subseteq> set (concat (map snd fs))"
    proof
      fix h
      assume "h \<in> set (map snd ?L)"
      then obtain x where "x \<in> set ?L" "snd x = h" by (metis image_iff list.set_map)
      then obtain fid where mem: "(fid, h) \<in> set ?L" by (metis prod.collapse)
      then have "fid \<in> set (map fst fs)" using L0(2) L1(3) L2(3) by force
      then obtain f where f: "f \<in> set fs" "fst f = fid" by auto
      have "h \<in> set (of_file fid ?L)" using mem by (force simp: of_file_def)
      then have "h \<in> set (snd f)" using each[OF f(1)] f(2) by metis
      then show "h \<in> set (concat (map snd fs))" using f(1) by auto
    qed
  qed
  then have "ms_max_seq m2 = max_hint_seq fs"
    using nts note_list_max[of ?L "merge_start rfs"] fold_max_perm[of "map snd ?L" "concat (map snd fs)" hn_sequence 0]
    by (simp add: notes_of_def max_hint_seq_def merge_start_def fold_map comp_def)
  moreover have "map fst (ms_fstats m2) = map fst fs"
    using nts note_list_stats[OF sub] fs by (simp add: notes_of_def merge_start_def seed_stats_def comp_def)
  moreover have "fs_get (ms_fstats m2) (fst f) = Some (file_stat (case map_of (map (\<lambda>rf. (rf_file_id rf, rf_total_bytes rf)) rfs) (fst f)
      of None \<Rightarrow> 0 | Some n \<Rightarrow> n) (snd f))" if "f \<in> set fs" for f
  proof -
    have "fst f \<in> set (map rf_file_id rfs)" using that by (metis fs imageI list.set_map)
    then obtain rf where rf: "rf \<in> set rfs" "rf_file_id rf = fst f" by auto
    have inj: "distinct (map rf_file_id rfs)" using dist fs by simp
    have "fs_get (seed_stats rfs) (fst f) = Some (FileStats_empty\<lparr>total_bytes := word_of_nat (rf_total_bytes rf)\<rparr>)"
      unfolding fs_get_def seed_stats_def using rf inj
      by (intro map_of_is_SomeI) (auto simp: comp_def intro!: rev_image_eqI)
    moreover have "map_of (map (\<lambda>rf. (rf_file_id rf, rf_total_bytes rf)) rfs) (fst f) = Some (rf_total_bytes rf)"
      using rf inj by (intro map_of_is_SomeI) (auto simp: comp_def intro!: rev_image_eqI)
    moreover have "fs_get (ms_fstats m2) (fst f) = map_option (fold note_stats (snd f)) (fs_get (seed_stats rfs) (fst f))"
      using nts note_list_stats[OF sub, of "fst f"] unfolding each[OF that]
      by (simp add: notes_of_def merge_start_def)
    ultimately show ?thesis by (simp add: file_stat_def)
  qed
  ultimately show ?thesis by (auto simp: part_notes_def merge_result_def)
qed

lemma worker_part:
  assumes ok: "hints_ok fs" and fs: "map fst fs = map rf_file_id rfs"
    and cs: "read_heads fs (merge_start rfs) = (cs, m)"
  shows "\<exists>r. merge_cursors cs m = Inr r \<and> part_of fs r \<and>
    part_notes (\<lambda>f. case map_of (map (\<lambda>rf. (rf_file_id rf, rf_total_bytes rf)) rfs) f of None \<Rightarrow> 0 | Some n \<Rightarrow> n) fs r"
proof -
  have srt: "\<forall>f \<in> set fs. sorted_hints (snd f)" and dist: "distinct (map fst fs)"
    using ok by (auto simp: hints_ok_def)
  from read_heads_runs[OF srt, of "merge_start rfs"] cs have
    okc: "list_all cursor_ok cs" and runs: "map (\<lambda>c. tagged (c_file_id c) (collapse (upcoming c))) cs = map file_run fs"
    and um: "unnoted m = (unnoted (merge_start rfs))\<lparr>ms_ranges := all_ranges fs,
      ms_markers := concat (map (\<lambda>f. markers_of (snd f)) fs)\<rparr>"
    by (auto simp: merge_start_def)
  from load_all_first[OF okc, of m] obtain cs1 m1 where
    ld: "load_all (\<lambda>c. True) cs m = Inr (cs1, m1)" and ok1: "list_all cursor_ok cs1"
    and um1: "unnoted m1 = unnoted m" and its: "map (items None) cs1 = map file_run fs"
    using runs by auto
  let ?gs = "groups (map file_run fs)"
  have ranges: "ms_ranges (unnoted m1) = all_ranges fs" "ms_tombstones (unnoted m1) = []"
    "ms_markers (unnoted m1) = concat (map (\<lambda>f. markers_of (snd f)) fs)" "ms_skipped (unnoted m1) = False"
    by (simp_all only: um1 um) (simp_all add: merge_start_def unnoted_def)
  let ?mv = "fold (\<lambda>(k, ms). visited k ms) ?gs (unnoted m1)"
  let ?out = "concat (map (\<lambda>(k, ms). case decide (all_ranges fs) k ms of None \<Rightarrow> [] | Some e \<Rightarrow> [(k, e)]) ?gs)"
  have fits: "\<forall>(k, ms) \<in> set ?gs. ms \<noteq> [] \<and> (\<forall>m \<in> set ms. match_fits m \<and> hn_key (fst m) = k)"
    using groups_of_files(2,3)[OF ok] by blast
  have "map_sum id part_view (merge_loop cs1 m1 []) = Inr (?mv, ?out)"
    using parts.loop_groups[OF ok1, of "(m1, [])"] parts_fold[OF fits, of "unnoted m1" "[]"] ranges(1)
    by (simp add: its part_view_def)
  then obtain m2 where ml: "merge_loop cs1 m1 [] = Inr (m2, ?out)" and um2: "unnoted m2 = ?mv"
    by (cases "merge_loop cs1 m1 []") (auto simp: part_view_def)
  have "part_of fs (merge_result m2 ?out)"
    unfolding part_of_def merge_result_def RecoveryResult.simps
  proof (intro conjI allI)
    show "ascending ?out" using opt_run[OF groups_ascending] by blast
    show "map_of ?out k = recovered fs k" for k
      using opt_run[OF groups_ascending[of "map file_run fs"], of "decide (all_ranges fs)" k]
        groups_of_matches[OF ok, where k = k and z = None and g = "decide (all_ranges fs) k"]
      by (auto simp: recovered_def decide_def)
    have ts: "ms_tombstones m2 = fold (\<lambda>(k, ms). note_deletes k ms) ?gs []"
      using visited_fields(1)[of ?gs "unnoted m1"] ranges(2) arg_cong[OF um2, of ms_tombstones] by simp
    show "ascending (ms_tombstones m2)" using note_deletes_groups[OF _ groups_ascending, of "[]"] ts by simp
    show "tomb_seq (ms_tombstones m2) k = del_seq (matches fs k)" for k
      using note_deletes_groups[OF _ groups_ascending, of "[]" "map file_run fs" k] ts
        groups_of_matches[OF ok, where k = k and z = 0 and g = del_seq]
      by (auto simp: tomb_seq_def del_seq_def)
    show "unflagged (ms_ranges m2) = all_ranges fs"
      using visited_fields(2)[of ?gs "unnoted m1"] ranges(1) arg_cong[OF um2, of ms_ranges] all_ranges_unflagged by simp
    show "ms_markers m2 = concat (map (\<lambda>f. markers_of (snd f)) fs)"
      using visited_fields(3)[of ?gs "unnoted m1"] ranges(3) arg_cong[OF um2, of ms_markers] by simp
    show "\<not> ms_skipped m2"
      using visited_fields(4)[of ?gs "unnoted m1"] ranges(4) arg_cong[OF um2, of ms_skipped] by simp
  qed
  moreover have "merge_cursors cs m = Inr (merge_result m2 ?out)"
    using ld ml by (simp add: merge_cursors_def)
  moreover have "part_notes (\<lambda>f. case map_of (map (\<lambda>rf. (rf_file_id rf, rf_total_bytes rf)) rfs) f of None \<Rightarrow> 0 | Some n \<Rightarrow> n)
      fs (merge_result m2 ?out)"
    by (rule worker_notes[OF fs dist cs okc ld ok1 ml])
  ultimately show ?thesis by blast
qed

end
