(* ===== verification/RecoveryRanges.thy ===== *)
theory RecoveryRanges
  imports RecoveryCorrect
begin

text \<open>
  The merge of the workers' trees. What the parts and the pooled tombstones decide for a key is what
  all the files decide for it, so the cut into ranges and the split among workers do not show.
\<close>

section \<open>Deciding a key from the parts\<close>

fun top :: "KeyDirEntry \<Rightarrow> KeyDirEntry list \<Rightarrow> KeyDirEntry" where
  "top w [] = w"
| "top w (e # es) = top (if kde_sequence e > kde_sequence w then e else w) es"

definition resolve :: "nat \<Rightarrow> RangeTombstone list \<Rightarrow> key \<Rightarrow> KeyDirEntry list \<Rightarrow> KeyDirEntry option" where
  "resolve T rts k es =
    (case es of
       [] \<Rightarrow> None
     | e # es' \<Rightarrow>
         let w = top e es' in
         if kde_sequence w < T \<or> suppressed rts k (kde_sequence w) then None else Some w)"

lemma top_mem: "top w es \<in> set (w # es)"
  by (induction es arbitrary: w) auto

lemma top_max: "x \<in> set (w # es) \<Longrightarrow> kde_sequence x \<le> kde_sequence (top w es)"
proof (induction es arbitrary: w x)
  case (Cons e es)
  let ?w = "if kde_sequence e > kde_sequence w then e else w"
  have up: "kde_sequence ?w \<le> kde_sequence (top ?w es)" using Cons.IH[of ?w ?w] by simp
  show ?case
  proof (cases "x \<in> set es")
    case True
    then show ?thesis using Cons.IH[of x ?w] by simp
  next
    case False
    then show ?thesis using Cons.prems up by (auto split: if_splits)
  qed
qed simp

lemma newest_kde_top: "distinct (map kde_sequence (w # es)) \<Longrightarrow> newest_kde w es = Inr (top w es)"
proof (induction es arbitrary: w)
  case (Cons e es)
  then have "kde_sequence e \<noteq> kde_sequence w" by auto
  then have "kde_newer e w = Inr (kde_sequence e > kde_sequence w)" by (simp add: kde_newer_def)
  then show ?case using Cons by auto
qed simp

lemma resolve_Some_iff:
  assumes "inj_on kde_sequence (set es)"
  shows "resolve T rts k es = Some e \<longleftrightarrow> e \<in> set es \<and> (\<forall>x \<in> set es. kde_sequence x \<le> kde_sequence e) \<and>
    \<not> kde_sequence e < T \<and> \<not> suppressed rts k (kde_sequence e)"
proof (cases es)
  case Nil
  then show ?thesis by (simp add: resolve_def)
next
  case (Cons e0 es')
  let ?n = "top e0 es'"
  have n: "?n \<in> set es" "\<And>x. x \<in> set es \<Longrightarrow> kde_sequence x \<le> kde_sequence ?n"
    using Cons top_mem[of e0 es'] top_max[of _ e0 es'] by auto
  have uniq: "e \<in> set es \<Longrightarrow> \<forall>x \<in> set es. kde_sequence x \<le> kde_sequence e \<Longrightarrow> e = ?n"
    using assms n by (meson inj_onD le_antisym)
  have "resolve T rts k es = Some e \<longleftrightarrow>
      e = ?n \<and> \<not> kde_sequence ?n < T \<and> \<not> suppressed rts k (kde_sequence ?n)"
    by (auto simp: resolve_def Cons Let_def)
  then show ?thesis using n uniq by blast
qed

text \<open>The facts about the matches of a key that deciding rests on.\<close>

lemma matches_concat: "matches (concat fss) k = concat (map (\<lambda>fs. matches fs k) fss)"
  by (induction fss) (simp_all add: matches_def)

lemma all_ranges_concat: "all_ranges (concat fss) = concat (map all_ranges fss)"
  by (induction fss) (simp_all add: all_ranges_def)

lemma match_entry_in:
  assumes "m \<in> set (matches fs k)"
  obtains f where "f \<in> set fs" "fst m \<in> set (snd f)" "snd m = fst f" "data_type (hn_type (fst m))" "hn_key (fst m) = k"
proof -
  from assms obtain f where f: "f \<in> set fs" and m: "m \<in> set (file_match k f)" by (auto simp: matches_def)
  from m obtain h hs where flt: "filter (\<lambda>h. hn_key h = k) (data (snd f)) = h # hs" and mh: "m = (pick h hs, fst f)"
    by (cases "filter (\<lambda>h. hn_key h = k) (data (snd f))") (auto simp: file_match_def)
  have "pick h hs \<in> set (h # hs)" unfolding pick_def by (induction hs arbitrary: h) auto
  then have "pick h hs \<in> {x \<in> set (data (snd f)). hn_key x = k}" using flt by (metis set_filter)
  then show thesis using f mh that by (auto simp: data_def)
qed

lemma distinct_concat_owner:
  assumes "distinct (map g (concat (map snd fs)))" and "f \<in> set fs" and "f' \<in> set fs"
    and "h \<in> set (snd f)" and "h' \<in> set (snd f')" and "g h = g h'"
  shows "f = f' \<and> h = h'"
  using assms
proof (induction fs)
  case (Cons x fs)
  have disj: "g ` set (snd x) \<inter> g ` set (concat (map snd fs)) = {}" and rest: "distinct (map g (concat (map snd fs)))"
    and own: "distinct (map g (snd x))"
    using Cons.prems(1) by auto
  have out: "g y \<notin> g ` set (concat (map snd fs))" if "y \<in> set (snd x)" for y using disj that by blast
  have inn: "g y \<in> g ` set (concat (map snd fs))" if "f0 \<in> set fs" "y \<in> set (snd f0)" for f0 y using that by force
  show ?case
  proof (cases "f \<in> set fs \<and> f' \<in> set fs")
    case True
    then show ?thesis using Cons.IH[OF rest _ _ Cons.prems(4-6)] by blast
  next
    case False
    then have "f = x" "f' = x"
      using Cons.prems out inn by (metis set_ConsD)+
    then show ?thesis using own Cons.prems(4-6) by (auto simp: distinct_map dest: inj_onD)
  qed
qed simp

lemma matches_inj:
  assumes "hints_ok fs"
  shows "inj_on (\<lambda>m. hn_sequence (fst m)) (set (matches fs k))"
proof (rule inj_onI)
  fix m m'
  assume m: "m \<in> set (matches fs k)" "m' \<in> set (matches fs k)" and eq: "hn_sequence (fst m) = hn_sequence (fst m')"
  from match_entry_in[OF m(1)] obtain f where f: "f \<in> set fs" "fst m \<in> set (snd f)" "snd m = fst f" by blast
  from match_entry_in[OF m(2)] obtain f' where f': "f' \<in> set fs" "fst m' \<in> set (snd f')" "snd m' = fst f'" by blast
  have "distinct (map hn_sequence (concat (map snd fs)))" using assms by (simp add: hints_ok_def)
  from distinct_concat_owner[OF this f(1) f'(1) f(2) f'(2) eq] show "m = m'"
    using f(3) f'(3) by (simp add: prod_eq_iff)
qed

lemma del_seq_ge: "m \<in> set ms \<Longrightarrow> hn_type (fst m) = Delete \<Longrightarrow> hn_sequence (fst m) \<le> del_seq ms"
proof (induction ms)
  case (Cons x ms)
  have "del_seq (x # ms) = (if hn_type (fst x) = Delete then max (hn_sequence (fst x)) (del_seq ms) else del_seq ms)"
    by (simp add: del_seq_def) (subst fold_max_acc, simp add: max.commute)
  then show ?case using Cons by auto
qed simp

lemma del_seq_mem: "del_seq ms = 0 \<or> (\<exists>m \<in> set ms. hn_type (fst m) = Delete \<and> hn_sequence (fst m) = del_seq ms)"
proof (induction ms)
  case (Cons x ms)
  have "del_seq (x # ms) = (if hn_type (fst x) = Delete then max (hn_sequence (fst x)) (del_seq ms) else del_seq ms)"
    by (simp add: del_seq_def) (subst fold_max_acc, simp add: max.commute)
  then show ?case using Cons by (auto simp: max_def)
qed (simp add: del_seq_def)

lemma option_ext: "(\<And>e. x = Some e \<longleftrightarrow> y = Some e) \<Longrightarrow> x = y"
  by (cases x; cases y) auto

lemma match_kde_seq:
  assumes "hints_ok fs" and "m \<in> set (matches fs k)"
  shows "kde_sequence (match_kde m) = hn_sequence (fst m)" and "kde_file_id (match_kde m) = snd m"
    and "kde_file_offset (match_kde m) = hn_file_offset (fst m)" and "kde_value_size (match_kde m) = hn_value_size (fst m)"
proof -
  from match_entry_in[OF assms(2)] obtain f where "f \<in> set fs" "fst m \<in> set (snd f)" "snd m = fst f" by blast
  with assms(1) have "hint_fits (fst m)" "snd m \<le> kMaxFileId" by (auto simp: hints_ok_def)
  then show "kde_sequence (match_kde m) = hn_sequence (fst m)" "kde_file_id (match_kde m) = snd m"
    "kde_file_offset (match_kde m) = hn_file_offset (fst m)" "kde_value_size (match_kde m) = hn_value_size (fst m)"
    by (auto simp: match_kde_def hint_fits_def intro!: kde_pack_fields)
qed

lemma suppressed_mono: "set rts \<subseteq> set rts' \<Longrightarrow> suppressed rts k n \<Longrightarrow> suppressed rts' k n"
  by (auto simp: suppressed_def list_ex_iff)

lemma suppressed_older: "suppressed rts k n \<Longrightarrow> n' \<le> n \<Longrightarrow> suppressed rts k n'"
  by (force simp: suppressed_def list_ex_iff)

lemma hints_ok_part: "hints_ok (concat fss) \<Longrightarrow> fs \<in> set fss \<Longrightarrow> hints_ok fs"
proof -
  assume ok: "hints_ok (concat fss)" and mem: "fs \<in> set fss"
  obtain as bs where "fss = as @ fs # bs" using split_list[OF mem] by blast
  then show ?thesis using ok by (auto simp: hints_ok_def)
qed

definition candidates :: "hint_files list \<Rightarrow> key \<Rightarrow> KeyDirEntry list" where
  "candidates fss k = List.map_filter (\<lambda>fs. recovered fs k) fss"

lemma candidates_set: "set (candidates fss k) = {e. \<exists>fs \<in> set fss. recovered fs k = Some e}"
  by (force simp: candidates_def List.map_filter_def)

lemma recovered_match:
  assumes "hints_ok (concat fss)" and "fs \<in> set fss" and "recovered fs k = Some e"
  obtains w where "w \<in> set (matches fs k)" "w \<in> set (matches (concat fss) k)"
    "\<forall>x \<in> set (matches fs k). hn_sequence (fst x) \<le> hn_sequence (fst w)"
    "hn_type (fst w) = Put" "\<not> suppressed (all_ranges fs) k (hn_sequence (fst w))" "e = match_kde w"
    "kde_sequence e = hn_sequence (fst w)"
proof -
  have ok: "hints_ok fs" by (rule hints_ok_part[OF assms(1,2)])
  from assms(3) obtain w where w: "w \<in> set (matches fs k)"
    "\<forall>x \<in> set (matches fs k). hn_sequence (fst x) \<le> hn_sequence (fst w)"
    "hn_type (fst w) = Put" "\<not> suppressed (all_ranges fs) k (hn_sequence (fst w))" "e = match_kde w"
    unfolding recovered_def decide_Some_iff[OF matches_inj[OF ok]] by blast
  moreover have "w \<in> set (matches (concat fss) k)" using w(1) assms(2) by (auto simp: matches_concat)
  ultimately show thesis using that match_kde_seq(1)[OF ok w(1)] by blast
qed

lemma candidates_inj:
  assumes "hints_ok (concat fss)"
  shows "inj_on kde_sequence (set (candidates fss k))"
proof (rule inj_onI)
  fix e e'
  assume "e \<in> set (candidates fss k)" "e' \<in> set (candidates fss k)" and eq: "kde_sequence e = kde_sequence e'"
  then obtain fs fs' where fs: "fs \<in> set fss" "recovered fs k = Some e" and fs': "fs' \<in> set fss" "recovered fs' k = Some e'"
    by (auto simp: candidates_set)
  from recovered_match[OF assms fs] obtain w where w: "w \<in> set (matches (concat fss) k)" "e = match_kde w"
    "kde_sequence e = hn_sequence (fst w)" by blast
  from recovered_match[OF assms fs'] obtain w' where w': "w' \<in> set (matches (concat fss) k)" "e' = match_kde w'"
    "kde_sequence e' = hn_sequence (fst w')" by blast
  have "w = w'" using inj_onD[OF matches_inj[OF assms], of w w'] w w' eq by auto
  then show "e = e'" using w w' by simp
qed

lemma resolve_candidates:
  assumes ok: "hints_ok (concat fss)"
  shows "resolve (del_seq (matches (concat fss) k)) (all_ranges (concat fss)) k (candidates fss k) = recovered (concat fss) k"
proof (rule option_ext)
  fix e
  let ?M = "matches (concat fss) k" and ?rts = "all_ranges (concat fss)"
  let ?T = "del_seq ?M"
  have sub: "set (all_ranges fs) \<subseteq> set ?rts" if "fs \<in> set fss" for fs
    using that by (auto simp: all_ranges_concat)
  have "resolve ?T ?rts k (candidates fss k) = Some e \<longleftrightarrow> e \<in> set (candidates fss k) \<and>
      (\<forall>x \<in> set (candidates fss k). kde_sequence x \<le> kde_sequence e) \<and> \<not> kde_sequence e < ?T \<and>
      \<not> suppressed ?rts k (kde_sequence e)"
    by (rule resolve_Some_iff[OF candidates_inj[OF ok]])
  also have "\<dots> \<longleftrightarrow> (\<exists>w \<in> set ?M. (\<forall>x \<in> set ?M. hn_sequence (fst x) \<le> hn_sequence (fst w)) \<and> hn_type (fst w) = Put \<and>
      \<not> suppressed ?rts k (hn_sequence (fst w)) \<and> e = match_kde w)"
  proof
    assume L: "e \<in> set (candidates fss k) \<and> (\<forall>x \<in> set (candidates fss k). kde_sequence x \<le> kde_sequence e) \<and>
      \<not> kde_sequence e < ?T \<and> \<not> suppressed ?rts k (kde_sequence e)"
    then obtain fs where fs: "fs \<in> set fss" "recovered fs k = Some e" by (auto simp: candidates_set)
    from recovered_match[OF ok fs] obtain w where w: "w \<in> set ?M" "hn_type (fst w) = Put" "e = match_kde w"
      "kde_sequence e = hn_sequence (fst w)" by blast
    have "hn_sequence (fst x) \<le> hn_sequence (fst w)" if x: "x \<in> set ?M" for x
    proof (rule ccontr)
      assume gt: "\<not> ?thesis"
      obtain m where m: "m \<in> set ?M" "\<forall>y \<in> set ?M. hn_sequence (fst y) \<le> hn_sequence (fst m)"
        using newest_mem[of "hd ?M" "tl ?M"] newest_max[of _ "hd ?M" "tl ?M"] x by (cases ?M) auto
      have big: "hn_sequence (fst w) < hn_sequence (fst m)" using m(2) x gt by (metis le_less_trans not_le order_less_le_trans)
      from m(1) obtain fs' where fs': "fs' \<in> set fss" "m \<in> set (matches fs' k)" by (auto simp: matches_concat)
      from match_entry_in[OF m(1)] have "data_type (hn_type (fst m))" by blast
      then consider "hn_type (fst m) = Delete" | "hn_type (fst m) = Put" by (auto simp: data_type_def)
      then show False
      proof cases
        case 1
        then show False using del_seq_ge[OF m(1)] big L w(4) by simp
      next
        case 2
        show False
        proof (cases "suppressed (all_ranges fs') k (hn_sequence (fst m))")
          case True
          then have "suppressed ?rts k (hn_sequence (fst m))" using suppressed_mono[OF sub[OF fs'(1)]] by blast
          then show False using suppressed_older[of ?rts k _ "hn_sequence (fst w)"] big L w(4) by auto
        next
          case False
          have ok': "hints_ok fs'" by (rule hints_ok_part[OF ok fs'(1)])
          have "recovered fs' k = Some (match_kde m)"
            unfolding recovered_def decide_Some_iff[OF matches_inj[OF ok']]
            using fs' m(2) 2 False by (auto simp: matches_concat)
          then have "match_kde m \<in> set (candidates fss k)" using fs'(1) by (auto simp: candidates_set)
          then have "kde_sequence (match_kde m) \<le> kde_sequence e" using L by blast
          then show False using match_kde_seq(1)[OF ok m(1)] big w(4) by simp
        qed
      qed
    qed
    then show "\<exists>w \<in> set ?M. (\<forall>x \<in> set ?M. hn_sequence (fst x) \<le> hn_sequence (fst w)) \<and> hn_type (fst w) = Put \<and>
      \<not> suppressed ?rts k (hn_sequence (fst w)) \<and> e = match_kde w"
      using w L by (intro bexI[of _ w]) (auto simp del: split_paired_All)
  next
    assume "\<exists>w \<in> set ?M. (\<forall>x \<in> set ?M. hn_sequence (fst x) \<le> hn_sequence (fst w)) \<and> hn_type (fst w) = Put \<and>
      \<not> suppressed ?rts k (hn_sequence (fst w)) \<and> e = match_kde w"
    then obtain w where w: "w \<in> set ?M" "\<forall>x \<in> set ?M. hn_sequence (fst x) \<le> hn_sequence (fst w)"
      "hn_type (fst w) = Put" "\<not> suppressed ?rts k (hn_sequence (fst w))" "e = match_kde w" by blast
    have seq: "kde_sequence e = hn_sequence (fst w)" using match_kde_seq(1)[OF ok w(1)] w(5) by simp
    from w(1) obtain fs where fs: "fs \<in> set fss" "w \<in> set (matches fs k)" by (auto simp: matches_concat)
    have "hints_ok fs" by (rule hints_ok_part[OF ok fs(1)])
    then have "recovered fs k = Some e"
      unfolding recovered_def decide_Some_iff[OF matches_inj[OF \<open>hints_ok fs\<close>]]
      using fs w suppressed_mono[OF sub[OF fs(1)]] by (intro bexI[of _ w]) (auto simp: matches_concat)
    moreover have "kde_sequence x \<le> kde_sequence e" if "x \<in> set (candidates fss k)" for x
    proof -
      from that obtain fs' where "fs' \<in> set fss" "recovered fs' k = Some x" by (auto simp: candidates_set)
      from recovered_match[OF ok this] obtain w' where "w' \<in> set ?M" "kde_sequence x = hn_sequence (fst w')" by blast
      then show ?thesis using w(2) seq by simp
    qed
    moreover have "\<not> kde_sequence e < ?T"
      using del_seq_mem[of ?M] w(2) seq by (metis leD not_less0)
    ultimately show "e \<in> set (candidates fss k) \<and> (\<forall>x \<in> set (candidates fss k). kde_sequence x \<le> kde_sequence e) \<and>
      \<not> kde_sequence e < ?T \<and> \<not> suppressed ?rts k (kde_sequence e)"
      using fs(1) w(4) seq by (auto simp: candidates_set)
  qed
  also have "\<dots> \<longleftrightarrow> recovered (concat fss) k = Some e"
    unfolding recovered_def by (rule decide_Some_iff[OF matches_inj[OF ok], symmetric])
  finally show "resolve ?T ?rts k (candidates fss k) = Some e \<longleftrightarrow> recovered (concat fss) k = Some e" .
qed

end
