(* ===== verification/RecoveryTrees.thy ===== *)
theory RecoveryTrees
  imports RecoveryRanges
begin

text \<open>
  The ranges of a parallel load. The splitters cut the keys into ranges that cover every key once, in
  order, so runs that answer for their ranges join to a run that answers for all keys. Then the merge of
  the workers' trees, range by range.
\<close>

section \<open>Ranges\<close>

definition in_range :: "key list \<Rightarrow> nat \<Rightarrow> key \<Rightarrow> bool" where
  "in_range spl r k \<longleftrightarrow> range_lo spl r \<le> k \<and> below_hi (range_hi spl r) k"

lemma range_cover:
  assumes "sorted spl"
  shows "\<exists>r \<le> length spl. in_range spl r k"
proof -
  let ?p = "takeWhile (\<lambda>s. s \<le> k) spl"
  let ?r = "length ?p"
  have len: "?r \<le> length spl" by (rule length_takeWhile_le)
  have "range_lo spl ?r \<le> k"
  proof (cases "?r = 0")
    case True
    then show ?thesis by (simp add: range_lo_def)
  next
    case False
    then have "?p ! (?r - 1) \<le> k" using nth_mem[of "?r - 1" ?p] set_takeWhileD[of _ "\<lambda>s. s \<le> k" spl] by auto
    then show ?thesis using False by (simp add: range_lo_def takeWhile_nth)
  qed
  moreover have "below_hi (range_hi spl ?r) k"
    using nth_length_takeWhile[of "\<lambda>s. s \<le> k" spl] by (auto simp: below_hi_def range_hi_def not_le)
  ultimately show ?thesis using len by (auto simp: in_range_def)
qed

lemma ranges_apart:
  assumes "sorted spl" and "r < r'" and "r' \<le> length spl" and "in_range spl r k" and "in_range spl r' k'"
  shows "k < k'"
proof -
  have "k < spl ! r" using assms by (simp add: in_range_def range_hi_def below_hi_def)
  also have "\<dots> \<le> spl ! (r' - 1)" using assms by (intro sorted_nth_mono) auto
  also have "\<dots> \<le> k'" using assms by (simp add: in_range_def range_lo_def)
  finally show ?thesis .
qed

lemma ascending_concat:
  assumes "\<forall>xs \<in> set xss. ascending xs" and "sorted_wrt (\<lambda>xs ys. \<forall>x \<in> set xs. \<forall>y \<in> set ys. fst x < fst y) xss"
  shows "ascending (concat xss)"
  using assms
proof (induction xss)
  case (Cons xs xss)
  then show ?case by (auto simp: sorted_wrt_append)
qed simp

lemma ascending_map_of: "ascending xs \<Longrightarrow> (k, e) \<in> set xs \<longleftrightarrow> map_of xs k = Some e"
  using kd_sorted_distinct strict_sorted_iff by (metis map_of_eq_Some_iff)

lemma ascending_ext:
  assumes "ascending xs" and "ascending ys" and "\<And>k. map_of xs k = map_of ys k"
  shows "xs = ys"
proof -
  have eq: "set xs = set ys"
  proof (rule set_eqI)
    fix x
    show "x \<in> set xs \<longleftrightarrow> x \<in> set ys"
      using ascending_map_of[OF assms(1), of "fst x" "snd x"] ascending_map_of[OF assms(2), of "fst x" "snd x"] assms(3)
      by simp
  qed
  have srt: "sorted (map fst xs)" "distinct (map fst xs)" "sorted (map fst ys)" "distinct (map fst ys)"
    using assms(1,2) by (simp_all add: strict_sorted_iff)
  have "inj_on fst (set xs \<union> set ys)" using srt(2) eq by (simp add: distinct_map)
  then show ?thesis by (rule map_sorted_distinct_set_unique) (use srt eq in simp_all)
qed

lemma join_ranges:
  assumes spl: "sorted spl"
    and runs: "\<And>r. r \<le> length spl \<Longrightarrow> ascending (f r) \<and> (\<forall>k. map_of (f r) k = (if in_range spl r k then g k else None))"
  shows "ascending (concat (map f [0..<length spl + 1]))"
    and "map_of (concat (map f [0..<length spl + 1])) k = g k"
proof -
  let ?c = "concat (map f [0..<length spl + 1])"
  have keys: "in_range spl r (fst x) \<and> g (fst x) = Some (snd x)" if "r \<le> length spl" "x \<in> set (f r)" for r x
    using runs[OF that(1)] that(2) ascending_map_of[of "f r" "fst x" "snd x"] by (auto split: if_splits)
  show asc: "ascending ?c"
  proof (rule ascending_concat)
    show "\<forall>xs \<in> set (map f [0..<length spl + 1]). ascending xs" using runs by auto
    show "sorted_wrt (\<lambda>xs ys. \<forall>x \<in> set xs. \<forall>y \<in> set ys. fst x < fst y) (map f [0..<length spl + 1])"
      using ranges_apart[OF spl] keys by (auto simp: sorted_wrt_iff_nth_less simp del: upt_Suc)
  qed
  show "map_of ?c k = g k"
  proof (rule option_ext)
    fix e
    have "map_of ?c k = Some e \<longleftrightarrow> (\<exists>r \<le> length spl. (k, e) \<in> set (f r))"
      using ascending_map_of[OF asc, of k e] by (auto simp del: upt_Suc simp: less_Suc_eq_le)
    also have "\<dots> \<longleftrightarrow> g k = Some e"
    proof
      assume "g k = Some e"
      moreover obtain r where "r \<le> length spl" "in_range spl r k" using range_cover[OF spl] by blast
      ultimately show "\<exists>r \<le> length spl. (k, e) \<in> set (f r)"
        using runs[of r] ascending_map_of[of "f r" k e] by auto
    qed (use keys in fastforce)
    finally show "map_of ?c k = Some e \<longleftrightarrow> g k = Some e" .
  qed
qed

lemma range_suppressed:
  assumes "in_range spl r k"
  shows "suppressed (filter (reaches (range_lo spl r) (range_hi spl r)) rts) k n \<longleftrightarrow> suppressed rts k n"
proof -
  have "reaches (range_lo spl r) (range_hi spl r) rt" if "covers rt k" for rt
    using assms that by (auto simp: reaches_def covers_def in_range_def below_hi_def split: option.splits)
  then show ?thesis by (auto simp: suppressed_def list_ex_iff)
qed

text \<open>The two ways to pick splitters give them in order.\<close>

lemma sorted_remdups_adj_pick:
  assumes "sorted pool" and "sorted rs" and "\<forall>r \<in> set rs. r * n div R < length pool"
  shows "sorted (remdups_adj (map (\<lambda>r. pool ! (r * n div R)) rs))"
proof -
  have "sorted (map (\<lambda>r. pool ! (r * n div R)) rs)"
    unfolding sorted_iff_nth_mono_less
  proof (intro allI impI)
    fix i j
    assume ij: "i < j" "j < length (map (\<lambda>r. pool ! (r * n div R)) rs)"
    then have "rs ! i \<le> rs ! j" using assms(2) by (auto simp: sorted_iff_nth_mono_less)
    then have "rs ! i * n div R \<le> rs ! j * n div R" by (simp add: div_le_mono)
    moreover have "rs ! j * n div R < length pool" using assms(3) ij by auto
    ultimately show "map (\<lambda>r. pool ! (r * n div R)) rs ! i \<le> map (\<lambda>r. pool ! (r * n div R)) rs ! j"
      using ij assms(1) by (simp add: sorted_nth_mono)
  qed
  then show ?thesis by simp
qed

lemma splitters_sorted: "sorted (splitters_of sep R parts)"
  unfolding splitters_of_def pick_splitters_def
  by (auto intro!: sorted_remdups_adj_pick sorted_wrt_filter)

lemma fence_splitters_sorted: "sorted (fence_splitters W runs)"
proof -
  have "sorted (foldl (\<lambda>spl r. let k = g r in if spl = [] \<or> k > last spl then spl @ [k] else spl) acc rs)"
    if "sorted acc" for g :: "nat \<Rightarrow> key" and rs acc
    using that
  proof (induction rs arbitrary: acc)
    case (Cons r rs)
    have "sorted (acc @ [g r])" if "acc = [] \<or> last acc < g r"
      using that Cons.prems
    proof (induction acc)
      case (Cons a acc)
      show ?case
      proof (cases "acc = []")
        case False
        then have "a \<le> last acc" using Cons.prems by simp
        moreover have "last acc < g r" using Cons.prems(1) False by simp
        ultimately have "a \<le> g r" by (rule order.strict_implies_order[OF le_less_trans])
        then show ?thesis using Cons False by (simp add: sorted_append)
      qed (use Cons in auto)
    qed simp
    then show ?case using Cons by (simp add: Let_def)
  qed simp
  from this[of "[]"] show ?thesis unfolding fence_splitters_def Let_def by (simp del: length_sort)
qed

section \<open>The trees of the workers\<close>

lemma slice_filter:
  assumes "ascending kd"
  shows "tree_slice hi kd = filter (\<lambda>(k, e). below_hi hi k) kd"
  using assms
proof (induction kd)
  case (Cons x kd)
  obtain k e where x: "x = (k, e)" by fastforce
  have "filter (\<lambda>(k, e). below_hi hi k) kd = []" if "\<not> below_hi hi k"
    using that Cons.prems x by (force simp: filter_empty_conv below_hi_def split: option.splits)
  then show ?case using Cons x by (auto simp: tree_slice_def)
qed (simp add: tree_slice_def)

lemma filter_key_opt:
  "ascending xs \<Longrightarrow> map snd (filter (\<lambda>(k', x). k' = k) xs) = (case map_of xs k of None \<Rightarrow> [] | Some e \<Rightarrow> [e])"
proof (induction xs)
  case (Cons x xs)
  obtain j e where x: "x = (j, e)" by fastforce
  have "map_of xs j = None" using Cons.prems x by (force simp: map_of_eq_None_iff)
  then show ?case using Cons x by auto
qed simp

lemma slices_at:
  assumes "\<forall>kd \<in> set kds. ascending kd"
  shows "at_key k (map (tree_slice hi) (map (\<lambda>kd. kd_lower_bound kd lo) kds)) =
    (if lo \<le> k \<and> below_hi hi k then List.map_filter (\<lambda>kd. map_of kd k) kds else [])"
  using assms
proof (induction kds)
  case (Cons kd kds)
  have asc: "ascending kd" using Cons.prems by simp
  then have "ascending (kd_lower_bound kd lo)" by (simp add: kd_lower_bound_def sorted_map_dropWhile)
  then have "tree_slice hi (kd_lower_bound kd lo) = filter (\<lambda>(j, e). lo \<le> j \<and> below_hi hi j) kd"
    using asc by (simp add: slice_filter kd_lower_bound_filter kd_sorted_def)
       (auto intro!: filter_cong)
  moreover have "filter (\<lambda>(k', x). k' = k) (filter (\<lambda>(j, e). lo \<le> j \<and> below_hi hi j) kd) =
      (if lo \<le> k \<and> below_hi hi k then filter (\<lambda>(k', x). k' = k) kd else [])"
    by (induction kd) auto
  ultimately show ?case using Cons filter_key_opt[OF asc, of k]
    by (auto simp: List.map_filter_def split: option.splits)
qed (simp add: List.map_filter_def)

definition opt_list :: "key \<Rightarrow> KeyDirEntry option \<Rightarrow> key_dir" where
  "opt_list k eo = (case eo of None \<Rightarrow> [] | Some e \<Rightarrow> [(k, e)])"

text \<open>Live bytes counted as a run grows.\<close>

definition live_for :: "live_map \<Rightarrow> key_dir \<Rightarrow> bool" where
  "live_for l run \<longleftrightarrow> distinct (map fst l) \<and> (\<forall>f. live_at l f = word_of_nat (kd_live run f))"

lemma kd_live_append: "kd_live (xs @ ys) f = kd_live xs f + kd_live ys f"
  by (simp add: kd_live_def)

lemma live_for_add:
  "live_for l run \<Longrightarrow> live_for (live_add (kde_file_id e) (entry_size (length k) (kde_value_size e)) l) (run @ [(k, e)])"
  by (simp add: live_for_def live_add_def distinct_update kd_live_append kd_part_def)

lemma live_for_Nil: "live_for [] []"
  by (simp add: live_for_def)

lemma tree_visit_ok:
  fixes ts :: tombstones and rts :: "(nat \<times> RangeTombstone) list"
  assumes "es \<noteq> []" and "distinct (map kde_sequence es)" and "length k \<le> kMaxKeySize"
  defines "run \<equiv> opt_list k (resolve (tomb_seq ts k) (map snd rts) k es)"
  shows "\<exists>ro'. tree_visit ts rts k es ro = Inr ro' \<and> ro_run ro' = ro_run ro @ run \<and>
    (live_for (ro_live ro) (ro_run ro) \<longrightarrow> live_for (ro_live ro') (ro_run ro'))"
proof -
  obtain e es' where es: "es = e # es'" using assms(1) by (cases es) auto
  let ?w = "top e es'"
  have w: "newest_kde (hd es) (tl es) = Inr ?w" using newest_kde_top assms(2) es by simp
  have tomb: "(case map_of ts k of None \<Rightarrow> False | Some p \<Rightarrow> kde_sequence ?w < pt_seq p) \<longleftrightarrow> kde_sequence ?w < tomb_seq ts k"
    by (simp add: tomb_seq_def split: option.split)
  show ?thesis
  proof (cases "kde_sequence ?w < tomb_seq ts k \<or> suppressed (map snd rts) k (kde_sequence ?w)")
    case True
    then have "run = []" by (simp add: run_def opt_list_def resolve_def es)
    then show ?thesis using True by (simp add: tree_visit_def range_key_def w tomb Let_def)
  next
    case False
    then have "run = [(k, ?w)]" by (simp add: run_def opt_list_def resolve_def es)
    then show ?thesis using False assms(3)
      by (simp add: tree_visit_def range_key_def w tomb Let_def bulk_append_def live_for_add)
  qed
qed

lemma tree_fold:
  fixes ts :: tombstones and rts :: "(nat \<times> RangeTombstone) list"
  assumes "\<forall>(k, es) \<in> set gs. es \<noteq> [] \<and> distinct (map kde_sequence es) \<and> length k \<le> kMaxKeySize"
  defines "run \<equiv> concat (map (\<lambda>(k, es). opt_list k (resolve (tomb_seq ts k) (map snd rts) k es)) gs)"
  shows "\<exists>ro'. rfold (\<lambda>(k, es). tree_visit ts rts k es) gs ro = Inr ro' \<and> ro_run ro' = ro_run ro @ run \<and>
    (live_for (ro_live ro) (ro_run ro) \<longrightarrow> live_for (ro_live ro') (ro_run ro'))"
  using assms(1) unfolding run_def
proof (induction gs arbitrary: ro)
  case (Cons g gs)
  obtain k es where g: "g = (k, es)" by fastforce
  have pre: "es \<noteq> []" "distinct (map kde_sequence es)" "length k \<le> kMaxKeySize" using Cons.prems g by auto
  from tree_visit_ok[OF pre, of ts rts ro] obtain ro1 where
    ro1: "tree_visit ts rts k es ro = Inr ro1"
      "ro_run ro1 = ro_run ro @ opt_list k (resolve (tomb_seq ts k) (map snd rts) k es)"
      "live_for (ro_live ro) (ro_run ro) \<longrightarrow> live_for (ro_live ro1) (ro_run ro1)" by blast
  from Cons.IH[of ro1] Cons.prems obtain ro' where
    "rfold (\<lambda>(k, es). tree_visit ts rts k es) gs ro1 = Inr ro'"
    "ro_run ro' = ro_run ro1 @ concat (map (\<lambda>(k, es). opt_list k (resolve (tomb_seq ts k) (map snd rts) k es)) gs)"
    "live_for (ro_live ro1) (ro_run ro1) \<longrightarrow> live_for (ro_live ro') (ro_run ro')" by auto
  with ro1 show ?case by (simp add: g)
qed simp

text \<open>The parts: what each worker made of its files.\<close>

definition parts_of :: "hint_files list \<Rightarrow> RecoveryResult list \<Rightarrow> bool" where
  "parts_of fss rs \<longleftrightarrow> list_all2 part_of fss rs"

lemma parts_candidates:
  assumes "parts_of fss rs"
  shows "List.map_filter (\<lambda>kd. map_of kd k) (map rr_key_dir rs) = candidates fss k"
  using assms unfolding parts_of_def candidates_def
  by (induction fss rs rule: list_all2_induct) (auto simp: part_of_def List.map_filter_def)

lemma parts_ascending: "parts_of fss rs \<Longrightarrow> \<forall>kd \<in> set (map rr_key_dir rs). ascending kd"
  unfolding parts_of_def by (induction fss rs rule: list_all2_induct) (auto simp: part_of_def)

lemma parts_ranges: "parts_of fss rs \<Longrightarrow> unflagged (concat (map rr_ranges rs)) = all_ranges (concat fss)"
  unfolding parts_of_def
  by (induction fss rs rule: list_all2_induct) (auto simp: part_of_def unflagged_def all_ranges_def)

lemma fold_max_tombs:
  assumes "ascending (ts :: tombstones)"
  shows "fold (\<lambda>x. max (pt_seq (snd x))) (filter (\<lambda>x. fst x = j) ts) 0 = tomb_seq ts j"
proof -
  have "map snd (filter (\<lambda>x. fst x = j) ts) = (case map_of ts j of None \<Rightarrow> [] | Some p \<Rightarrow> [p])"
    using assms
  proof (induction ts)
    case (Cons x ts)
    have "map_of ts (fst x) = None" using Cons.prems by (force simp: map_of_eq_None_iff)
    then show ?case using Cons by (cases x) auto
  qed simp
  moreover have "fold (\<lambda>x. max (pt_seq (snd x))) xs 0 = fold (\<lambda>p. max (pt_seq p)) (map snd xs) 0" for xs :: tombstones
    by (simp add: fold_map comp_def)
  ultimately show ?thesis by (simp add: tomb_seq_def split: option.split)
qed

lemma del_seq_append: "del_seq (xs @ ys) = max (del_seq xs) (del_seq ys)"
  unfolding del_seq_def by (simp, subst fold_max_acc) simp

lemma matches_append: "matches (fs @ gs) k = matches fs k @ matches gs k"
  by (simp add: matches_def)

lemma map_of_dropWhile: "lo \<le> (k :: key) \<Longrightarrow> map_of (dropWhile (\<lambda>(j, p). j < lo) ts) k = map_of ts k"
  by (induction ts) auto

lemma parts_tombstones:
  assumes "parts_of fss rs"
  shows "ascending (union_tombstones (map rr_tombstones rs))"
    and "tomb_seq (union_tombstones (map rr_tombstones rs)) k = del_seq (matches (concat fss) k)"
proof -
  let ?ts = "concat (map rr_tombstones rs)"
  have u: "ascending (union_tombstones (map rr_tombstones rs)) \<and>
      tomb_seq (union_tombstones (map rr_tombstones rs)) k = fold (\<lambda>x. max (pt_seq (snd x))) (filter (\<lambda>x. fst x = k) ?ts) 0"
    using fold_note_tombstones[of "[]" ?ts k] by (simp add: union_tombstones_def tomb_seq_def)
  have "fold (\<lambda>x. max (pt_seq (snd x))) (filter (\<lambda>x. fst x = k) ?ts) 0 = del_seq (matches (concat fss) k)"
    using assms unfolding parts_of_def
  proof (induction fss rs rule: list_all2_induct)
    case (Cons fs fss r rs)
    have "fold (\<lambda>x. max (pt_seq (snd x))) (filter (\<lambda>x. fst x = k) (rr_tombstones r)) 0 = del_seq (matches fs k)"
      using Cons(1) fold_max_tombs[of "rr_tombstones r" k] by (simp add: part_of_def)
    then show ?case using Cons.IH
      by (simp add: matches_append del_seq_append) (subst fold_max_acc, simp)
  qed (simp add: matches_def del_seq_def)
  with u show "ascending (union_tombstones (map rr_tombstones rs))"
    "tomb_seq (union_tombstones (map rr_tombstones rs)) k = del_seq (matches (concat fss) k)" by auto
qed

lemma candidates_distinct:
  assumes "hints_ok (concat fss)"
  shows "distinct (map kde_sequence (candidates fss k))"
  using assms
proof (induction fss)
  case (Cons fs fss)
  have ok: "hints_ok (concat fss)" using Cons.prems by (auto simp: hints_ok_def)
  have apart: "hn_sequence h \<noteq> hn_sequence h'"
    if "h \<in> set (concat (map snd fs))" "h' \<in> set (concat (map snd (concat fss)))" for h h'
  proof -
    have "hn_sequence ` set (concat (map snd fs)) \<inter> hn_sequence ` set (concat (map snd (concat fss))) = {}"
      using Cons.prems unfolding hints_ok_def by simp
    then show ?thesis using that by blast
  qed
  have "kde_sequence e \<notin> kde_sequence ` set (candidates fss k)" if e: "recovered fs k = Some e" for e
  proof
    assume "kde_sequence e \<in> kde_sequence ` set (candidates fss k)"
    then obtain e' fs' where e': "fs' \<in> set fss" "recovered fs' k = Some e'" "kde_sequence e = kde_sequence e'"
      by (auto simp: candidates_set)
    from recovered_match[OF Cons.prems list.set_intros(1) e] obtain w where
      w: "w \<in> set (matches fs k)" "kde_sequence e = hn_sequence (fst w)" by blast
    from recovered_match[OF ok e'(1,2)] obtain w' where
      w': "w' \<in> set (matches (concat fss) k)" "kde_sequence e' = hn_sequence (fst w')" by blast
    have in_concat: "fst m \<in> set (concat (map snd gs))" if "m \<in> set (matches gs k)" for m gs
      by (rule match_entry_in[OF that]) auto
    show False using apart[OF in_concat[OF w(1)] in_concat[OF w'(1)]] w(2) w'(2) e'(3) by simp
  qed
  moreover have "candidates (fs # fss) k = (case recovered fs k of None \<Rightarrow> [] | Some e \<Rightarrow> [e]) @ candidates fss k"
    by (simp add: candidates_def List.map_filter_def split: option.split)
  ultimately show ?case using Cons.IH[OF ok] by (auto split: option.split)
qed (simp add: candidates_def List.map_filter_def)

lemma hints_ok_fits: "hints_ok fs \<Longrightarrow> f \<in> set fs \<Longrightarrow> h \<in> set (snd f) \<Longrightarrow> hint_fits h"
  by (cases f) (auto simp: hints_ok_def)

lemma candidates_key: "candidates fss k \<noteq> [] \<Longrightarrow> hints_ok (concat fss) \<Longrightarrow> length k \<le> kMaxKeySize"
proof -
  assume ne: "candidates fss k \<noteq> []" and ok: "hints_ok (concat fss)"
  then have "hd (candidates fss k) \<in> set (candidates fss k)" by simp
  then obtain e fs where "fs \<in> set fss" "recovered fs k = Some e"
    unfolding candidates_set by blast
  from recovered_match[OF ok this] obtain w where "w \<in> set (matches (concat fss) k)" by blast
  from match_entry_in[OF this] obtain f where "f \<in> set (concat fss)" "fst w \<in> set (snd f)" "hn_key (fst w) = k" by blast
  moreover from this have "hint_fits (fst w)" using hints_ok_fits[OF ok] by blast
  ultimately show ?thesis by (simp add: hint_fits_def)
qed

lemma opt_list_groups:
  assumes "ascending gs"
  shows "ascending (concat (map (\<lambda>(k, es). opt_list k (f k es)) gs))"
    and "map_of (concat (map (\<lambda>(k, es). opt_list k (f k es)) gs)) j = (case map_of gs j of None \<Rightarrow> None | Some es \<Rightarrow> f j es)"
  using opt_run[OF assms, of f j] by (simp_all add: opt_list_def)

lemma filter_enumerate: "map snd (filter (\<lambda>(i, x). P x) (enumerate n xs)) = filter P xs"
  by (induction xs arbitrary: n) auto

text \<open>One range of the merge holds what the files decide for its keys.\<close>

lemma merge_range_correct:
  assumes ok: "hints_ok (concat fss)" and parts: "parts_of fss rs" and r: "r \<le> length spl"
  shows "\<exists>ro. merge_range spl (union_tombstones (map rr_tombstones rs)) (concat (map rr_ranges rs)) (map rr_key_dir rs) r = Inr ro \<and>
    ascending (ro_run ro) \<and>
    (\<forall>k. map_of (ro_run ro) k = (if in_range spl r k then recovered (concat fss) k else None)) \<and>
    live_for (ro_live ro) (ro_run ro)"
proof -
  let ?lo = "range_lo spl r" and ?hi = "range_hi spl r"
  let ?ts = "union_tombstones (map rr_tombstones rs)" and ?rts = "concat (map rr_ranges rs)"
  let ?near = "filter (\<lambda>(i, rt). reaches ?lo ?hi rt) (enumerate 0 ?rts)"
  let ?cs = "map (\<lambda>kd. kd_lower_bound kd ?lo) (map rr_key_dir rs)"
  let ?tsl = "if ?lo = [] then ?ts else dropWhile (\<lambda>(k, p). k < ?lo) ?ts"
  define G where "G = map (tree_slice ?hi) ?cs"
  let ?gs = "groups G"
  let ?start = "\<lparr>ro_run = [], ro_live = [], ro_needed = [], ro_needed_ranges = []\<rparr>"
  have ts: "ascending ?tsl" using parts_tombstones(1)[OF parts] by (simp add: sorted_map_dropWhile)
  have "list_all (tree_ok ?tsl) ?cs"
    using parts_ascending[OF parts] ts
    by (auto simp: list_all_iff tree_ok_def kd_lower_bound_def sorted_map_dropWhile)
  from trees.loop_groups[OF this, of ?hi ?near ?start]
  have loop: "merge_range spl ?ts ?rts (map rr_key_dir rs) r = rfold (\<lambda>(k, es). tree_visit ?tsl ?near k es) ?gs ?start"
    unfolding merge_range_def Let_def G_def by (simp add: map_sum.id[unfolded id_def] id_def)
  have at: "at_key k G = (if in_range spl r k then candidates fss k else [])" for k
    using slices_at[OF parts_ascending[OF parts], of k ?hi ?lo] parts_candidates[OF parts, of k]
    by (simp add: in_range_def G_def)
  have grp: "es = candidates fss k \<and> es \<noteq> [] \<and> in_range spl r k" if "(k, es) \<in> set ?gs" for k es
    using that at[of k] groups_nonempty[OF that] by (auto simp: groups_mem split: if_splits)
  have "\<forall>(k, es) \<in> set ?gs. es \<noteq> [] \<and> distinct (map kde_sequence es) \<and> length k \<le> kMaxKeySize"
    using grp candidates_distinct[OF ok] candidates_key[OF _ ok] by fastforce
  from tree_fold[OF this, of ?tsl ?near ?start] obtain ro where
    fold: "rfold (\<lambda>(k, es). tree_visit ?tsl ?near k es) ?gs ?start = Inr ro"
    and run: "ro_run ro = concat (map (\<lambda>(k, es). opt_list k (resolve (tomb_seq ?tsl k) (map snd ?near) k es)) ?gs)"
    and live: "live_for (ro_live ro) (ro_run ro)" using live_for_Nil by auto
  note og = opt_list_groups[OF groups_ascending[of G], of "\<lambda>k es. resolve (tomb_seq ?tsl k) (map snd ?near) k es"]
  have "map_of (ro_run ro) k = (if in_range spl r k then recovered (concat fss) k else None)" for k
  proof (cases "in_range spl r k")
    case False
    then have "k \<notin> run_keys G" using at[of k] by (simp add: at_key_empty)
    then show ?thesis unfolding run og(2) groups_map_of using False by simp
  next
    case True
    have near: "map snd ?near = filter (reaches ?lo ?hi) ?rts"
      by (rule filter_enumerate)
    have tomb: "tomb_seq ?tsl k = del_seq (matches (concat fss) k)"
      using True parts_tombstones(2)[OF parts, of k] map_of_dropWhile[of ?lo k ?ts]
      by (auto simp: in_range_def tomb_seq_def)
    have "suppressed (map snd ?near) k n = suppressed (all_ranges (concat fss)) k n" for n
      unfolding near range_suppressed[OF True]
      using suppressed_cong[of ?rts "all_ranges (concat fss)"] parts_ranges[OF parts] all_ranges_unflagged[of "concat fss"]
      by (simp add: unflagged_def)
    then have res: "resolve (tomb_seq ?tsl k) (map snd ?near) k es =
        resolve (del_seq (matches (concat fss) k)) (all_ranges (concat fss)) k es" for es
      by (simp add: resolve_def tomb Let_def split: list.split)
    have nil: "resolve T rts k [] = None" for T rts by (simp add: resolve_def)
    show ?thesis
      unfolding run og(2) groups_map_of res
      using True at[of k] at_key_empty[of k G] resolve_candidates[OF ok, of k] nil by auto
  qed
  moreover have "ascending (ro_run ro)" unfolding run by (rule og(1))
  ultimately show ?thesis using loop fold live by auto
qed

section \<open>Joining the ranges\<close>

lemma rmap_ok:
  "(\<And>x. x \<in> set xs \<Longrightarrow> \<exists>y. f x = Inr y \<and> P x y) \<Longrightarrow> \<exists>ys. rmap f xs = Inr ys \<and> list_all2 P xs ys"
proof (induction xs)
  case (Cons x xs)
  obtain y where "f x = Inr y" "P x y" using Cons.prems[of x] by auto
  moreover obtain ys where "rmap f xs = Inr ys" "list_all2 P xs ys" using Cons.IH Cons.prems by auto
  ultimately show ?case by simp
qed simp

lemma sum_live_run:
  assumes "list_all2 (\<lambda>l run. live_for l run) ls runs"
  shows "live_at (sum_live ls) f = word_of_nat (kd_live (concat runs) f)"
proof -
  have acc: "live_at (fold (\<lambda>(f, n) m. AList.update f (live_at m f + n) m) xs m) f =
      live_at m f + sum_list (map snd (filter (\<lambda>x. fst x = f) xs))" for xs m
    by (induction xs arbitrary: m) (auto simp: add.assoc)
  have one: "sum_list (map snd (filter (\<lambda>x. fst x = f) l)) = live_at l f" if "distinct (map fst l)" for l :: live_map
    using that
  proof (induction l)
    case (Cons x l)
    have "filter (\<lambda>y. fst y = fst x) l = []" using Cons.prems by (auto simp: filter_empty_conv image_iff)
    then show ?case using Cons by (cases x) (auto simp: live_at_def)
  qed simp
  have "sum_list (map snd (filter (\<lambda>x. fst x = f) (concat ls))) = word_of_nat (kd_live (concat runs) f)"
    using assms
    by (induction ls runs rule: list_all2_induct) (auto simp: one live_for_def kd_live_append)
  then show ?thesis using acc[of "concat ls" "[]"] by (simp add: sum_live_def)
qed

lemma joined_runs:
  assumes "sorted spl" and "list_all2 (\<lambda>r run. ascending run \<and> (\<forall>k. map_of run k = (if in_range spl r k then g k else None)))
    [0..<length spl + 1] runs"
  shows "ascending (concat runs)" and "map_of (concat runs) k = g k"
proof -
  have len: "length runs = length spl + 1" using list_all2_lengthD[OF assms(2)] by simp
  then have eq: "runs = map (\<lambda>r. runs ! r) [0..<length spl + 1]" by (metis map_nth)
  have run: "ascending (runs ! r) \<and> (\<forall>k. map_of (runs ! r) k = (if in_range spl r k then g k else None))"
    if "r \<le> length spl" for r
    using list_all2_nthD[OF assms(2), of r] that by (simp del: upt_Suc)
  show "ascending (concat runs)" "map_of (concat runs) k = g k"
    using join_ranges[OF assms(1), of "\<lambda>r. runs ! r" g] run eq by metis+
qed

section \<open>The load of the parts\<close>

text \<open>What a load makes of a set of hint files, whichever way it runs.\<close>

definition loaded :: "(nat \<Rightarrow> nat) \<Rightarrow> hint_files \<Rightarrow> EngineState \<Rightarrow> EngineState \<Rightarrow> bool" where
  "loaded size_of fs s s' \<longleftrightarrow>
     ascending (key_dir s') \<and> (\<forall>k. map_of (key_dir s') k = recovered fs k) \<and> distinct (map fst (file_stats s')) \<and>
     (\<forall>f. fs_get (file_stats s') f = map_option
        (\<lambda>hes. (file_stat (size_of f) hes)\<lparr>live_bytes := word_of_nat (kd_live (key_dir s') f)\<rparr>) (map_of fs f)) \<and>
     s' = s\<lparr>key_dir := key_dir s', next_seq := max_hint_seq fs + 1, file_stats := file_stats s',
       change_markers := sorted_markers (concat (map (\<lambda>f. markers_of (snd f)) fs))\<rparr>"

definition stats_of :: "(nat \<Rightarrow> nat) \<Rightarrow> hint_files \<Rightarrow> file_stats" where
  "stats_of size_of fs = map (\<lambda>(f, hes). (f, file_stat (size_of f) hes)) fs"

lemma part_notes_stats:
  assumes "part_notes size_of fs r" and "distinct (map fst fs)"
  shows "rr_file_stats r = stats_of size_of fs"
proof (rule nth_equalityI)
  have keys: "map fst (rr_file_stats r) = map fst fs"
    and val: "\<forall>(fid, hes) \<in> set fs. fs_get (rr_file_stats r) fid = Some (file_stat (size_of fid) hes)"
    using assms(1) by (auto simp: part_notes_def)
  show len: "length (rr_file_stats r) = length (stats_of size_of fs)"
    using arg_cong[OF keys, of length] by (simp add: stats_of_def)
  fix i
  assume i: "i < length (rr_file_stats r)"
  then have i': "i < length fs" using len by (simp add: stats_of_def)
  have k: "fst (rr_file_stats r ! i) = fst (fs ! i)" using arg_cong[OF keys, of "\<lambda>xs. xs ! i"] i i' by simp
  have "distinct (map fst (rr_file_stats r))" using assms(2) keys by simp
  then have "fs_get (rr_file_stats r) (fst (rr_file_stats r ! i)) = Some (snd (rr_file_stats r ! i))"
    using i unfolding fs_get_def by (intro map_of_is_SomeI) auto
  moreover have "fs_get (rr_file_stats r) (fst (fs ! i)) = Some (file_stat (size_of (fst (fs ! i))) (snd (fs ! i)))"
    using val nth_mem[OF i'] by (auto simp: case_prod_unfold)
  ultimately show "rr_file_stats r ! i = stats_of size_of fs ! i"
    using k i' by (simp add: stats_of_def case_prod_unfold prod_eq_iff)
qed

lemma union_stats_distinct: "distinct (map fst (concat fss)) \<Longrightarrow> union_stats fss = concat fss"
proof -
  have "fold (\<lambda>(f, fs) m. if fs_get m f = None then fs_set f fs m else m) xs acc = acc @ xs"
    if "distinct (map fst (acc @ xs))" for xs acc
    using that
  proof (induction xs arbitrary: acc)
    case (Cons x xs)
    obtain f fs where x: "x = (f, fs)" by fastforce
    have new: "f \<notin> fst ` set acc" using Cons.prems x by auto
    then have "fs_get acc f = None" "fs_set f fs acc = acc @ [(f, fs)]"
      by (auto simp: fs_get_def fs_set_def map_of_eq_None_iff map_fst_update_new)
    then show ?case using Cons.IH[of "acc @ [(f, fs)]"] Cons.prems x by simp
  qed simp
  then show "distinct (map fst (concat fss)) \<Longrightarrow> union_stats fss = concat fss" by (simp add: union_stats_def)
qed

lemma fs_get_with_live:
  "fs_get (with_live m fss) f = map_option (\<lambda>fs. fs\<lparr>live_bytes := live_at m f\<rparr>) (fs_get fss f)"
  by (induction fss) (auto simp: with_live_def fs_get_def)

lemma fs_get_stats_of: "fs_get (stats_of size_of fs) f = map_option (file_stat (size_of f)) (map_of fs f)"
  by (induction fs) (auto simp: stats_of_def fs_get_def)

lemma stats_of_keys: "map fst (stats_of size_of fs) = map fst fs"
  by (simp add: stats_of_def case_prod_unfold comp_def)

lemma max_hint_seq_concat: "max_hint_seq (concat fss) = fold max (map max_hint_seq fss) 0"
proof (induction fss)
  case (Cons fs fss)
  have "max_hint_seq (fs @ concat fss) = max (max_hint_seq fs) (max_hint_seq (concat fss))"
    unfolding max_hint_seq_def by (simp, subst fold_max_acc) simp
  moreover have "fold max (map max_hint_seq fss) (max_hint_seq fs) = max (max_hint_seq fs) (fold max (map max_hint_seq fss) 0)"
    using fold_max_acc[of "\<lambda>x. x" "map max_hint_seq fss" "max_hint_seq fs"] by simp
  ultimately show ?case using Cons by simp
qed (simp add: max_hint_seq_def)

lemma merge_parts_correct:
  assumes ok: "hints_ok (concat fss)" and parts: "parts_of fss rs" and nts: "list_all2 (part_notes size_of) fss rs"
  shows "\<exists>s' needed. merge_parts sep W rs s = Inr (s', needed) \<and> loaded size_of (concat fss) s s'"
proof -
  let ?spl = "splitters_of sep W rs"
  let ?f = "merge_range ?spl (union_tombstones (map rr_tombstones rs)) (concat (map rr_ranges rs)) (map rr_key_dir rs)"
  let ?P = "\<lambda>r ro. ascending (ro_run ro) \<and> (\<forall>k. map_of (ro_run ro) k = (if in_range ?spl r k then recovered (concat fss) k else None)) \<and>
    live_for (ro_live ro) (ro_run ro)"
  have "\<exists>ro. ?f r = Inr ro \<and> ?P r ro" if "r \<in> set [0..<length ?spl + 1]" for r
    using merge_range_correct[OF ok parts, of r ?spl] that by (auto simp del: upt_Suc simp: less_Suc_eq_le)
  from rmap_ok[of "[0..<length ?spl + 1]" ?f ?P, OF this] obtain outs where
    outs: "rmap ?f [0..<length ?spl + 1] = Inr outs" "list_all2 ?P [0..<length ?spl + 1] outs" by blast
  let ?kd = "concat (map ro_run outs)"
  have runs: "list_all2 (\<lambda>r run. ascending run \<and> (\<forall>k. map_of run k = (if in_range ?spl r k then recovered (concat fss) k else None)))
      [0..<length ?spl + 1] (map ro_run outs)"
    unfolding list_all2_map2 by (rule list.rel_mono_strong[OF outs(2)]) blast
  have kd: "ascending ?kd" "\<And>k. map_of ?kd k = recovered (concat fss) k"
    using joined_runs[OF splitters_sorted runs] by auto
  have "list_all2 live_for (map ro_live outs) (map ro_run outs)"
    using outs(2) by (auto simp: list_all2_conv_all_nth simp del: upt_Suc)
  note live = sum_live_run[OF this]
  have stats: "map rr_file_stats rs = map (stats_of size_of) fss" and maxs: "map rr_max_seq rs = map max_hint_seq fss"
  proof -
    have "list_all2 (\<lambda>fs r. rr_file_stats r = stats_of size_of fs \<and> rr_max_seq r = max_hint_seq fs) fss rs"
      using hints_ok_part[OF ok] part_notes_stats
      by (intro list.rel_mono_strong[OF nts]) (auto simp: hints_ok_def part_notes_def)
    then show "map rr_file_stats rs = map (stats_of size_of) fss" "map rr_max_seq rs = map max_hint_seq fss"
      by (induction rule: list_all2_induct) auto
  qed
  have flat: "concat (map (stats_of size_of) fss) = stats_of size_of (concat fss)"
    by (induction fss) (simp_all add: stats_of_def)
  have un: "union_stats (map rr_file_stats rs) = stats_of size_of (concat fss)"
    using union_stats_distinct[of "map (stats_of size_of) fss"] ok
    unfolding stats flat by (simp add: stats_of_keys hints_ok_def)
  have mk: "concat (map rr_markers rs) = concat (map (\<lambda>f. markers_of (snd f)) (concat fss))"
    using parts unfolding parts_of_def by (induction rule: list_all2_induct) (auto simp: part_of_def)
  have keys: "map fst (with_live m xs) = map fst xs" for m xs
    by (simp add: with_live_def case_prod_unfold comp_def)
  let ?s = "s\<lparr>key_dir := ?kd, next_seq := max_hint_seq (concat fss) + 1,
      file_stats := with_live (sum_live (map ro_live outs)) (stats_of size_of (concat fss)),
      change_markers := sorted_markers (concat (map (\<lambda>f. markers_of (snd f)) (concat fss)))\<rparr>"
  have "loaded size_of (concat fss) s ?s"
    using kd ok by (simp add: loaded_def keys stats_of_keys fs_get_with_live fs_get_stats_of live hints_ok_def option.map_comp comp_def)
  moreover have "\<exists>needed. merge_parts sep W rs s = Inr (?s, needed)"
    unfolding merge_parts_def Let_def outs(1) un maxs mk max_hint_seq_concat by simp
  ultimately show ?thesis by blast
qed

end
