(* ===== verification/RecoveryFences.thy ===== *)
theory RecoveryFences
  imports RecoveryTrees
begin

text \<open>
  The merge of hint streams, range by range. Fences only point into the sorted run of a file, so a
  stream that starts at one and skips the keys below its range yields exactly the entries of the
  range, whatever the layout of the frames.
\<close>

section \<open>Scanning a file\<close>

definition fences_in :: "HintEntry list \<Rightarrow> nat \<Rightarrow> (key \<times> nat) list \<Rightarrow> bool" where
  "fences_in hes i fences \<longleftrightarrow> (\<forall>(k, j) \<in> set fences. i \<le> j \<and> j < i + length hes \<and> hn_key (hes ! (j - i)) = k)"

definition scanned :: "nat \<Rightarrow> HintEntry list \<Rightarrow> FileRun \<Rightarrow> FileRun \<Rightarrow> bool" where
  "scanned fid hes run run' \<longleftrightarrow> fr_hint run' = fr_hint run \<and> fr_ranges run' = fr_ranges run @ ranges_of fid hes \<and>
     fr_markers run' = fr_markers run @ markers_of hes \<and> fr_stats run' = fold note_stats hes (fr_stats run) \<and>
     fr_max_seq run' = fold (\<lambda>h. max (hn_sequence h)) hes (fr_max_seq run)"

lemma scan_run:
  assumes "list_all (\<lambda>h. data_type (hn_type h)) hes" and "fsc_in_data st"
  shows "\<exists>run' fs. scan_hints pos fid hes i st run = Inr run' \<and> scanned fid hes run run' \<and>
    fr_data_start run' = fr_data_start run \<and> fr_fences run' = fr_fences run @ fs \<and> fences_in hes i fs"
  using assms
proof (induction hes arbitrary: i st run)
  case Nil
  then show ?case by (simp add: scanned_def ranges_of_def markers_of_def fences_in_def)
next
  case (Cons he hes)
  let ?run1 = "run\<lparr>fr_stats := note_stats he (fr_stats run), fr_max_seq := max (fr_max_seq run) (hn_sequence he)\<rparr>"
  obtain st2 run2 where sd: "scan_data pos he i st ?run1 = (st2, run2)" by fastforce
  have st2: "fsc_in_data st2" using sd Cons.prems by (auto simp: scan_data_def Let_def split: if_splits)
  from Cons.IH[of st2 "i + 1" run2] Cons.prems st2 obtain run' fs where
    run': "scan_hints pos fid hes (i + 1) st2 run2 = Inr run'" "scanned fid hes run2 run'"
      "fr_data_start run' = fr_data_start run2" "fr_fences run' = fr_fences run2 @ fs" "fences_in hes (i + 1) fs" by auto
  have dt: "data_type (hn_type he)" using Cons.prems by simp
  then have "scan_hints pos fid (he # hes) i st run = Inr run'" using run'(1) sd
    by (auto simp: data_type_def)
  moreover have "ranges_of fid (he # hes) = ranges_of fid hes" "markers_of (he # hes) = markers_of hes"
    using dt by (auto simp: ranges_of_def markers_of_def data_type_def)
  then have "scanned fid (he # hes) run run'"
    using run'(2) sd Cons.prems(2) by (auto simp: scanned_def scan_data_def Let_def max.commute split: if_splits)
  moreover have "fr_data_start run' = fr_data_start run"
    using run'(3) sd Cons.prems(2) by (auto simp: scan_data_def Let_def split: if_splits)
  moreover have "\<exists>fs'. fr_fences run' = fr_fences run @ fs' \<and> fences_in (he # hes) i fs'"
  proof -
    have later: "fences_in (he # hes) i fs"
      using run'(5) by (force simp: fences_in_def nth_Cons' split: prod.splits)
    have "fr_fences run2 = fr_fences run \<or> fr_fences run2 = fr_fences run @ [(hn_key he, i)]"
      using sd Cons.prems(2) by (auto simp: scan_data_def Let_def split: if_splits)
    then show ?thesis using run'(4) later
      by (elim disjE) (auto simp: fences_in_def)
  qed
  ultimately show ?case by blast
qed

lemma scan_file_ok:
  assumes "sorted_hints hes" and "\<not> fsc_in_data st"
  shows "\<exists>run' fs. scan_hints pos fid hes i st run = Inr run' \<and> scanned fid hes run run' \<and>
    fr_data_start run' = i + length (hint_head hes) \<and> fr_fences run' = fr_fences run @ fs \<and>
    fences_in (hint_run hes) (i + length (hint_head hes)) fs"
  using assms
proof (induction hes arbitrary: i st run)
  case Nil
  then show ?case by (simp add: scanned_def ranges_of_def markers_of_def fences_in_def hint_head_def)
next
  case (Cons he hes)
  let ?run1 = "run\<lparr>fr_stats := note_stats he (fr_stats run), fr_max_seq := max (fr_max_seq run) (hn_sequence he)\<rparr>"
  show ?case
  proof (cases "data_type (hn_type he)")
    case True
    then have hd: "hint_head (he # hes) = []" "hint_run (he # hes) = he # hes" by (simp_all add: hint_head_def hint_run_def)
    have all: "list_all (\<lambda>h. data_type (hn_type h)) (he # hes)" using Cons.prems(1) hd by (simp add: sorted_hints_def)
    have "scan_hints pos fid (he # hes) i st run =
        scan_hints pos fid (he # hes) i (st\<lparr>fsc_in_data := True\<rparr>) (run\<lparr>fr_data_start := i\<rparr>)"
      using True Cons.prems(2) by (cases run) (auto simp: data_type_def scan_data_def Let_def)
    with scan_run[OF all, of "st\<lparr>fsc_in_data := True\<rparr>" pos fid i "run\<lparr>fr_data_start := i\<rparr>"] hd
    show ?thesis by (auto simp: scanned_def)
  next
    case False
    then have hd: "hint_head (he # hes) = he # hint_head hes" "hint_run (he # hes) = hint_run hes"
      by (simp_all add: hint_head_def hint_run_def)
    have srt: "sorted_hints hes" using Cons.prems(1) hd by (simp add: sorted_hints_def)
    have ty: "hn_type he \<in> {BulkBegin, BulkEnd, ChangeMarker, RangeDel}" using Cons.prems(1) hd by (simp add: sorted_hints_def)
    let ?run2 = "?run1\<lparr>fr_ranges := fr_ranges run @ ranges_of fid [he], fr_markers := fr_markers run @ markers_of [he]\<rparr>"
    have "scan_hints pos fid (he # hes) i st run = scan_hints pos fid hes (i + 1) st ?run2"
      using ty Cons.prems(2) by (auto simp: ranges_of_def markers_of_def)
    moreover from Cons.IH[OF srt Cons.prems(2), of "i + 1" ?run2] obtain run' fs where
      "scan_hints pos fid hes (i + 1) st ?run2 = Inr run'" "scanned fid hes ?run2 run'"
      "fr_data_start run' = i + 1 + length (hint_head hes)" "fr_fences run' = fr_fences ?run2 @ fs"
      "fences_in (hint_run hes) (i + 1 + length (hint_head hes)) fs" by blast
    moreover have "ranges_of fid (he # hes) = ranges_of fid [he] @ ranges_of fid hes"
      "markers_of (he # hes) = markers_of [he] @ markers_of hes"
      by (simp_all add: ranges_of_def markers_of_def)
    ultimately show ?thesis using hd by (auto simp: scanned_def max.commute)
  qed
qed

section \<open>The cursor of a range\<close>

definition run_of :: "nat \<times> HintEntry list \<Rightarrow> FileRun \<Rightarrow> bool" where
  "run_of f run \<longleftrightarrow> sorted_hints (snd f) \<and> fr_hint run = Some (snd f) \<and>
     fr_data_start run = length (hint_head (snd f)) \<and>
     fences_in (hint_run (snd f)) (length (hint_head (snd f))) (fr_fences run)"

definition stream_slice :: "key \<Rightarrow> key option \<Rightarrow> nat \<times> HintEntry list \<Rightarrow> (key \<times> hint_match) list" where
  "stream_slice lo hi f = tagged (fst f) (below hi (collapse (dropWhile (\<lambda>h. hn_key h < lo) (data (snd f)))))"

lemma seek_start_ok:
  assumes "run_of f run"
  shows "\<exists>n. seek_start run lo = length (hint_head (snd f)) + n \<and> (\<forall>x \<in> set (take n (hint_run (snd f))). hn_key x < lo)"
proof (cases "lo = [] \<or> takeWhile (\<lambda>(k, i). k < lo) (fr_fences run) = []")
  case True
  then show ?thesis using assms by (auto simp: seek_start_def run_of_def Let_def intro!: exI[of _ 0])
next
  case False
  let ?w = "takeWhile (\<lambda>(k, i). k < lo) (fr_fences run)" and ?h = "length (hint_head (snd f))"
  obtain k j where l: "last ?w = (k, j)" by fastforce
  then have mem: "(k, j) \<in> set ?w" using False last_in_set by metis
  then have "k < lo" "(k, j) \<in> set (fr_fences run)" using set_takeWhileD by fastforce+
  then have j: "?h \<le> j" "j < ?h + length (hint_run (snd f))" "hn_key (hint_run (snd f) ! (j - ?h)) = k"
    using assms by (auto simp: run_of_def fences_in_def)
  have srt: "sorted (map hn_key (hint_run (snd f)))" using assms by (simp add: run_of_def sorted_hints_def)
  have "hn_key x < lo" if x: "x \<in> set (take (j - ?h) (hint_run (snd f)))" for x
  proof -
    obtain i where i: "i < j - ?h" "x = hint_run (snd f) ! i" using x j by (auto simp: in_set_conv_nth)
    have "map hn_key (hint_run (snd f)) ! i \<le> map hn_key (hint_run (snd f)) ! (j - ?h)"
      using sorted_nth_mono[OF srt, of i "j - ?h"] i j by simp
    then show ?thesis using i j \<open>k < lo\<close> by simp
  qed
  moreover have "seek_start run lo = ?h + (j - ?h)" using False l j by (auto simp: seek_start_def Let_def)
  ultimately show ?thesis by blast
qed

lemma skip_below_ok:
  assumes "list_all (\<lambda>h. data_type (hn_type h)) (c_rest c)" and "c_lookahead c = None"
  shows "\<exists>c'. skip_below lo c = Inr c' \<and> c_file_id c' = c_file_id c \<and> c_cur c' = c_cur c \<and>
    list_all (\<lambda>h. data_type (hn_type h)) (c_rest c') \<and>
    upcoming c' = dropWhile (\<lambda>h. hn_key h < lo) (c_rest c)"
  using assms
proof (induction "c_rest c" arbitrary: c)
  case Nil
  then have "c_rest c = []" by simp
  then show ?case using Nil(3) by (subst skip_below.simps) (simp add: upcoming_def)
next
  case (Cons h hs)
  have rest: "c_rest c = h # hs" using Cons.hyps(2) by simp
  have dt: "data_type (hn_type h)" and all: "list_all (\<lambda>h. data_type (hn_type h)) hs"
    using Cons.prems(1) rest by auto
  show ?case
  proof (cases "hn_key h < lo")
    case True
    have "skip_below lo c = skip_below lo (c\<lparr>c_rest := hs\<rparr>)"
      using True rest dt by (subst skip_below.simps) simp
    then show ?thesis using Cons.hyps(1)[of "c\<lparr>c_rest := hs\<rparr>"] all Cons.prems(2) True rest by simp
  next
    case False
    have "data hs = hs" using all by (simp add: data_def list_all_iff)
    then show ?thesis using False rest dt all by (subst skip_below.simps) (simp add: upcoming_def)
  qed
qed

lemma dropWhile_drop: "(\<forall>x \<in> set (take n xs). P x) \<Longrightarrow> dropWhile P (drop n xs) = dropWhile P xs"
proof -
  assume "\<forall>x \<in> set (take n xs). P x"
  then have "dropWhile P (take n xs @ drop n xs) = dropWhile P (drop n xs)" by (intro dropWhile_append2) auto
  then show ?thesis by simp
qed

lemma stream_cursor_ok:
  assumes run: "run_of f run"
  shows "\<exists>c. stream_cursor lo hi (fst f) run (snd f) = Inr c \<and> cursor_ok c \<and> items hi c = stream_slice lo hi f"
proof -
  let ?run = "hint_run (snd f)"
  have srt: "sorted_hints (snd f)" using run by (simp add: run_of_def)
  have all: "list_all (\<lambda>h. data_type (hn_type h)) ?run" and ord: "sorted (map hn_key ?run)"
    using srt by (auto simp: sorted_hints_def)
  from seek_start_ok[OF run, of lo] obtain n where
    n: "seek_start run lo = length (hint_head (snd f)) + n" "\<forall>x \<in> set (take n ?run). hn_key x < lo" by blast
  have "drop (length (hint_head (snd f)) + n) (hint_head (snd f) @ ?run) = drop n ?run" by simp
  then have drop: "drop (seek_start run lo) (snd f) = drop n ?run" by (simp add: n(1) hint_head_def hint_run_def)
  have alln: "list_all (\<lambda>h. data_type (hn_type h)) (drop n ?run)"
    using all by (auto simp: list_all_iff dest: in_set_dropD)
  let ?c = "\<lparr>c_file_id = fst f, c_rest = drop n ?run, c_cur = None, c_lookahead = None\<rparr>"
  have dw: "dropWhile (\<lambda>h. hn_key h < lo) (drop n ?run) = dropWhile (\<lambda>h. hn_key h < lo) ?run"
    by (rule dropWhile_drop) (use n(2) in blast)
  have "\<exists>c. (if lo = [] then Inr ?c else skip_below lo ?c) = Inr c \<and> c_file_id c = fst f \<and> c_cur c = None \<and>
      list_all (\<lambda>h. data_type (hn_type h)) (c_rest c) \<and> upcoming c = dropWhile (\<lambda>h. hn_key h < lo) ?run"
  proof (cases "lo = []")
    case True
    have "data (drop n ?run) = drop n ?run" using alln by (simp add: data_def list_all_iff)
    moreover have "dropWhile (\<lambda>h. hn_key h < []) xs = xs" for xs by (cases xs) auto
    ultimately show ?thesis using True alln dw by (simp add: upcoming_def)
  next
    case False
    then show ?thesis using skip_below_ok[of ?c lo] alln dw by simp
  qed
  then obtain c where c: "(if lo = [] then Inr ?c else skip_below lo ?c) = Inr c" "c_file_id c = fst f" "c_cur c = None"
    "list_all (\<lambda>h. data_type (hn_type h)) (c_rest c)" "upcoming c = dropWhile (\<lambda>h. hn_key h < lo) ?run" by blast
  have "cursor_ok c"
    using c ord by (auto simp: cursor_ok_def list_all_iff data_type_def sorted_map_dropWhile)
  from stream_load_items[OF this, of hi] obtain c' where
    "stream_load hi c = Inr c'" "cursor_ok c'" "items hi c' = tagged (fst f) (below hi (collapse (upcoming c)))"
    using c(2) by auto
  then show ?thesis using c(1,5) data_hint_run[OF srt]
    by (simp add: stream_cursor_def Let_def drop stream_slice_def)
qed

lemma groups_drop_empty: "groups (filter (\<lambda>xs. xs \<noteq> []) xss) = groups xss"
proof -
  have "run_keys (filter (\<lambda>xs. xs \<noteq> []) xss) = run_keys xss" by (induction xss) auto
  moreover have "at_key k (filter (\<lambda>xs. xs \<noteq> []) xss) = at_key k xss" for k by (induction xss) auto
  ultimately show ?thesis by (simp add: groups_def)
qed

lemma stream_cursors_ok:
  assumes "list_all2 (\<lambda>x f. rf_file_id (fst x) = fst f \<and> run_of f (snd x)) rs fs"
  shows "\<exists>cs. stream_cursors lo hi rs = Inr cs \<and> list_all cursor_ok cs \<and>
    groups (map (items hi) cs) = groups (map (stream_slice lo hi) fs)"
proof -
  have "\<exists>cs. stream_cursors lo hi rs = Inr cs \<and> list_all cursor_ok cs \<and>
      map (items hi) cs = filter (\<lambda>xs. xs \<noteq> []) (map (stream_slice lo hi) fs)"
    using assms
  proof (induction rs fs rule: list_all2_induct)
    case (Cons x rs f fs)
    obtain rf run where x: "x = (rf, run)" by fastforce
    have run: "run_of f run" and id: "rf_file_id rf = fst f" using Cons(1) x by auto
    have hint: "fr_hint run = Some (snd f)" using run by (simp add: run_of_def)
    from stream_cursor_ok[OF run, of lo hi] obtain c where
      c: "stream_cursor lo hi (fst f) run (snd f) = Inr c" "cursor_ok c" "items hi c = stream_slice lo hi f" by blast
    from Cons(3) obtain cs where
      "stream_cursors lo hi rs = Inr cs" "list_all cursor_ok cs"
      "map (items hi) cs = filter (\<lambda>xs. xs \<noteq> []) (map (stream_slice lo hi) fs)" by blast
    moreover have "c_cur c = None \<longleftrightarrow> stream_slice lo hi f = []"
      unfolding c(3)[symmetric] by (auto simp: items_def tagged_def split: option.splits)
    ultimately show ?case using c hint id x by simp
  qed simp
  then show ?thesis using groups_drop_empty by metis
qed

section \<open>Merging a range\<close>

lemma dropWhile_sorted_filter:
  "sorted (map hn_key hs) \<Longrightarrow> dropWhile (\<lambda>h. hn_key h < lo) hs = filter (\<lambda>h. lo \<le> hn_key h) hs"
proof (induction hs)
  case (Cons h hs)
  have "filter (\<lambda>x. lo \<le> hn_key x) hs = hs" if "\<not> hn_key h < lo"
    using Cons.prems that by (auto simp: filter_id_conv)
  then show ?case using Cons by auto
qed simp

lemma below_filter:
  "sorted_wrt (<) (map hn_key hs) \<Longrightarrow> below hi hs = filter (\<lambda>h. below_hi hi (hn_key h)) hs"
proof (induction hs)
  case (Cons h hs)
  have "filter (\<lambda>x. below_hi hi (hn_key x)) hs = []" if "\<not> below_hi hi (hn_key h)"
    using Cons.prems that by (force simp: filter_empty_conv below_hi_def split: option.splits)
  then show ?case using Cons by (auto simp: below_def)
qed (simp add: below_def)

lemma stream_slice_match:
  assumes "sorted_hints (snd f)"
  shows "map snd (filter (\<lambda>(k', x). k' = k) (stream_slice lo hi f)) =
    (if lo \<le> k \<and> below_hi hi k then file_match k f else [])"
proof -
  let ?d = "data (snd f)"
  have srt: "sorted (map hn_key ?d)" using assms by (simp add: data_hint_run) (simp add: sorted_hints_def)
  let ?e = "filter (\<lambda>h. lo \<le> hn_key h) ?d"
  have srt': "sorted (map hn_key ?e)" using srt by (rule sorted_filter)
  have tag: "map snd (filter (\<lambda>(k', x). k' = k) (tagged fid hs)) = map (\<lambda>h. (h, fid)) (filter (\<lambda>h. hn_key h = k) hs)" for fid hs
    by (induction hs) (auto simp: tagged_def)
  have "filter (\<lambda>h. hn_key h = k) (below hi (collapse ?e)) =
      (if below_hi hi k then filter (\<lambda>h. hn_key h = k) (collapse ?e) else [])"
    unfolding below_filter[OF collapse_ascending[OF srt']]
    by (induction "collapse ?e") (auto simp: filter_empty_conv intro!: filter_cong)
  moreover have "filter (\<lambda>h. hn_key h = k) ?e = (if lo \<le> k then filter (\<lambda>h. hn_key h = k) ?d else [])"
    by (auto simp: filter_empty_conv intro!: filter_cong)
  ultimately show ?thesis
    unfolding stream_slice_def tag dropWhile_sorted_filter[OF srt]
    by (auto simp: collapse_match[OF srt'] file_match_def split: list.split)
qed

lemma stream_slices_at:
  assumes "\<forall>f \<in> set fs. sorted_hints (snd f)"
  shows "at_key k (map (stream_slice lo hi) fs) = (if lo \<le> k \<and> below_hi hi k then matches fs k else [])"
  using assms by (induction fs) (simp_all add: matches_def stream_slice_match)

lemma match_entry_ok: "match_fits m \<Longrightarrow> match_entry m = Inr (match_kde m) \<and> kde_sequence (match_kde m) = hn_sequence (fst m)"
  by (auto simp: match_entry_def kde_make_iff match_kde_def match_fits_def hint_fits_def intro!: kde_pack_fields)

lemma newest_match_ok:
  assumes "\<forall>m \<in> set (w # ms). match_fits m" and "distinct (map (\<lambda>m. hn_sequence (fst m)) (w # ms))"
  shows "newest_match (w, match_kde w) ms = Inr (newest w ms, match_kde (newest w ms))"
  using assms
proof (induction ms arbitrary: w)
  case (Cons m ms)
  have m: "match_entry m = Inr (match_kde m)" "kde_sequence (match_kde m) = hn_sequence (fst m)"
    "kde_sequence (match_kde w) = hn_sequence (fst w)"
    using match_entry_ok Cons.prems(1) by auto
  have "kde_newer (match_kde m) (match_kde w) = Inr (hn_sequence (fst m) > hn_sequence (fst w))"
    using m Cons.prems(2) by (simp add: kde_newer_def)
  then show ?case using Cons m by auto
qed simp

lemma stream_key_ok:
  assumes ms: "ms \<noteq> []" "\<forall>m \<in> set ms. match_fits m \<and> hn_key (fst m) = k" "distinct (map (\<lambda>m. hn_sequence (fst m)) ms)"
    and out: "\<forall>x \<in> set (so_run so). fst x < k"
  shows "\<exists>so'. stream_key rts k ms so = Inr so' \<and> so_run so' = so_run so @ opt_list k (decide rts k ms) \<and>
    (live_for (so_live so) (so_run so) \<longrightarrow> live_for (so_live so') (so_run so'))"
proof -
  obtain m ms' where cons: "ms = m # ms'" using ms(1) by (cases ms) auto
  let ?w = "newest m ms'"
  have w: "match_fits ?w" "hn_key (fst ?w) = k" using newest_mem[of m ms'] ms(2) cons by auto
  have new: "newest_match (m, match_kde m) ms' = Inr (?w, match_kde ?w)"
    using ms cons by (intro newest_match_ok) auto
  have e: "match_entry m = Inr (match_kde m)" "kde_sequence (match_kde ?w) = hn_sequence (fst ?w)"
    using match_entry_ok w(1) ms(2) cons by auto
  have app: "blind_append k (match_kde ?w) (so_run so) = Inr (so_run so @ [(k, match_kde ?w)])"
  proof -
    have "kde_file_id (match_kde ?w) = snd ?w"
      using w(1) by (simp add: match_kde_def match_fits_def hint_fits_def kde_pack_fields)
    moreover have "so_run so = [] \<or> fst (last (so_run so)) < k" using out last_in_set by blast
    ultimately show ?thesis using w by (auto simp: blind_append_def match_fits_def hint_fits_def)
  qed
  show ?thesis
  proof (cases "hn_type (fst ?w) = Put \<and> \<not> suppressed rts k (hn_sequence (fst ?w))")
    case True
    then have "decide rts k ms = Some (match_kde ?w)" by (simp add: decide_def cons Let_def)
    then show ?thesis using True new e app
      by (simp add: stream_key_def cons Let_def opt_list_def live_for_add)
  next
    case False
    then have "decide rts k ms = None" by (simp add: decide_def cons Let_def)
    then show ?thesis using False new e by (auto simp: stream_key_def cons Let_def opt_list_def)
  qed
qed

lemma stream_fold:
  assumes "ascending gs" and "\<forall>(k, ms) \<in> set gs. ms \<noteq> [] \<and> (\<forall>m \<in> set ms. match_fits m \<and> hn_key (fst m) = k) \<and>
      distinct (map (\<lambda>m. hn_sequence (fst m)) ms)"
    and "\<forall>x \<in> set (so_run so). \<forall>k \<in> fst ` set gs. fst x < k"
  shows "\<exists>so'. rfold (\<lambda>(k, ms). stream_key rts k ms) gs so = Inr so' \<and>
    so_run so' = so_run so @ concat (map (\<lambda>(k, ms). opt_list k (decide rts k ms)) gs) \<and>
    (live_for (so_live so) (so_run so) \<longrightarrow> live_for (so_live so') (so_run so'))"
  using assms
proof (induction gs arbitrary: so)
  case (Cons g gs)
  obtain k ms where g: "g = (k, ms)" by fastforce
  have pre: "ms \<noteq> []" "\<forall>m \<in> set ms. match_fits m \<and> hn_key (fst m) = k" "distinct (map (\<lambda>m. hn_sequence (fst m)) ms)"
    "\<forall>x \<in> set (so_run so). fst x < k"
    using Cons.prems(2,3) g by auto
  from stream_key_ok[OF pre, of rts] obtain so1 where
    so1: "stream_key rts k ms so = Inr so1" "so_run so1 = so_run so @ opt_list k (decide rts k ms)"
      "live_for (so_live so) (so_run so) \<longrightarrow> live_for (so_live so1) (so_run so1)" by blast
  have "\<forall>x \<in> set (so_run so1). \<forall>k \<in> fst ` set gs. fst x < k"
    using Cons.prems(1,3) g by (auto simp: so1(2) opt_list_def split: option.splits)
  from Cons.IH[OF _ _ this] Cons.prems(1,2) obtain so' where
    "rfold (\<lambda>(k, ms). stream_key rts k ms) gs so1 = Inr so'"
    "so_run so' = so_run so1 @ concat (map (\<lambda>(k, ms). opt_list k (decide rts k ms)) gs)"
    "live_for (so_live so1) (so_run so1) \<longrightarrow> live_for (so_live so') (so_run so')" by auto
  then show ?case using so1 g by simp
qed simp

lemma matches_distinct:
  assumes "hints_ok fs"
  shows "distinct (map (\<lambda>m. hn_sequence (fst m)) (matches fs k))"
proof -
  have ids: "snd ` set (matches gs k) \<subseteq> fst ` set gs" for gs
    by (force simp: matches_def file_match_def split: list.splits)
  have "distinct (map snd (matches gs k))" if "distinct (map fst gs)" for gs
    using that
  proof (induction gs)
    case (Cons g gs)
    have app: "matches (g # gs) k = file_match k g @ matches gs k" by (simp add: matches_def)
    have new: "fst g \<notin> snd ` set (matches gs k)" using Cons.prems ids[of gs] by auto
    consider "file_match k g = []" | h where "file_match k g = [(h, fst g)]"
      by (cases "filter (\<lambda>h. hn_key h = k) (data (snd g))") (auto simp: file_match_def)
    then show ?case using Cons new app by cases auto
  qed (simp add: matches_def)
  then have "distinct (matches fs k)" using assms by (simp add: hints_ok_def distinct_map)
  then show ?thesis using matches_inj[OF assms] by (simp add: distinct_map)
qed

lemma matches_fit:
  assumes "hints_ok fs" and "m \<in> set (matches fs k)"
  shows "match_fits m \<and> hn_key (fst m) = k"
proof -
  from match_entry_in[OF assms(2)] obtain f where
    f: "f \<in> set fs" "fst m \<in> set (snd f)" "snd m = fst f" "hn_key (fst m) = k" by blast
  have "fst f \<le> kMaxFileId" using assms(1) f(1) by (auto simp: hints_ok_def)
  then show ?thesis using hints_ok_fits[OF assms(1) f(1,2)] f by (simp add: match_fits_def)
qed

lemma stream_range_correct:
  assumes ok: "hints_ok fs" and runs: "list_all2 (\<lambda>x f. rf_file_id (fst x) = fst f \<and> run_of f (snd x)) rs fs"
  shows "\<exists>so. stream_range spl (all_ranges fs) rs r = Inr so \<and> ascending (so_run so) \<and>
    (\<forall>k. map_of (so_run so) k = (if in_range spl r k then recovered fs k else None)) \<and> live_for (so_live so) (so_run so)"
proof -
  let ?lo = "range_lo spl r" and ?hi = "range_hi spl r"
  let ?near = "filter (reaches ?lo ?hi) (all_ranges fs)"
  let ?start = "\<lparr>so_run = [], so_live = [], so_needed = [], so_ranges = ?near\<rparr>"
  define G where "G = map (stream_slice ?lo ?hi) fs"
  have srt: "\<forall>f \<in> set fs. sorted_hints (snd f)" using ok by (auto simp: hints_ok_def)
  from stream_cursors_ok[OF runs, of ?lo ?hi] obtain cs where
    cs: "stream_cursors ?lo ?hi rs = Inr cs" "list_all cursor_ok cs" "groups (map (items ?hi) cs) = groups G"
    unfolding G_def by blast
  from streams.loop_groups[OF cs(2), of ?hi ?near ?start]
  have loop: "stream_range spl (all_ranges fs) rs r = rfold (\<lambda>(k, ms). stream_key ?near k ms) (groups G) ?start"
    unfolding stream_range_def Let_def by (simp add: cs(1,3) map_sum.id[unfolded id_def] id_def)
  have at: "at_key k G = (if in_range spl r k then matches fs k else [])" for k
    using stream_slices_at[OF srt, of k ?lo ?hi] by (simp add: G_def in_range_def)
  have grp: "ms = matches fs k \<and> ms \<noteq> []" if "(k, ms) \<in> set (groups G)" for k ms
    using that at[of k] groups_nonempty[OF that] by (auto simp: groups_mem split: if_splits)
  have pre: "\<forall>(k, ms) \<in> set (groups G). ms \<noteq> [] \<and> (\<forall>m \<in> set ms. match_fits m \<and> hn_key (fst m) = k) \<and>
      distinct (map (\<lambda>m. hn_sequence (fst m)) ms)"
    using grp matches_fit[OF ok] matches_distinct[OF ok] by blast
  from stream_fold[OF groups_ascending pre, of ?start ?near] obtain so where
    fold: "rfold (\<lambda>(k, ms). stream_key ?near k ms) (groups G) ?start = Inr so"
    and run: "so_run so = concat (map (\<lambda>(k, ms). opt_list k (decide ?near k ms)) (groups G))"
    and live: "live_for (so_live so) (so_run so)" using live_for_Nil by auto
  note og = opt_list_groups[OF groups_ascending[of G], of "\<lambda>k ms. decide ?near k ms"]
  have "map_of (so_run so) k = (if in_range spl r k then recovered fs k else None)" for k
  proof (cases "in_range spl r k")
    case False
    then have "k \<notin> run_keys G" using at[of k] by (simp add: at_key_empty)
    then show ?thesis unfolding run og(2) groups_map_of using False by simp
  next
    case True
    have "decide ?near k ms = decide (all_ranges fs) k ms" for ms
      by (simp add: decide_def range_suppressed[OF True] Let_def split: list.split)
    moreover have "decide rts k [] = None" for rts by (simp add: decide_def)
    ultimately show ?thesis
      unfolding run og(2) groups_map_of using True at[of k] at_key_empty[of k G] by (auto simp: recovered_def)
  qed
  moreover have "ascending (so_run so)" unfolding run by (rule og(1))
  ultimately show ?thesis using loop fold live by auto
qed

section \<open>The load of the streams\<close>

definition runs_of :: "(nat \<Rightarrow> nat) \<Rightarrow> hint_files \<Rightarrow> RecoveredFile list \<Rightarrow> FileRun list \<Rightarrow> bool" where
  "runs_of size_of fs rfs runs \<longleftrightarrow> map fst fs = map rf_file_id rfs \<and> list_all2 run_of fs runs \<and>
     list_all2 (\<lambda>f run. scanned (fst f) (snd f)
       \<lparr>fr_hint = Some (snd f), fr_data_start = 0, fr_fences = [], fr_ranges = [],
        fr_stats = FileStats_empty\<lparr>total_bytes := word_of_nat (size_of (fst f))\<rparr>, fr_max_seq = 0, fr_markers = []\<rparr> run) fs runs"

lemma merge_streams_correct:
  assumes ok: "hints_ok fs" and runs: "runs_of size_of fs rfs runs"
  shows "\<exists>s' needed. merge_streams W rfs runs s = Inr (s', needed) \<and> loaded size_of fs s s'"
proof -
  let ?spl = "fence_splitters W runs"
  let ?f = "stream_range ?spl (all_ranges fs) (zip rfs runs)"
  let ?P = "\<lambda>r so. ascending (so_run so) \<and> (\<forall>k. map_of (so_run so) k = (if in_range ?spl r k then recovered fs k else None)) \<and>
    live_for (so_live so) (so_run so)"
  have ids: "map fst fs = map rf_file_id rfs" using runs by (simp add: runs_of_def)
  have len: "length rfs = length fs" "length runs = length fs"
    using arg_cong[OF ids, of length] runs list_all2_lengthD[of run_of fs runs] by (auto simp: runs_of_def)
  have zips: "list_all2 (\<lambda>x f. rf_file_id (fst x) = fst f \<and> run_of f (snd x)) (zip rfs runs) fs"
    unfolding list_all2_conv_all_nth
    using len runs nth_map[of _ fs fst] nth_map[of _ rfs rf_file_id] ids
    by (auto simp: runs_of_def list_all2_conv_all_nth)
  have "\<exists>so. ?f r = Inr so \<and> ?P r so" if "r \<in> set [0..<length ?spl + 1]" for r
    using stream_range_correct[OF ok zips] by blast
  from rmap_ok[of "[0..<length ?spl + 1]" ?f ?P, OF this] obtain outs where
    outs: "rmap ?f [0..<length ?spl + 1] = Inr outs" "list_all2 ?P [0..<length ?spl + 1] outs" by blast
  let ?kd = "concat (map so_run outs)"
  have parts: "list_all2 (\<lambda>r run. ascending run \<and> (\<forall>k. map_of run k = (if in_range ?spl r k then recovered fs k else None)))
      [0..<length ?spl + 1] (map so_run outs)"
    unfolding list_all2_map2 by (rule list.rel_mono_strong[OF outs(2)]) blast
  have kd: "ascending ?kd" "\<And>k. map_of ?kd k = recovered fs k"
    using joined_runs[OF fence_splitters_sorted parts] by auto
  have "list_all2 live_for (map so_live outs) (map so_run outs)"
    using outs(2) by (auto simp: list_all2_conv_all_nth simp del: upt_Suc)
  note live = sum_live_run[OF this]
  have sc: "map fr_ranges runs = map (\<lambda>f. ranges_of (fst f) (snd f)) fs"
    "map fr_max_seq runs = map (\<lambda>f. max_hint_seq [f]) fs" "map fr_markers runs = map (\<lambda>f. markers_of (snd f)) fs"
    "map fr_stats runs = map (\<lambda>f. file_stat (size_of (fst f)) (snd f)) fs"
    using runs unfolding runs_of_def
    by (auto simp: list_eq_iff_nth_eq list_all2_conv_all_nth scanned_def max_hint_seq_def file_stat_def)
  have rts: "concat (map fr_ranges runs) = all_ranges fs"
    unfolding sc all_ranges_def by (simp add: case_prod_unfold)
  have maxs: "fold max (map fr_max_seq runs) 0 = max_hint_seq fs"
    using max_hint_seq_concat[of "map (\<lambda>f. [f]) fs"] unfolding sc by (simp add: comp_def)
  let ?live = "\<lambda>f. word_of_nat (kd_live ?kd f) :: u64"
  have stats: "map (\<lambda>(rf, run). (rf_file_id rf, (fr_stats run)\<lparr>live_bytes := live_at (sum_live (map so_live outs)) (rf_file_id rf)\<rparr>))
      (zip rfs runs) = map (\<lambda>(f, hes). (f, (file_stat (size_of f) hes)\<lparr>live_bytes := ?live f\<rparr>)) fs" (is "?st = ?st'")
  proof (rule nth_equalityI)
    fix i
    assume "i < length ?st"
    then have i: "i < length fs" "i < length rfs" "i < length runs" using len by auto
    have "fr_stats (runs ! i) = file_stat (size_of (fst (fs ! i))) (snd (fs ! i))"
      using arg_cong[OF sc(4), of "\<lambda>xs. xs ! i"] i by simp
    moreover have "rf_file_id (rfs ! i) = fst (fs ! i)" using arg_cong[OF ids, of "\<lambda>xs. xs ! i"] i by simp
    ultimately show "?st ! i = ?st' ! i" using i by (simp add: live case_prod_unfold)
  qed (simp add: len)
  have get: "fs_get (map (\<lambda>(f, hes). (f, g f hes)) xs) f = map_option (g f) (map_of xs f)" for g xs f
    by (induction xs) (auto simp: fs_get_def)
  let ?s = "s\<lparr>key_dir := ?kd, next_seq := max_hint_seq fs + 1, file_stats := ?st',
      change_markers := sorted_markers (concat (map (\<lambda>f. markers_of (snd f)) fs))\<rparr>"
  have "map fst ?st' = map fst fs" by (simp add: case_prod_unfold comp_def)
  then have "distinct (map fst ?st')" using ok by (simp only: hints_ok_def)
  then have "loaded size_of fs s ?s" using kd unfolding loaded_def by (simp add: get)
  moreover have "\<exists>needed. merge_streams W rfs runs s = Inr (?s, needed)"
    unfolding merge_streams_def Let_def rts outs(1) maxs by (simp add: stats sc(3))
  ultimately show ?thesis by blast
qed

end
