(* ===== verification/RecoveryReplay.thy ===== *)
theory RecoveryReplay
  imports RecoveryFences
begin

text \<open>
  What a load decides for a key is what replaying the entries of all hint files in sequence order
  leaves for it. The order of the files does not matter.
\<close>

section \<open>Replaying the entries\<close>

definition entries_of :: "hint_files \<Rightarrow> (nat \<times> HintEntry) list" where
  "entries_of fs = concat (map (\<lambda>(f, hes). map (Pair f) hes) fs)"

definition replay_step :: "nat \<times> HintEntry \<Rightarrow> (key \<rightharpoonup> KeyDirEntry) \<Rightarrow> key \<rightharpoonup> KeyDirEntry" where
  "replay_step x m =
    (case hn_type (snd x) of
       Put \<Rightarrow> m(hn_key (snd x) \<mapsto> match_kde (snd x, fst x))
     | Delete \<Rightarrow> m(hn_key (snd x) := None)
     | RangeDel \<Rightarrow> m |` {k. \<not> (hn_key (snd x) \<le> k \<and> k < hn_end_key (snd x))}
     | _ \<Rightarrow> m)"

definition replay :: "hint_files \<Rightarrow> key \<rightharpoonup> KeyDirEntry" where
  "replay fs = fold replay_step (sort_key (hn_sequence \<circ> snd) (entries_of fs)) Map.empty"

definition affects :: "key \<Rightarrow> HintEntry \<Rightarrow> bool" where
  "affects k h \<longleftrightarrow> data_type (hn_type h) \<and> hn_key h = k \<or> hn_type h = RangeDel \<and> hn_key h \<le> k \<and> k < hn_end_key h"

text \<open>The entry that decides a key: a put that nothing newer affects.\<close>

definition decides :: "(nat \<times> HintEntry) set \<Rightarrow> key \<Rightarrow> nat \<times> HintEntry \<Rightarrow> bool" where
  "decides E k x \<longleftrightarrow> x \<in> E \<and> hn_type (snd x) = Put \<and> hn_key (snd x) = k \<and>
     (\<forall>y \<in> E. affects k (snd y) \<longrightarrow> hn_sequence (snd y) \<le> hn_sequence (snd x))"

lemma replay_step_at:
  "replay_step x m k = (if affects k (snd x)
     then if hn_type (snd x) = Put then Some (match_kde (snd x, fst x)) else None else m k)"
  by (cases "hn_type (snd x)") (auto simp: replay_step_def affects_def data_type_def restrict_map_def)

lemma fold_replay:
  assumes "sorted_wrt (<) (map (hn_sequence \<circ> snd) L)"
  shows "fold replay_step L Map.empty k = Some e \<longleftrightarrow> (\<exists>x. decides (set L) k x \<and> e = match_kde (snd x, fst x))"
  using assms
proof (induction L arbitrary: e rule: rev_induct)
  case Nil
  then show ?case by (simp add: decides_def)
next
  case (snoc z L)
  have IH: "fold replay_step L Map.empty k = Some e \<longleftrightarrow> (\<exists>x. decides (set L) k x \<and> e = match_kde (snd x, fst x))" for e
    using snoc by (simp add: sorted_wrt_append)
  have last: "hn_sequence (snd y) < hn_sequence (snd z)" if "y \<in> set L" for y
    using snoc.prems that by (auto simp: sorted_wrt_append)
  show ?case
  proof (cases "affects k (snd z)")
    case True
    have top: "x = z" if "decides (set (L @ [z])) k x" for x
      using that True last[of x] by (auto simp: decides_def)
    have "decides (set (L @ [z])) k z \<longleftrightarrow> hn_type (snd z) = Put"
      using True last by (auto simp: decides_def affects_def intro: less_imp_le)
    then show ?thesis using True top by (cases z) (auto simp: replay_step_at)
  next
    case False
    have "decides (set (L @ [z])) k x \<longleftrightarrow> decides (set L) k x" for x
      using False by (auto simp: decides_def affects_def data_type_def)
    then show ?thesis using False IH replay_step_at[of z "fold replay_step L Map.empty" k] by simp
  qed
qed

lemma pick_mem: "pick h hs \<in> set (h # hs)"
  unfolding pick_def by (induction hs arbitrary: h) auto

lemma pick_max: "x \<in> set (h # hs) \<Longrightarrow> hn_sequence x \<le> hn_sequence (pick h hs)"
  unfolding pick_def
proof (induction hs arbitrary: h x)
  case (Cons y hs)
  let ?h = "if hn_sequence y > hn_sequence h then y else h"
  have "hn_sequence ?h \<le> hn_sequence (foldl (\<lambda>c h. if hn_sequence h > hn_sequence c then h else c) ?h hs)"
    using Cons.IH[of ?h ?h] by simp
  moreover have "hn_sequence y \<le> hn_sequence ?h" "hn_sequence h \<le> hn_sequence ?h" by auto
  ultimately show ?case using Cons.IH[of x ?h] Cons.prems by (auto intro: order_trans)
qed simp

lemma match_above:
  assumes "(f, h) \<in> set (entries_of fs)" and "data_type (hn_type h)" and "hn_key h = k"
  obtains w where "w \<in> set (matches fs k)" "snd w = f" "hn_sequence h \<le> hn_sequence (fst w)"
proof -
  from assms(1) obtain hes where f: "(f, hes) \<in> set fs" "h \<in> set hes" by (auto simp: entries_of_def)
  then have "h \<in> set (filter (\<lambda>h. hn_key h = k) (data hes))" using assms(2,3) by (simp add: data_def)
  then obtain x xs where flt: "filter (\<lambda>h. hn_key h = k) (data hes) = x # xs"
    by (cases "filter (\<lambda>h. hn_key h = k) (data hes)") auto
  then have "hn_sequence h \<le> hn_sequence (pick x xs)"
    using pick_max[of h x xs] \<open>h \<in> set (filter _ _)\<close> by simp
  moreover have "(pick x xs, f) \<in> set (matches fs k)"
    using f flt by (auto simp: matches_def file_match_def intro!: bexI[of _ "(f, hes)"])
  ultimately show thesis using that by auto
qed

lemma match_entry_of: "w \<in> set (matches fs k) \<Longrightarrow> (snd w, fst w) \<in> set (entries_of fs)"
proof -
  assume "w \<in> set (matches fs k)"
  from match_entry_in[OF this] obtain f where "f \<in> set fs" "fst w \<in> set (snd f)" "snd w = fst f" by blast
  moreover obtain a hes where "f = (a, hes)" by fastforce
  ultimately show ?thesis by (force simp: entries_of_def)
qed

lemma suppressed_entries:
  "suppressed (all_ranges fs) k n \<longleftrightarrow>
    (\<exists>y \<in> set (entries_of fs). hn_type (snd y) = RangeDel \<and> hn_key (snd y) \<le> k \<and> k < hn_end_key (snd y) \<and> n < hn_sequence (snd y))"
  unfolding suppressed_def list_ex_iff all_ranges_def entries_of_def
  by (fastforce simp: ranges_of_def covers_def not_less)

lemma entries_inj:
  assumes "hints_ok fs" and "x \<in> set (entries_of fs)" and "y \<in> set (entries_of fs)"
    and "hn_sequence (snd x) = hn_sequence (snd y)"
  shows "x = y"
proof -
  from assms(2,3) obtain f g where f: "f \<in> set fs" "fst x = fst f" "snd x \<in> set (snd f)"
    and g: "g \<in> set fs" "fst y = fst g" "snd y \<in> set (snd g)" by (auto simp: entries_of_def)
  have "distinct (map hn_sequence (concat (map snd fs)))" using assms(1) by (simp add: hints_ok_def)
  from distinct_concat_owner[OF this f(1) g(1) f(3) g(3) assms(4)] show ?thesis
    using f g by (simp add: prod_eq_iff)
qed

lemma recovered_decides:
  assumes ok: "hints_ok fs"
  shows "recovered fs k = Some e \<longleftrightarrow> (\<exists>x. decides (set (entries_of fs)) k x \<and> e = match_kde (snd x, fst x))"
proof -
  have "(\<exists>w \<in> set (matches fs k). (\<forall>x \<in> set (matches fs k). hn_sequence (fst x) \<le> hn_sequence (fst w)) \<and>
      hn_type (fst w) = Put \<and> \<not> suppressed (all_ranges fs) k (hn_sequence (fst w)) \<and> e = match_kde w) \<longleftrightarrow>
    (\<exists>x. decides (set (entries_of fs)) k x \<and> e = match_kde (snd x, fst x))" (is "?L \<longleftrightarrow> ?R")
  proof
    assume ?L
    then obtain w where w: "w \<in> set (matches fs k)" "\<forall>x \<in> set (matches fs k). hn_sequence (fst x) \<le> hn_sequence (fst w)"
      "hn_type (fst w) = Put" "\<not> suppressed (all_ranges fs) k (hn_sequence (fst w))" "e = match_kde w" by blast
    have key: "hn_key (fst w) = k" using match_entry_in[OF w(1)] by blast
    have "hn_sequence (snd y) \<le> hn_sequence (fst w)" if y: "y \<in> set (entries_of fs)" "affects k (snd y)" for y
    proof (cases "hn_type (snd y) = RangeDel")
      case True
      then show ?thesis using w(4) y by (auto simp: suppressed_entries affects_def data_type_def)
    next
      case False
      then have "data_type (hn_type (snd y))" "hn_key (snd y) = k" using y(2) by (auto simp: affects_def)
      moreover have "(fst y, snd y) \<in> set (entries_of fs)" using y(1) by simp
      ultimately obtain v where "v \<in> set (matches fs k)" "hn_sequence (snd y) \<le> hn_sequence (fst v)"
        using match_above by blast
      then show ?thesis using w(2) order_trans by blast
    qed
    then have "decides (set (entries_of fs)) k (snd w, fst w)"
      using match_entry_of[OF w(1)] w(3) key by (simp add: decides_def)
    then show ?R using w(5) by (intro exI[of _ "(snd w, fst w)"]) simp
  next
    assume ?R
    then obtain f h where x: "decides (set (entries_of fs)) k (f, h)" "e = match_kde (h, f)" by auto
    have put: "data_type (hn_type h)" "hn_key h = k" "(f, h) \<in> set (entries_of fs)"
      using x(1) by (auto simp: decides_def data_type_def)
    from match_above[OF put(3,1,2)] obtain w where w: "w \<in> set (matches fs k)" "hn_sequence h \<le> hn_sequence (fst w)" by blast
    have top: "hn_sequence (fst v) \<le> hn_sequence h" if "v \<in> set (matches fs k)" for v
    proof -
      have "affects k (fst v)" using match_entry_in[OF that] by (auto simp: affects_def)
      then show ?thesis using x(1) match_entry_of[OF that] by (auto simp: decides_def)
    qed
    have "(snd w, fst w) = (f, h)"
      using entries_inj[OF ok match_entry_of[OF w(1)] put(3)] top[OF w(1)] w(2) by simp
    then have weq: "w = (h, f)" by auto
    have "\<not> suppressed (all_ranges fs) k (hn_sequence h)"
      using x(1) unfolding suppressed_entries by (fastforce simp: decides_def affects_def)
    then show ?L using w(1) top x weq by (intro bexI[of _ w]) (auto simp: decides_def simp del: split_paired_All)
  qed
  then show ?thesis unfolding recovered_def decide_Some_iff[OF matches_inj[OF ok]] .
qed

lemma sort_key_ascending:
  assumes "distinct (map f xs)"
  shows "sorted_wrt (<) (map f (sort_key f xs))"
proof -
  have "mset (map f (sort_key f xs)) = mset (map f xs)" by simp
  then have "distinct (map f (sort_key f xs))" using assms mset_eq_imp_distinct_iff by blast
  then show ?thesis by (simp add: strict_sorted_iff)
qed

lemma entries_sequences: "map (hn_sequence \<circ> snd) (entries_of fs) = map hn_sequence (concat (map snd fs))"
  by (induction fs) (auto simp: entries_of_def)

lemma recovered_replay:
  assumes ok: "hints_ok fs"
  shows "recovered fs k = replay fs k"
proof (rule option_ext)
  fix e
  have "sorted_wrt (<) (map (hn_sequence \<circ> snd) (sort_key (hn_sequence \<circ> snd) (entries_of fs)))"
    using ok by (intro sort_key_ascending) (simp only: entries_sequences hints_ok_def)
  from fold_replay[OF this] show "recovered fs k = Some e \<longleftrightarrow> replay fs k = Some e"
    by (simp add: recovered_decides[OF ok] replay_def)
qed

section \<open>The order of the files\<close>

lemma hints_ok_perm: "mset fs = mset gs \<Longrightarrow> hints_ok fs \<Longrightarrow> hints_ok gs"
proof -
  assume eq: "mset fs = mset gs" and ok: "hints_ok fs"
  have "mset (map fst fs) = mset (map fst gs)" using eq by simp
  then have ids: "distinct (map fst gs)" using ok mset_eq_imp_distinct_iff by (metis hints_ok_def)
  have "mset (concat (map snd fs)) = mset (concat (map snd gs))"
    using eq unfolding mset_concat by (simp flip: sum_mset_sum_list add: image_mset.compositionality)
  then have "mset (map hn_sequence (concat (map snd fs))) = mset (map hn_sequence (concat (map snd gs)))" by simp
  then have "distinct (map hn_sequence (concat (map snd gs)))" using ok mset_eq_imp_distinct_iff by (metis hints_ok_def)
  then show ?thesis using ids ok mset_eq_setD[OF eq] by (simp add: hints_ok_def)
qed

lemma recovered_perm:
  assumes "mset fs = mset gs" and "hints_ok fs"
  shows "recovered fs k = recovered gs k"
proof (rule option_ext)
  have "set (entries_of fs) = set (entries_of gs)" using mset_eq_setD[OF assms(1)] by (auto simp: entries_of_def)
  then show "recovered fs k = Some e \<longleftrightarrow> recovered gs k = Some e" for e
    by (simp add: recovered_decides assms hints_ok_perm[OF assms])
qed

lemma sort_key_perm:
  assumes "set xs = set ys" and "distinct (map f xs)" and "distinct (map f ys)"
  shows "sort_key f xs = sort_key f ys"
proof (rule map_sorted_distinct_set_unique)
  show "inj_on f (set (sort_key f xs) \<union> set (sort_key f ys))" using assms by (simp add: distinct_map)
  show "distinct (map f (sort_key f xs))" "distinct (map f (sort_key f ys))"
    using sort_key_ascending assms by (auto simp: strict_sorted_iff)
qed (use assms(1) in auto)

lemma markers_distinct:
  assumes "hints_ok fs"
  shows "distinct (map since_sequence (concat (map (\<lambda>f. markers_of (snd f)) fs)))"
proof -
  have "map since_sequence (concat (map (\<lambda>f. markers_of (snd f)) gs)) =
      map hn_sequence (filter (\<lambda>h. hn_type h = ChangeMarker) (concat (map snd gs)))" for gs :: hint_files
    by (induction gs) (auto simp: markers_of_def)
  then show ?thesis using assms by (simp add: hints_ok_def distinct_map_filter)
qed

lemma markers_perm:
  assumes "mset fs = mset gs" and "hints_ok fs"
  shows "sorted_markers (concat (map (\<lambda>f. markers_of (snd f)) fs)) = sorted_markers (concat (map (\<lambda>f. markers_of (snd f)) gs))"
proof -
  have set: "set (concat (map (\<lambda>f. markers_of (snd f)) fs)) = set (concat (map (\<lambda>f. markers_of (snd f)) gs))"
    using mset_eq_setD[OF assms(1)] by simp
  then have "concat (map (\<lambda>f. markers_of (snd f)) fs) = [] \<longleftrightarrow> concat (map (\<lambda>f. markers_of (snd f)) gs) = []"
    by (metis set_empty)
  then show ?thesis
    using sort_key_perm[OF set markers_distinct[OF assms(2)] markers_distinct[OF hints_ok_perm[OF assms]]]
    by (simp add: sorted_markers_def)
qed

lemma loaded_perm:
  assumes eq: "mset fs = mset gs" and ok: "hints_ok fs"
  shows "loaded size_of fs s s' \<longleftrightarrow> loaded size_of gs s s'"
proof -
  have "distinct (map fst fs)" "distinct (map fst gs)" using ok hints_ok_perm[OF eq ok] by (auto simp: hints_ok_def)
  then have files: "map_of fs f = map_of gs f" for f
    using mset_eq_setD[OF eq] by (metis map_of_eqI map_of_inject_set set_map)
  have "set (concat (map snd fs)) = set (concat (map snd gs))" using mset_eq_setD[OF eq] by simp
  then have "max_hint_seq fs = max_hint_seq gs" unfolding max_hint_seq_def by (rule fold_max_perm)
  then show ?thesis
    unfolding loaded_def using files recovered_perm[OF eq ok] markers_perm[OF eq ok] by simp
qed

text \<open>What a load leaves is unique, up to the order in which the statistics of the files are kept.\<close>

lemma loaded_unique:
  assumes "loaded size_of fs s s1" and "loaded size_of fs s s2"
  shows "key_dir s1 = key_dir s2" and "fs_get (file_stats s1) = fs_get (file_stats s2)"
    and "s2 = s1\<lparr>file_stats := file_stats s2\<rparr>"
proof -
  show kd: "key_dir s1 = key_dir s2" using assms by (intro ascending_ext) (auto simp: loaded_def)
  then show "fs_get (file_stats s1) = fs_get (file_stats s2)" using assms by (auto simp: loaded_def)
  have "s1 = s\<lparr>key_dir := key_dir s1, next_seq := max_hint_seq fs + 1, file_stats := file_stats s1,
      change_markers := sorted_markers (concat (map (\<lambda>f. markers_of (snd f)) fs))\<rparr>"
    "s2 = s\<lparr>key_dir := key_dir s2, next_seq := max_hint_seq fs + 1, file_stats := file_stats s2,
      change_markers := sorted_markers (concat (map (\<lambda>f. markers_of (snd f)) fs))\<rparr>"
    using assms unfolding loaded_def by blast+
  then show "s2 = s1\<lparr>file_stats := file_stats s2\<rparr>"
    using kd by (cases s; cases s1; cases s2) auto
qed

end
