(* ===== verification/RecoveryOpen.thy ===== *)
theory RecoveryOpen
  imports RecoveryReplay
begin

text \<open>
  The two load paths on a directory whose hint files are in place: with any number of threads, any
  separators of the trees and any layout of the hint frames, both give the state that replaying the
  hint entries in sequence order gives.
\<close>

section \<open>Reading the hint files\<close>

definition hints_of :: "db \<Rightarrow> RecoveredFile list \<Rightarrow> hint_files" where
  "hints_of d rfs = map (\<lambda>rf. (rf_file_id rf, the (map_of (hints d) (path_stem (rf_data_file rf))))) rfs"

definition hints_present :: "db \<Rightarrow> RecoveredFile list \<Rightarrow> bool" where
  "hints_present d rfs \<longleftrightarrow> (\<forall>rf \<in> set rfs. map_of (hints d) (path_stem (rf_data_file rf)) \<noteq> None)"

definition recovered_size :: "RecoveredFile list \<Rightarrow> nat \<Rightarrow> nat" where
  "recovered_size rfs f = (case map_of (map (\<lambda>rf. (rf_file_id rf, rf_total_bytes rf)) rfs) f of None \<Rightarrow> 0 | Some n \<Rightarrow> n)"

lemma io_point_quiet: "faults d = [] \<Longrightarrow> io_point d = (Inr (), d)"
  by (simp add: io_point_def next_fault_def io_bind_def io_ret_def)

lemma open_hint_quiet:
  assumes "faults d = []" and "map_of (hints d) (path_stem p) = Some hes"
  shows "open_hint_or_skip b p strict d = (Inr (Some hes), d)"
  using assms
  by (simp add: open_hint_or_skip_def open_hint_or_rebuild_def hint_open_for_read_def io_try_def io_bind_def
      io_point_quiet io_run)

lemma open_cursors_quiet:
  assumes "faults d = []" and "hints_present d rfs"
  shows "open_cursors b strict rfs m d = (Inr (read_heads (hints_of d rfs) m), d)"
  using assms(2)
proof (induction rfs arbitrary: m)
  case (Cons rf rfs)
  then obtain hes where h: "map_of (hints d) (path_stem (rf_data_file rf)) = Some hes"
    by (auto simp: hints_present_def)
  show ?case
    using Cons open_hint_quiet[OF assms(1) h, of b strict] h assms(1)
    by (simp add: io_bind_run io_point_quiet hints_of_def hints_present_def io_run split: prod.split)
qed (simp add: hints_of_def io_run)

lemma part_notes_sizes:
  "part_notes f fs r \<Longrightarrow> (\<And>x. x \<in> fst ` set fs \<Longrightarrow> f x = g x) \<Longrightarrow> part_notes g fs r"
  by (force simp: part_notes_def)

lemma build_sorted_quiet:
  assumes "faults d = []" and "hints_present d rfs" and "hints_ok (hints_of d rfs)"
  shows "\<exists>r. recovery_build_sorted b strict rfs d = (Inr r, d) \<and> part_of (hints_of d rfs) r \<and>
    part_notes (recovered_size rfs) (hints_of d rfs) r"
proof -
  obtain cs m where rh: "read_heads (hints_of d rfs) (merge_start rfs) = (cs, m)" by fastforce
  have "map fst (hints_of d rfs) = map rf_file_id rfs" by (simp add: hints_of_def)
  from worker_part[OF assms(3) this rh] obtain r where
    "merge_cursors cs m = Inr r" "part_of (hints_of d rfs) r" "part_notes (recovered_size rfs) (hints_of d rfs) r"
    unfolding recovered_size_def by blast
  then show ?thesis
    using open_cursors_quiet[OF assms(1,2), of b strict "merge_start rfs"] rh
    by (simp add: recovery_build_sorted_def io_bind_run io_run)
qed

section \<open>The workers\<close>

lemma run_all_quiet:
  assumes "\<And>i. i \<in> set xs \<Longrightarrow> body i d = (Inr (r i), d)"
  shows "run_all body xs d = (Inr (map (\<lambda>i. Inr (r i)) xs), d)"
  using assms by (induction xs) (simp_all add: io_bind_def io_attempt_def io_run)

lemma rmap_id: "rmap id (map (\<lambda>i. Inr (r i)) xs) = Inr (map r xs)"
  by (induction xs) simp_all

lemma parallel_quiet:
  assumes "\<And>i. i < n \<Longrightarrow> body i d = (Inr (r i), d)"
  shows "recovery_parallel_for n body d = (Inr (map r [0..<n]), d)"
  using run_all_quiet[of "[0..<n]" body d r] assms
  by (simp add: recovery_parallel_for_def io_bind_run io_run rmap_id)

lemma filter_classes:
  assumes "\<forall>x \<in> set xs. g x < (W :: nat)"
  shows "mset (concat (map (\<lambda>i. filter (\<lambda>x. g x = i) xs) [0..<W])) = mset xs"
  using assms
proof (induction xs)
  case (Cons x xs)
  let ?c = "\<lambda>ys. mset (concat (map (\<lambda>i. filter (\<lambda>x. g x = i) ys) [0..<W]))"
  have sum: "?c ys = (\<Sum>i<W. mset (filter (\<lambda>x. g x = i) ys))" for ys
    by (simp add: mset_concat comp_def sum_list_distinct_conv_sum_set atLeast0LessThan)
  have "?c (x # xs) = (\<Sum>i<W. (if g x = i then {#x#} else {#}) + mset (filter (\<lambda>x. g x = i) xs))"
    unfolding sum by (intro sum.cong) auto
  also have "\<dots> = {#x#} + ?c xs" unfolding sum sum.distrib using Cons.prems by simp
  finally show ?case using Cons by simp
qed simp

lemma worker_files_split:
  assumes "0 < W"
  shows "mset (concat (map (worker_files W rfs) [0..<W])) = mset rfs"
proof -
  have "concat (map (worker_files W rfs) [0..<W]) =
      map snd (concat (map (\<lambda>i. filter (\<lambda>x. fst x mod W = i) (enumerate 0 rfs)) [0..<W]))"
    by (simp add: worker_files_def[abs_def] map_concat comp_def case_prod_unfold)
  moreover have "mset (concat (map (\<lambda>i. filter (\<lambda>x. fst x mod W = i) (enumerate 0 rfs)) [0..<W])) = mset (enumerate 0 rfs)"
    using assms by (intro filter_classes) simp
  ultimately show ?thesis by (metis map_snd_enumerate mset_map)
qed

lemma recovered_size_part:
  assumes "distinct (map rf_file_id rfs)" and "set part \<subseteq> set rfs" and "distinct (map rf_file_id part)"
    and "f \<in> rf_file_id ` set part"
  shows "recovered_size part f = recovered_size rfs f"
proof -
  from assms(4) obtain rf where rf: "rf \<in> set part" "f = rf_file_id rf" by auto
  have "map_of (map (\<lambda>rf. (rf_file_id rf, rf_total_bytes rf)) xs) f = Some (rf_total_bytes rf)"
    if "rf \<in> set xs" "distinct (map rf_file_id xs)" for xs
    using that rf(2) by (intro map_of_is_SomeI) (auto simp: comp_def)
  then show ?thesis using rf assms by (auto simp: recovered_size_def)
qed

lemma ranged_quiet:
  assumes quiet: "faults d = []" and present: "hints_present d rfs" and ok: "hints_ok (hints_of d rfs)"
    and "0 < threads" and "rfs \<noteq> []"
  shows "\<exists>s' d'. recovery_load_ranged b sep threads strict s rfs d = (Inr s', d') \<and>
    loaded (recovered_size rfs) (hints_of d rfs) s s'"
proof -
  let ?W = "min (length rfs) threads"
  have W: "0 < ?W" using assms(4,5) by simp
  let ?wf = "worker_files ?W rfs"
  let ?fss = "map (\<lambda>i. hints_of d (?wf i)) [0..<?W]"
  have flat: "concat ?fss = hints_of d (concat (map ?wf [0..<?W]))"
    by (simp add: hints_of_def map_concat comp_def)
  have perm: "mset (concat ?fss) = mset (hints_of d rfs)"
    unfolding flat by (simp only: hints_of_def mset_map worker_files_split[OF W])
  have okc: "hints_ok (concat ?fss)" using hints_ok_perm[OF perm[symmetric] ok] .
  have part: "set (?wf i) \<subseteq> set rfs" for i
    by (auto simp: worker_files_def in_set_enumerate_eq)
  have dist: "distinct (map rf_file_id rfs)" using ok by (simp add: hints_ok_def hints_of_def comp_def)
  have "\<exists>r. recovery_build_sorted b strict (?wf i) d = (Inr r, d) \<and> part_of (hints_of d (?wf i)) r \<and>
      part_notes (recovered_size rfs) (hints_of d (?wf i)) r" if i: "i < ?W" for i
  proof -
    have oki: "hints_ok (hints_of d (?wf i))" using hints_ok_part[OF okc] i by auto
    have "hints_present d (?wf i)" using present part[of i] by (auto simp: hints_present_def)
    from build_sorted_quiet[OF quiet this oki] obtain r where
      r: "recovery_build_sorted b strict (?wf i) d = (Inr r, d)" "part_of (hints_of d (?wf i)) r"
        "part_notes (recovered_size (?wf i)) (hints_of d (?wf i)) r" by blast
    have "distinct (map rf_file_id (?wf i))" using oki by (simp add: hints_ok_def hints_of_def comp_def)
    then have "part_notes (recovered_size rfs) (hints_of d (?wf i)) r"
      using recovered_size_part[OF dist part] by (intro part_notes_sizes[OF r(3)]) (auto simp: hints_of_def image_image)
    then show ?thesis using r by blast
  qed
  then obtain r where r: "\<And>i. i < ?W \<Longrightarrow> recovery_build_sorted b strict (?wf i) d = (Inr (r i), d) \<and>
      part_of (hints_of d (?wf i)) (r i) \<and> part_notes (recovered_size rfs) (hints_of d (?wf i)) (r i)" by metis
  let ?rs = "map r [0..<?W]"
  have par: "recovery_parallel_for ?W (\<lambda>i. recovery_build_sorted b strict (?wf i)) d = (Inr ?rs, d)"
    using r by (intro parallel_quiet) blast
  have "parts_of ?fss ?rs" "list_all2 (part_notes (recovered_size rfs)) ?fss ?rs"
    using r by (auto simp: parts_of_def list_all2_conv_all_nth)
  from merge_parts_correct[OF okc this, of sep ?W s] obtain s' needed where
    "merge_parts sep ?W ?rs s = Inr (s', needed)" "loaded (recovered_size rfs) (concat ?fss) s s'" by blast
  then show ?thesis
    using par assms(5) loaded_perm[OF perm okc]
    by (simp add: recovery_load_ranged_def Let_def io_bind_run io_run)
qed

section \<open>The streams\<close>

definition scan_of :: "(RecoveredFile \<Rightarrow> hint_pos) \<Rightarrow> db \<Rightarrow> RecoveredFile \<Rightarrow> FileRun result" where
  "scan_of pos d rf =
    (let hes = the (map_of (hints d) (path_stem (rf_data_file rf)))
     in scan_hints (pos rf) (rf_file_id rf) hes 0 \<lparr>fsc_in_data = False, fsc_next_fence = (0, 0), fsc_prev = None\<rparr>
          ((run_start rf)\<lparr>fr_hint := Some hes\<rparr>))"

lemma scan_of_ok:
  assumes "sorted_hints (the (map_of (hints d) (path_stem (rf_data_file rf))))"
  defines "f \<equiv> (rf_file_id rf, the (map_of (hints d) (path_stem (rf_data_file rf))))"
  shows "\<exists>run. scan_of pos d rf = Inr run \<and> run_of f run \<and> scanned (fst f) (snd f)
    \<lparr>fr_hint = Some (snd f), fr_data_start = 0, fr_fences = [], fr_ranges = [],
     fr_stats = FileStats_empty\<lparr>total_bytes := word_of_nat (rf_total_bytes rf)\<rparr>, fr_max_seq = 0, fr_markers = []\<rparr> run"
proof -
  let ?st = "\<lparr>fsc_in_data = False, fsc_next_fence = (0, 0), fsc_prev = None\<rparr>"
  let ?r0 = "(run_start rf)\<lparr>fr_hint := Some (snd f)\<rparr>"
  have "\<not> fsc_in_data ?st" by simp
  from scan_file_ok[OF assms(1) this, of "pos rf" "rf_file_id rf" 0 ?r0] obtain run fs where
    run: "scan_hints (pos rf) (rf_file_id rf) (snd f) 0 ?st ?r0 = Inr run" "scanned (rf_file_id rf) (snd f) ?r0 run"
      "fr_data_start run = length (hint_head (snd f))" "fr_fences run = fr_fences ?r0 @ fs"
      "fences_in (hint_run (snd f)) (length (hint_head (snd f))) fs"
    unfolding f_def by auto
  have r0: "?r0 = \<lparr>fr_hint = Some (snd f), fr_data_start = 0, fr_fences = [], fr_ranges = [],
     fr_stats = FileStats_empty\<lparr>total_bytes := word_of_nat (rf_total_bytes rf)\<rparr>, fr_max_seq = 0, fr_markers = []\<rparr>"
    by (simp add: run_start_def)
  have "run_of f run" using run assms(1) by (simp add: run_of_def f_def scanned_def run_start_def)
  moreover have "scan_of pos d rf = Inr run" using run(1) by (simp add: scan_of_def f_def Let_def)
  ultimately show ?thesis using run(2) unfolding r0 by (simp add: f_def)
qed

lemma scan_files_quiet:
  assumes "faults d = []" and "\<forall>(i, rf) \<in> set xs. map_of (hints d) (path_stem (rf_data_file rf)) \<noteq> None \<and> scan_of pos d rf = Inr (R rf)"
  shows "scan_files b pos strict xs d = (Inr (map (\<lambda>(i, rf). (i, R rf)) xs), d)"
  using assms(2)
proof (induction xs)
  case (Cons x xs)
  obtain i rf where x: "x = (i, rf)" by fastforce
  obtain hes where h: "map_of (hints d) (path_stem (rf_data_file rf)) = Some hes" using Cons.prems x by auto
  have "scan_file b pos strict rf d = (Inr (R rf), d)"
    using open_hint_quiet[OF assms(1) h, of b strict] Cons.prems x h assms(1)
    by (simp add: scan_file_def io_bind_run io_point_quiet io_run scan_of_def Let_def)
  then show ?case using Cons x by (simp add: io_bind_run io_run)
qed (simp add: io_run)

lemma map_of_function:
  "(\<forall>(i, x) \<in> set xs. x = h i) \<Longrightarrow> i \<in> fst ` set xs \<Longrightarrow> map_of xs i = Some (h i)"
  by (induction xs) auto

lemma streams_quiet:
  assumes quiet: "faults d = []" and present: "hints_present d rfs" and ok: "hints_ok (hints_of d rfs)"
    and "0 < threads" and "rfs \<noteq> []"
  shows "\<exists>s' d'. recovery_load_streams b pos threads strict s rfs d = (Inr s', d') \<and>
    loaded (recovered_size rfs) (hints_of d rfs) s s'"
proof -
  let ?W = "min (length rfs) threads"
  have W: "0 < ?W" using assms(4,5) by simp
  have dist: "distinct (map rf_file_id rfs)" using ok by (simp add: hints_ok_def hints_of_def comp_def)
  let ?f = "\<lambda>rf. (rf_file_id rf, the (map_of (hints d) (path_stem (rf_data_file rf))))"
  let ?start = "\<lambda>rf. \<lparr>fr_hint = Some (snd (?f rf)), fr_data_start = 0, fr_fences = [], fr_ranges = [],
     fr_stats = FileStats_empty\<lparr>total_bytes := word_of_nat (rf_total_bytes rf)\<rparr>, fr_max_seq = 0, fr_markers = []\<rparr>"
  have srt: "sorted_hints (snd (?f rf))" if "rf \<in> set rfs" for rf
    using ok that by (auto simp: hints_ok_def hints_of_def)
  have "\<forall>rf \<in> set rfs. \<exists>run. scan_of pos d rf = Inr run \<and> run_of (?f rf) run \<and>
      scanned (fst (?f rf)) (snd (?f rf)) (?start rf) run"
    using scan_of_ok srt by simp
  then obtain R where R: "\<And>rf. rf \<in> set rfs \<Longrightarrow> scan_of pos d rf = Inr (R rf) \<and> run_of (?f rf) (R rf) \<and>
      scanned (fst (?f rf)) (snd (?f rf)) (?start rf) (R rf)" by metis
  let ?part = "\<lambda>w. filter (\<lambda>(j, rf). j mod ?W = w) (enumerate 0 rfs)"
  let ?out = "\<lambda>w. map (\<lambda>(i, rf). (i, R rf)) (?part w)"
  have "scan_worker b pos strict ?W rfs w d = (Inr (?out w), d)" for w
    unfolding scan_worker_def using R present
    by (intro scan_files_quiet[OF quiet]) (auto simp: hints_present_def in_set_enumerate_eq)
  then have par: "recovery_parallel_for ?W (scan_worker b pos strict ?W rfs) d = (Inr (map ?out [0..<?W]), d)"
    by (intro parallel_quiet) blast
  have at: "map_of (concat (map ?out [0..<?W])) i = Some (R (rfs ! i))" if i: "i < length rfs" for i
  proof (rule map_of_function[where h = "\<lambda>i. R (rfs ! i)"])
    show "\<forall>(i, x) \<in> set (concat (map ?out [0..<?W])). x = R (rfs ! i)"
      by (auto simp: in_set_enumerate_eq)
    have "(i, R (rfs ! i)) \<in> set (?out (i mod ?W))"
      using i by (force simp: in_set_enumerate_eq image_iff)
    moreover have "i mod ?W < ?W" using W by (rule mod_less_divisor)
    ultimately show "i \<in> fst ` set (concat (map ?out [0..<?W]))" by (force simp: image_iff)
  qed
  have runs: "map (\<lambda>i. the (map_of (concat (map ?out [0..<?W])) i)) [0..<length rfs] = map R rfs"
    by (rule nth_equalityI) (simp_all add: at)
  have size: "recovered_size rfs (rf_file_id rf) = rf_total_bytes rf" if "rf \<in> set rfs" for rf
  proof -
    have "map_of (map (\<lambda>rf. (rf_file_id rf, rf_total_bytes rf)) rfs) (rf_file_id rf) = Some (rf_total_bytes rf)"
      using that dist by (intro map_of_is_SomeI) (auto simp: comp_def)
    then show ?thesis by (simp add: recovered_size_def)
  qed
  have "runs_of (recovered_size rfs) (hints_of d rfs) rfs (map R rfs)"
    using R size unfolding runs_of_def hints_of_def by (auto simp: list_all2_conv_all_nth comp_def)
  from merge_streams_correct[OF ok this, of ?W s] obtain s' needed where
    "merge_streams ?W rfs (map R rfs) s = Inr (s', needed)" "loaded (recovered_size rfs) (hints_of d rfs) s s'" by blast
  then show ?thesis
    using par runs assms(5) by (simp add: recovery_load_streams_def Let_def io_bind_run io_run)
qed

section \<open>Both paths\<close>

lemma load_quiet:
  assumes "faults d = []" and "hints_present d rfs" and "hints_ok (hints_of d rfs)"
    and "0 < recovery_threads o1" and "rfs \<noteq> []"
  shows "\<exists>s' d'. recovery_load b lay o1 s rfs d = (Inr s', d') \<and> loaded (recovered_size rfs) (hints_of d rfs) s s'"
  unfolding recovery_load_def using ranged_quiet[OF assms] streams_quiet[OF assms] by auto

text \<open>
  C12. Loading hint files that are in place is replaying their entries: for every build, thread
  count, tree and frame layout, the load succeeds, and a key's entry in the loaded key directory is
  what putting, deleting and range-deleting in sequence order, over the entries of all files, leaves
  for it. The next sequence is one above the newest entry, the live bytes of every file are the
  bytes the key directory points at in it.
\<close>

theorem recovery_load_replay:
  assumes "faults d = []" and "hints_present d rfs" and "hints_ok (hints_of d rfs)"
    and "0 < recovery_threads o1" and "rfs \<noteq> []"
  shows "\<exists>s' d'. recovery_load b lay o1 s rfs d = (Inr s', d') \<and>
    kd_sorted (key_dir s') \<and> kd_get (key_dir s') = replay (hints_of d rfs) \<and>
    next_seq s' = fold (\<lambda>x. max (hn_sequence (snd x))) (entries_of (hints_of d rfs)) 0 + 1 \<and> live_inv s'"
proof -
  from load_quiet[OF assms] obtain s' d' where
    l: "recovery_load b lay o1 s rfs d = (Inr s', d')" "loaded (recovered_size rfs) (hints_of d rfs) s s'" by blast
  have "fold (\<lambda>x. max (hn_sequence (snd x))) (entries_of fs) a = fold (\<lambda>h. max (hn_sequence h)) (concat (map snd fs)) a"
    for fs and a :: nat
    by (induction fs arbitrary: a) (auto simp: entries_of_def fold_map comp_def)
  moreover have "next_seq s' = max_hint_seq (hints_of d rfs) + 1"
    using l(2) unfolding loaded_def by (metis EngineState.select_convs(6) EngineState.surjective EngineState.update_convs(1,3,6,13))
  ultimately show ?thesis
    using l recovered_replay[OF assms(3)]
    by (auto simp: loaded_def kd_sorted_def kd_get_def live_inv_def max_hint_seq_def)
qed

text \<open>Two files: the second deletes a range of the first and adds a key.\<close>

definition demo_hint :: "nat \<Rightarrow> EntryType \<Rightarrow> nat \<Rightarrow> key \<Rightarrow> key \<Rightarrow> HintEntry" where
  "demo_hint n t off k e = \<lparr>hn_sequence = n, hn_type = t, hn_file_offset = off, hn_key = k, hn_value_size = 0,
     hn_end_key = e, hn_marker_id = 0\<rparr>"

definition demo_file :: disk_file where
  "demo_file = \<lparr>f_bytes = replicate 40 0, f_size = 40, f_zeroed = 0, f_capacity = 0, f_synced = 40, f_tainted = False\<rparr>"

definition demo_disk :: db where
  "demo_disk = \<lparr>dir = [(''a.data'', demo_file), (''b.data'', demo_file)],
     hints = [(''a'', [demo_hint 1 Put 0 [1] [], demo_hint 2 Put 20 [2] []]),
              (''b'', [demo_hint 3 RangeDel 0 [2] [4], demo_hint 4 Put 20 [3] []])],
     faults = [], stem_at = (\<lambda>n. replicate (n + 2) CHR ''c''), minted = 0, published = EngineState_new, head = EngineState_new,
     write_fault = False, flush_error = None, worker = [], rotation_threshold = 0, max_hint_backlog = 0,
     size_limits = \<lparr>max_key_bytes = 16, max_value_bytes = 16\<rparr>, scratch_bytes = 0,
     needed_tombstones = \<lparr>horizon = 0, needed_sequences = []\<rparr>\<rparr>"

definition demo_files :: "RecoveredFile list" where
  "demo_files = [\<lparr>rf_file_id = 0, rf_data_file = ''a.data'', rf_total_bytes = 40\<rparr>,
     \<lparr>rf_file_id = 1, rf_data_file = ''b.data'', rf_total_bytes = 40\<rparr>]"

definition demo_options :: "nat \<Rightarrow> Options" where
  "demo_options threads = \<lparr>max_file_bytes = 64, recovery_threads = threads, fail_recovery_on_crc_errors = True,
     initial_mode = Leader, opt_max_key_bytes = 16, opt_max_value_bytes = 16, opt_max_hint_backlog = 0,
     thread_scratch_bytes = 262144, buffer_pool_bytes = None\<rparr>"

definition demo_layout :: load_layout where
  "demo_layout = \<lparr>lay_separators = (\<lambda>kd n. map fst kd), lay_positions = (\<lambda>rf i. (0, 4096 * i))\<rparr>"

lemma demo_hints: "hints_of demo_disk demo_files =
    [(0, [demo_hint 1 Put 0 [1] [], demo_hint 2 Put 20 [2] []]),
     (1, [demo_hint 3 RangeDel 0 [2] [4], demo_hint 4 Put 20 [3] []])]"
  by (simp add: hints_of_def demo_disk_def demo_files_def path_stem_def)

lemma demo_ready:
  "faults demo_disk = []" "hints_present demo_disk demo_files" "hints_ok (hints_of demo_disk demo_files)" "demo_files \<noteq> []"
proof -
  show "hints_ok (hints_of demo_disk demo_files)"
    unfolding demo_hints
    by (simp add: hints_ok_def sorted_hints_def hint_head_def hint_run_def data_type_def hint_fits_def demo_hint_def)
qed (simp_all add: demo_disk_def demo_files_def hints_present_def path_stem_def)

theorem recovery_load_replay_witness:
  "faults demo_disk = [] \<and> hints_present demo_disk demo_files \<and> hints_ok (hints_of demo_disk demo_files) \<and>
   (\<exists>s' d'. recovery_load demo_build demo_layout (demo_options 2) EngineState_new demo_files demo_disk = (Inr s', d') \<and>
     kd_get (key_dir s') [1] = Some (kde_pack 1 0 0 0) \<and> kd_get (key_dir s') [2] = None \<and>
     kd_get (key_dir s') [3] = Some (kde_pack 4 20 1 0) \<and> next_seq s' = 5)"
proof -
  have t: "0 < recovery_threads (demo_options 2)" by (simp add: demo_options_def)
  have r: "replay (hints_of demo_disk demo_files) [1] = Some (kde_pack 1 0 0 0)"
    "replay (hints_of demo_disk demo_files) [2] = None" "replay (hints_of demo_disk demo_files) [3] = Some (kde_pack 4 20 1 0)"
    "fold (\<lambda>x. max (hn_sequence (snd x))) (entries_of (hints_of demo_disk demo_files)) 0 = 4"
    unfolding demo_hints
    by (simp_all add: replay_def entries_of_def replay_step_def demo_hint_def match_kde_def)
  show ?thesis
    using recovery_load_replay[OF demo_ready(1-3) t demo_ready(4), of demo_build demo_layout EngineState_new] demo_ready r
    by auto
qed

text \<open>
  C13. The two load paths agree: the range-partitioned merge of trees and the merge of hint streams,
  each with any number of threads and any layout, leave the same state, the statistics of every file
  included.
\<close>

theorem recovery_load_agree:
  assumes "faults d = []" and "hints_present d rfs" and "hints_ok (hints_of d rfs)"
    and "0 < recovery_threads o1" and "0 < recovery_threads o2" and "rfs \<noteq> []"
  shows "\<exists>s1 d1 s2 d2. recovery_load_ranged b1 sep (recovery_threads o1) strict1 s rfs d = (Inr s1, d1) \<and>
    recovery_load_streams b2 pos (recovery_threads o2) strict2 s rfs d = (Inr s2, d2) \<and>
    fs_get (file_stats s1) = fs_get (file_stats s2) \<and> s2 = s1\<lparr>file_stats := file_stats s2\<rparr>"
proof -
  from ranged_quiet[OF assms(1-4,6)] obtain s1 d1 where
    "recovery_load_ranged b1 sep (recovery_threads o1) strict1 s rfs d = (Inr s1, d1)"
    and l1: "loaded (recovered_size rfs) (hints_of d rfs) s s1" by blast
  moreover from streams_quiet[OF assms(1-3,5,6)] obtain s2 d2 where
    "recovery_load_streams b2 pos (recovery_threads o2) strict2 s rfs d = (Inr s2, d2)"
    and l2: "loaded (recovered_size rfs) (hints_of d rfs) s s2" by blast
  ultimately show ?thesis using loaded_unique(2,3)[OF l1 l2] by blast
qed

theorem recovery_load_agree_witness:
  "hints_ok (hints_of demo_disk demo_files) \<and>
   (\<exists>s1 d1 s2 d2. recovery_load_ranged demo_build (lay_separators demo_layout) 1 True EngineState_new demo_files demo_disk = (Inr s1, d1) \<and>
     recovery_load_streams demo_build (lay_positions demo_layout) 2 True EngineState_new demo_files demo_disk = (Inr s2, d2) \<and>
     key_dir s1 = key_dir s2)"
proof -
  have t: "0 < recovery_threads (demo_options 1)" "0 < recovery_threads (demo_options 2)" by (simp_all add: demo_options_def)
  have n: "recovery_threads (demo_options 1) = 1" "recovery_threads (demo_options 2) = 2" by (simp_all add: demo_options_def)
  from recovery_load_agree[OF demo_ready(1-3) t demo_ready(4), of demo_build "lay_separators demo_layout" True EngineState_new
      demo_build "lay_positions demo_layout" True, unfolded n]
  obtain s1 d1 s2 d2 where
    "recovery_load_ranged demo_build (lay_separators demo_layout) 1 True EngineState_new demo_files demo_disk = (Inr s1, d1)"
    "recovery_load_streams demo_build (lay_positions demo_layout) 2 True EngineState_new demo_files demo_disk = (Inr s2, d2)"
    "s2 = s1\<lparr>file_stats := file_stats s2\<rparr>" by blast
  moreover from this(3) have "key_dir s1 = key_dir s2" by (metis EngineState.select_convs(1) EngineState.surjective EngineState.update_convs(3))
  ultimately show ?thesis using demo_ready(3) by blast
qed

end
