(* ===== verification/Explorer.thy ===== *)
theory Explorer
  imports Prelude
begin

text \<open>
  The exhaustive state explorer of \<^verbatim>\<open>verify/transition/explorer.h\<close>: the packing of a state into a key,
  the depth-first walk over the interleavings, and what a clean report means. A protocol is a
  \<^term>\<open>Model\<close>; the locale \<^verbatim>\<open>protocol\<close> is the contract under which a model has no violation, no hang and
  no endless run, whatever its size.
\<close>

unbundle bit_operations_syntax

section \<open>Packing a state\<close>

type_synonym Key = "u64 \<times> u64"

record KeyBuilder =
  kb_wide :: "128 word"
  kb_pos :: nat

definition kb_empty :: KeyBuilder where
  "kb_empty = \<lparr>kb_wide = 0, kb_pos = 0\<rparr>"

text \<open>A shift by 128 bits or more, undefined in the source, gives 0 here; packings within 128 bits never reach it.\<close>

definition kb_put :: "nat \<Rightarrow> nat \<Rightarrow> KeyBuilder \<Rightarrow> KeyBuilder" where
  "kb_put v bits k = k\<lparr>kb_wide := kb_wide k OR push_bit (kb_pos k) (word_of_nat v), kb_pos := kb_pos k + bits\<rparr>"

definition kb_done :: "KeyBuilder \<Rightarrow> Key" where
  "kb_done k = (ucast (kb_wide k), ucast (drop_bit 64 (kb_wide k)))"

definition kb_pack :: "(nat \<times> nat) list \<Rightarrow> KeyBuilder" where
  "kb_pack fds = fold (\<lambda>(v, bits). kb_put v bits) fds kb_empty"

definition fits :: "(nat \<times> nat) list \<Rightarrow> bool" where
  "fits fds \<longleftrightarrow> (\<forall>(v, bits) \<in> set fds. v < 2 ^ bits) \<and> sum_list (map snd fds) \<le> 128"

lemma kb_pack_snoc: "kb_pack (fds @ [(v, bits)]) = kb_put v bits (kb_pack fds)"
  by (simp add: kb_pack_def)

lemma kb_pack_pos: "kb_pos (kb_pack fds) = sum_list (map snd fds)"
  by (induction fds rule: rev_induct) (auto simp: kb_pack_snoc kb_put_def, simp add: kb_pack_def kb_empty_def)

lemma kb_pack_bit:
  assumes "fits fds"
  shows "bit (kb_wide (kb_pack fds)) n \<Longrightarrow> n < sum_list (map snd fds)"
  using assms
proof (induction fds arbitrary: n rule: rev_induct)
  case Nil
  then show ?case by (simp add: kb_pack_def kb_empty_def)
next
  case (snoc x fds)
  obtain v b where x: "x = (v, b)" by fastforce
  have fit: "fits fds" "v < 2 ^ b" using snoc.prems(2) x by (auto simp: fits_def)
  have "bit (kb_wide (kb_pack fds)) n \<or> kb_pos (kb_pack fds) \<le> n \<and> bit v (n - kb_pos (kb_pack fds))"
    using snoc.prems(1) by (auto simp: x kb_pack_snoc kb_put_def bit_simps)
  moreover have "m < b" if "bit v m" for m
    using that bit_of_nat_beyond[OF fit(2), of m] by (meson not_less)
  ultimately have "n < sum_list (map snd fds) \<or> sum_list (map snd fds) \<le> n \<and> n - sum_list (map snd fds) < b"
    using snoc.IH[OF _ fit(1), of n] by (auto simp: kb_pack_pos)
  then show ?case using x by auto
qed

lemma kb_unpack:
  assumes "fits (fds @ [(v, b)])"
  defines "w \<equiv> kb_wide (kb_pack (fds @ [(v, b)]))" and "n \<equiv> sum_list (map snd fds)"
  shows "take_bit n w = kb_wide (kb_pack fds)" and "unat (drop_bit n w) = v"
proof -
  have fit: "fits fds" "v < 2 ^ b" "n + b \<le> 128" using assms(1) by (auto simp: fits_def n_def)
  have w: "w = kb_wide (kb_pack fds) OR push_bit n (word_of_nat v)"
    by (simp add: w_def kb_pack_snoc kb_put_def kb_pack_pos n_def)
  have low: "bit (kb_wide (kb_pack fds)) m \<Longrightarrow> m < n" for m
    using kb_pack_bit[OF fit(1)] by (simp add: n_def)
  show "take_bit n w = kb_wide (kb_pack fds)"
    by (rule bit_word_eqI) (use low in \<open>auto simp: w bit_simps\<close>)
  have "v < 2 ^ 128"
    using fit(2) power_increasing[of b 128 "2 :: nat"] fit(3) by linarith
  moreover have "drop_bit n w = word_of_nat v"
  proof (rule bit_word_eqI)
    fix m
    assume m: "m < LENGTH(128)"
    have "bit v m \<Longrightarrow> m < b" using bit_of_nat_beyond[OF fit(2), of m] by (meson not_less)
    then show "bit (drop_bit n w) m \<longleftrightarrow> bit (word_of_nat v :: 128 word) m"
      using low[of "n + m"] fit(3) m by (auto simp: w bit_simps)
  qed
  ultimately show "unat (drop_bit n w) = v" by (simp add: unat_of_nat)
qed

text \<open>Fields that fit are packed without loss.\<close>

lemma kb_pack_inj:
  assumes "kb_wide (kb_pack fs) = kb_wide (kb_pack gs)" and "map snd fs = map snd gs" and "fits fs" and "fits gs"
  shows "fs = gs"
  using assms
proof (induction fs arbitrary: gs rule: rev_induct)
  case (snoc x fs)
  obtain v b where x: "x = (v, b)" by fastforce
  obtain gs' y where gs: "gs = gs' @ [y]" using snoc.prems(2) by (cases gs rule: rev_cases) auto
  obtain u where y: "y = (u, b)" using snoc.prems(2) x gs by (cases y) auto
  have fit: "fits (fs @ [(v, b)])" "fits (gs' @ [(u, b)])" using snoc.prems(3,4) x y gs by auto
  have "fits fs" "fits gs'" using fit by (auto simp: fits_def)
  moreover have "kb_wide (kb_pack fs) = kb_wide (kb_pack gs')" "v = u"
    using kb_unpack[OF fit(1)] kb_unpack[OF fit(2)] snoc.prems(1,2) x y gs by auto
  ultimately show ?case using snoc.IH[of gs'] snoc.prems(2) x y gs by auto
qed simp

lemma kb_done_inj: "kb_done k = kb_done l \<Longrightarrow> kb_wide k = kb_wide l"
proof -
  assume eq: "kb_done k = kb_done l"
  show ?thesis
  proof (rule bit_word_eqI)
    fix n
    assume n: "n < LENGTH(128)"
    show "bit (kb_wide k) n = bit (kb_wide l) n"
    proof (cases "n < 64")
      case True
      have "bit (ucast (kb_wide k) :: u64) n = bit (ucast (kb_wide l) :: u64) n" using eq by (simp add: kb_done_def)
      then show ?thesis using True by (simp add: bit_simps)
    next
      case False
      have "bit (ucast (drop_bit 64 (kb_wide k)) :: u64) (n - 64) = bit (ucast (drop_bit 64 (kb_wide l)) :: u64) (n - 64)"
        using eq by (simp add: kb_done_def)
      moreover have "n - 64 < 64" using n by simp
      ultimately show ?thesis using False by (simp add: bit_simps)
    qed
  qed
qed

text \<open>A key of at most 64 bits as one number, which is how a run of the explorer is evaluated.\<close>

primrec kb_value :: "(nat \<times> nat) list \<Rightarrow> int" where
  "kb_value [] = 0"
| "kb_value (x # fds) = int (fst x) + 2 ^ snd x * kb_value fds"

lemma kb_value_snoc: "kb_value (fds @ [(v, b)]) = kb_value fds + 2 ^ sum_list (map snd fds) * int v"
  by (induction fds) (auto simp: algebra_simps power_add)

lemma kb_value_word: "fits fds \<Longrightarrow> kb_wide (kb_pack fds) = word_of_int (kb_value fds)"
proof (induction fds rule: rev_induct)
  case Nil
  then show ?case by (simp add: kb_pack_def kb_empty_def)
next
  case (snoc x fds)
  obtain v b where x: "x = (v, b)" by fastforce
  have fit: "fits fds" using snoc.prems by (auto simp: fits_def)
  let ?n = "sum_list (map snd fds)"
  have "kb_wide (kb_pack (fds @ [x])) = kb_wide (kb_pack fds) OR push_bit ?n (word_of_nat v)"
    by (simp add: x kb_pack_snoc kb_put_def kb_pack_pos)
  also have "\<dots> = kb_wide (kb_pack fds) + push_bit ?n (word_of_nat v)"
    by (rule disjunctive_add[symmetric]) (auto simp: bit_simps dest!: kb_pack_bit[OF fit])
  also have "\<dots> = word_of_int (kb_value (fds @ [x]))"
    using snoc.IH[OF fit] by (simp add: x kb_value_snoc push_bit_eq_mult)
  finally show ?case .
qed

lemma kb_done_value:
  assumes "fits fds" and "sum_list (map snd fds) \<le> 64"
  shows "kb_done (kb_pack fds) = (word_of_int (kb_value fds), 0)"
proof -
  have "drop_bit 64 (kb_wide (kb_pack fds)) = 0"
    by (rule bit_word_eqI) (use assms(2) in \<open>auto simp: bit_simps dest!: kb_pack_bit[OF assms(1)]\<close>)
  moreover have "ucast (kb_wide (kb_pack fds)) = (word_of_int (kb_value fds) :: u64)"
    by (rule bit_word_eqI) (simp add: kb_value_word[OF assms(1)] bit_simps)
  ultimately show ?thesis by (simp add: kb_done_def)
qed

definition packed :: "(nat \<times> nat) list \<Rightarrow> Key" where
  "packed fds = kb_done (kb_pack fds)"

lemma packed_code [code]:
  "packed fds = (if list_all (\<lambda>(v, b). v < 2 ^ b) fds \<and> sum_list (map snd fds) \<le> 64
     then (word_of_int (kb_value fds), 0) else kb_done (kb_pack fds))"
  using kb_done_value[of fds] by (auto simp: packed_def fits_def list_all_iff)

section \<open>Names of steps\<close>

fun to_string :: "nat \<Rightarrow> string" where
  "to_string n = (if n < 10 then [char_of (48 + n)] else to_string (n div 10) @ [char_of (48 + n mod 10)])"

declare to_string.simps [simp del]

definition writer_label :: "nat \<Rightarrow> string \<Rightarrow> string" where
  "writer_label i nm = ''w'' @ to_string i @ ''.'' @ nm"

section \<open>The explore_walk\<close>

record ('s, 't) Model =
  Enabled :: "'s \<Rightarrow> 't list"
  Apply :: "'s \<Rightarrow> 't \<Rightarrow> 's"
  Check :: "'s \<Rightarrow> string option"
  Done :: "'s \<Rightarrow> bool"
  Label :: "'s \<Rightarrow> 't \<Rightarrow> string"
  KeyOf :: "'s \<Rightarrow> Key"

record ExploreOptions =
  state_limit :: nat
  depth_limit :: nat

definition default_options :: ExploreOptions where
  "default_options = \<lparr>state_limit = 20000000, depth_limit = 400\<rparr>"

record Explored =
  clean :: bool
  failure :: string
  trace :: "string list"
  states :: nat
  completions :: nat
  truncated :: bool

definition Explored_start :: Explored where
  "Explored_start = \<lparr>clean = True, failure = [], trace = [], states = 0, completions = 0, truncated = False\<rparr>"

definition explore_fail :: "string \<Rightarrow> string list \<Rightarrow> Explored \<Rightarrow> Explored" where
  "explore_fail why path r = r\<lparr>clean := False, failure := why, trace := path\<rparr>"

type_synonym walk_state = "Key list \<times> Explored"

text \<open>
  \<^term>\<open>walk_steps\<close> is the loop over the enabled steps, \<^term>\<open>go\<close> the recursive call. The set of keys seen is a
  list without repetitions, the last one inserted first. The third argument of \<^term>\<open>explore_walk\<close> is the depth left.
\<close>

fun walk_steps ::
  "('s, 't) Model \<Rightarrow> nat \<Rightarrow> ('s \<Rightarrow> string list \<Rightarrow> walk_state \<Rightarrow> walk_state) \<Rightarrow> 's \<Rightarrow> string list \<Rightarrow> 't list \<Rightarrow>
   walk_state \<Rightarrow> walk_state" where
  "walk_steps m lim go s path [] st = st"
| "walk_steps m lim go s path (t # ts) (seen, r) =
    (let nxt = Apply m s t; k = KeyOf m nxt in
     if k \<in> set seen then walk_steps m lim go s path ts (seen, r)
     else if length seen + 1 > lim then (k # seen, explore_fail ''state limit reached'' path r)
     else let st = go nxt (path @ [Label m s t]) (k # seen, r)
          in if \<not> clean (snd st) then st else walk_steps m lim go s path ts st)"

definition walk_state ::
  "('s, 't) Model \<Rightarrow> nat \<Rightarrow> ('s \<Rightarrow> string list \<Rightarrow> walk_state \<Rightarrow> walk_state) option \<Rightarrow> 's \<Rightarrow> string list \<Rightarrow> walk_state \<Rightarrow> walk_state" where
  "walk_state m lim go s path st =
    (let r = snd st in
     if \<not> clean r then st
     else case Check m s of
       Some why \<Rightarrow> (fst st, explore_fail why path r)
     | None \<Rightarrow>
         if Done m s then (fst st, r\<lparr>completions := completions r + 1\<rparr>)
         else if Enabled m s = []
         then (fst st, explore_fail ''hang: no action is enabled while a writer has not returned'' path r)
         else case go of
           None \<Rightarrow> (fst st, r\<lparr>truncated := True\<rparr>)
         | Some f \<Rightarrow> walk_steps m lim f s path (Enabled m s) st)"

primrec explore_walk :: "('s, 't) Model \<Rightarrow> nat \<Rightarrow> nat \<Rightarrow> 's \<Rightarrow> string list \<Rightarrow> walk_state \<Rightarrow> walk_state" where
  "explore_walk m lim 0 = walk_state m lim None"
| "explore_walk m lim (Suc n) = walk_state m lim (Some (explore_walk m lim n))"

definition Explore :: "('s, 't) Model \<Rightarrow> 's \<Rightarrow> ExploreOptions \<Rightarrow> Explored" where
  "Explore m init opt =
    (case explore_walk m (state_limit opt) (depth_limit opt) init [] ([KeyOf m init], Explored_start) of
       (seen, r) \<Rightarrow> r\<lparr>states := length seen\<rparr>)"

text \<open>A run that met neither limit is the run under any larger limits.\<close>

definition unlimited :: "walk_state \<Rightarrow> bool" where
  "unlimited st \<longleftrightarrow> \<not> truncated (snd st) \<and> (clean (snd st) \<or> failure (snd st) \<noteq> ''state limit reached'')"

lemma walk_steps_truncated:
  assumes "\<And>x path st. truncated (snd st) \<Longrightarrow> truncated (snd (go x path st))" and "truncated (snd st)"
  shows "truncated (snd (walk_steps m lim go s path ts st))"
  using assms(2)
proof (induction ts arbitrary: st)
  case (Cons t ts)
  obtain seen r where st: "st = (seen, r)" by fastforce
  let ?st1 = "go (Apply m s t) (path @ [Label m s t]) (KeyOf m (Apply m s t) # seen, r)"
  have "truncated (snd ?st1)" using assms(1) Cons.prems st by simp
  from this Cons.IH[OF this] Cons.IH[OF Cons.prems] show ?case
    using Cons.prems st by (simp add: Let_def explore_fail_def)
qed simp

lemma walk_truncated: "truncated (snd st) \<Longrightarrow> truncated (snd (explore_walk m lim d s path st))"
proof (induction d arbitrary: s path st)
  case (Suc d)
  then show ?case using walk_steps_truncated[of "explore_walk m lim d" st]
    by (auto simp: walk_state_def Let_def explore_fail_def split: option.splits)
qed (auto simp: walk_state_def Let_def explore_fail_def split: option.splits)

lemma walk_steps_mono:
  assumes go: "\<And>x path st. unlimited (go x path st) \<Longrightarrow> go' x path st = go x path st"
    and tr: "\<And>x path st. truncated (snd st) \<Longrightarrow> truncated (snd (go x path st))"
    and "unlimited (walk_steps m lim go s path ts st)" and "lim \<le> lim'"
  shows "walk_steps m lim' go' s path ts st = walk_steps m lim go s path ts st"
  using assms(3)
proof (induction ts arbitrary: st)
  case (Cons t ts)
  obtain seen r where st: "st = (seen, r)" by fastforce
  let ?k = "KeyOf m (Apply m s t)"
  show ?case
  proof (cases "?k \<in> set seen")
    case True
    then show ?thesis using Cons st by (simp add: Let_def)
  next
    case False
    let ?st1 = "go (Apply m s t) (path @ [Label m s t]) (?k # seen, r)"
    have lim: "\<not> length seen + 1 > lim"
      using Cons.prems False st by (auto simp: Let_def unlimited_def explore_fail_def split: if_splits)
    have un: "unlimited ?st1"
    proof (cases "clean (snd ?st1)")
      case True
      then have "unlimited (walk_steps m lim go s path ts ?st1)" using Cons.prems False st lim by (simp add: Let_def)
      then show ?thesis using True walk_steps_truncated[of go ?st1 m lim s path ts, OF tr] by (auto simp: unlimited_def)
    next
      case False
      then show ?thesis using Cons.prems \<open>?k \<notin> set seen\<close> st lim by (simp add: Let_def)
    qed
    then show ?thesis
      using go[OF un] Cons.IH[of ?st1] Cons.prems False st lim assms(4) by (auto simp: Let_def)
  qed
qed simp

lemma walk_mono:
  assumes "unlimited (explore_walk m lim d s path st)" and "lim \<le> lim'" and "d \<le> d'"
  shows "explore_walk m lim' d' s path st = explore_walk m lim d s path st"
  using assms(1,3)
proof (induction d arbitrary: s path st d')
  case 0
  then show ?case
    by (cases d') (auto simp: walk_state_def Let_def unlimited_def explore_fail_def split: if_splits option.splits)
next
  case (Suc d)
  obtain e where e: "d' = Suc e" "d \<le> e" using Suc.prems(2) by (cases d') auto
  have "walk_steps m lim' (explore_walk m lim' e) s path ts st = walk_steps m lim (explore_walk m lim d) s path ts st"
    if "unlimited (walk_steps m lim (explore_walk m lim d) s path ts st)" for ts
    using walk_steps_mono[OF Suc.IH[OF _ e(2)] walk_truncated that assms(2)] .
  then show ?case using Suc.prems(1) unfolding e(1)
    by (auto simp: walk_state_def Let_def split: if_splits option.splits)
qed

section \<open>What a clean report means\<close>

text \<open>The states the walk can come to: it does not step on from a state that is done.\<close>

inductive reach :: "('s, 't) Model \<Rightarrow> 's \<Rightarrow> 's \<Rightarrow> bool" for m init where
  start: "reach m init init"
| step: "reach m init s \<Longrightarrow> \<not> Done m s \<Longrightarrow> t \<in> set (Enabled m s) \<Longrightarrow> reach m init (Apply m s t)"

definition state_good :: "('s, 't) Model \<Rightarrow> 's \<Rightarrow> bool" where
  "state_good m s \<longleftrightarrow> Check m s = None \<and> (Done m s \<or> Enabled m s \<noteq> [])"

definition exact_keys :: "('s, 't) Model \<Rightarrow> 's \<Rightarrow> bool" where
  "exact_keys m init \<longleftrightarrow> (\<forall>s s'. reach m init s \<longrightarrow> reach m init s' \<longrightarrow> KeyOf m s = KeyOf m s' \<longrightarrow> s = s')"

definition settled :: "('s, 't) Model \<Rightarrow> Key set \<Rightarrow> 's \<Rightarrow> bool" where
  "settled m K s \<longleftrightarrow> state_good m s \<and> (Done m s \<or> (\<forall>t \<in> set (Enabled m s). KeyOf m (Apply m s t) \<in> K))"

definition covers_new :: "('s, 't) Model \<Rightarrow> 's \<Rightarrow> walk_state \<Rightarrow> walk_state \<Rightarrow> bool" where
  "covers_new m init st st' \<longleftrightarrow> set (fst st) \<subseteq> set (fst st') \<and> clean (snd st) \<and> \<not> truncated (snd st) \<and>
     (\<forall>x. reach m init x \<longrightarrow> KeyOf m x \<in> set (fst st') - set (fst st) \<longrightarrow> settled m (set (fst st')) x)"

lemma settled_mono: "settled m K s \<Longrightarrow> K \<subseteq> K' \<Longrightarrow> settled m K' s"
  by (auto simp: settled_def)

lemma covers_new_trans:
  assumes "covers_new m init a b" and "covers_new m init b c"
  shows "covers_new m init a c"
  using assms unfolding covers_new_def by (meson DiffD1 DiffD2 DiffI settled_mono subset_trans)

definition finished :: "walk_state \<Rightarrow> bool" where
  "finished st \<longleftrightarrow> clean (snd st) \<and> \<not> truncated (snd st)"

lemma walk_steps_covers:
  assumes go: "\<And>x path st st'. reach m init x \<Longrightarrow> KeyOf m x \<in> set (fst st) \<Longrightarrow> go x path st = st' \<Longrightarrow> finished st' \<Longrightarrow>
      covers_new m init st st' \<and> settled m (set (fst st')) x"
    and keys: "exact_keys m init"
    and s: "reach m init s" "\<not> Done m s" "set ts \<subseteq> set (Enabled m s)"
    and run: "walk_steps m lim go s path ts st = st'" "finished st'"
  shows "covers_new m init st st' \<and> (\<forall>t \<in> set ts. KeyOf m (Apply m s t) \<in> set (fst st'))"
  using s(3) run(1)
proof (induction ts arbitrary: st)
  case Nil
  then show ?case using run(2) by (auto simp: covers_new_def finished_def)
next
  case (Cons t ts)
  obtain seen r where st: "st = (seen, r)" by fastforce
  let ?n = "Apply m s t" and ?k = "KeyOf m (Apply m s t)"
  have rn: "reach m init ?n" using s(1,2) Cons.prems(1) by (auto intro: reach.step)
  show ?case
  proof (cases "?k \<in> set seen")
    case True
    then have "walk_steps m lim go s path ts st = st'" using Cons.prems(2) st by (simp add: Let_def)
    with Cons.IH[OF _ this] Cons.prems(1) True st show ?thesis by (auto simp: covers_new_def)
  next
    case False
    let ?st1 = "go ?n (path @ [Label m s t]) (?k # seen, r)"
    have lim: "\<not> length seen + 1 > lim" using Cons.prems(2) run(2) False st
      by (auto simp: Let_def finished_def explore_fail_def split: if_splits)
    have cl: "clean (snd ?st1)" using Cons.prems(2) run(2) False st lim
      by (auto simp: Let_def finished_def split: if_splits)
    then have rest: "walk_steps m lim go s path ts ?st1 = st'" using Cons.prems(2) False st lim by (simp add: Let_def)
    from Cons.IH[OF _ rest] Cons.prems(1) have IH: "covers_new m init ?st1 st'"
      "\<forall>t \<in> set ts. KeyOf m (Apply m s t) \<in> set (fst st')" by auto
    have "finished ?st1" using IH(1) by (simp add: covers_new_def finished_def)
    from go[OF rn _ refl this] have c1: "covers_new m init (?k # seen, r) ?st1" "settled m (set (fst ?st1)) ?n" by auto
    have "covers_new m init st ?st1"
      unfolding covers_new_def
    proof (intro conjI allI impI)
      fix x
      assume x: "reach m init x" "KeyOf m x \<in> set (fst ?st1) - set (fst st)"
      show "settled m (set (fst ?st1)) x"
      proof (cases "KeyOf m x = ?k")
        case True
        then have "x = ?n" using keys x(1) rn by (auto simp: exact_keys_def)
        then show ?thesis using c1(2) by simp
      next
        case False
        then show ?thesis using c1(1) x st by (auto simp: covers_new_def)
      qed
    qed (use c1(1) st in \<open>auto simp: covers_new_def\<close>)
    moreover have "?k \<in> set (fst st')" using c1(1) IH(1) by (auto simp: covers_new_def)
    ultimately show ?thesis using IH(2) covers_new_trans[OF _ IH(1)] by simp
  qed
qed

lemma walk_covers:
  assumes keys: "exact_keys m init" and "reach m init s" and "KeyOf m s \<in> set (fst st)"
    and "explore_walk m lim n s path st = st'" and "finished st'"
  shows "covers_new m init st st' \<and> settled m (set (fst st')) s"
  using assms(2-)
proof (induction n arbitrary: s path st st')
  case 0
  have "clean (snd st)" using 0(3,4) by (auto simp: walk_state_def Let_def finished_def split: if_splits)
  then show ?case using 0(3,4)
    by (auto simp: walk_state_def Let_def finished_def explore_fail_def covers_new_def settled_def state_good_def
        split: if_splits option.splits)
next
  case (Suc n)
  have cl: "clean (snd st)" using Suc.prems(3,4) by (auto simp: walk_state_def Let_def finished_def split: if_splits)
  have ok: "Check m s = None" "Done m s \<or> Enabled m s \<noteq> []"
    using Suc.prems(3,4) cl by (auto simp: walk_state_def Let_def finished_def explore_fail_def split: if_splits option.splits)
  show ?case
  proof (cases "Done m s")
    case True
    then show ?thesis using Suc.prems(3,4) cl ok
      by (auto simp: walk_state_def Let_def finished_def covers_new_def settled_def state_good_def)
  next
    case False
    then have "walk_steps m lim (explore_walk m lim n) s path (Enabled m s) st = st'"
      using Suc.prems(3) cl ok by (simp add: walk_state_def Let_def)
    from walk_steps_covers[OF _ keys Suc.prems(1) False subset_refl this Suc.prems(4)] Suc.IH
    have "covers_new m init st st' \<and> (\<forall>t \<in> set (Enabled m s). KeyOf m (Apply m s t) \<in> set (fst st'))" by blast
    then show ?thesis using ok by (auto simp: settled_def state_good_def)
  qed
qed

lemma Explore_sound:
  assumes keys: "exact_keys m init" and clean: "clean (Explore m init opt)" "\<not> truncated (Explore m init opt)"
    and "reach m init s"
  shows "state_good m s"
proof -
  let ?st = "([KeyOf m init], Explored_start)"
  obtain seen r where w: "explore_walk m (state_limit opt) (depth_limit opt) init [] ?st = (seen, r)" by (meson surj_pair)
  define st' where "st' = (seen, r)"
  have fin: "finished st'" using clean by (simp add: Explore_def w finished_def st'_def)
  have "KeyOf m init \<in> set (fst ?st)" by simp
  from walk_covers[OF keys reach.start this w[folded st'_def] fin]
  have cov: "covers_new m init ?st st'" "settled m (set (fst st')) init" by blast+
  have all: "settled m (set (fst st')) x" if "reach m init x" "KeyOf m x \<in> set (fst st')" for x
  proof (cases "KeyOf m x = KeyOf m init")
    case True
    then have "x = init" using keys that(1) reach.start[of m init] unfolding exact_keys_def by blast
    then show ?thesis using cov(2) by simp
  next
    case False
    then show ?thesis using cov(1) that by (auto simp: covers_new_def)
  qed
  have "KeyOf m s \<in> set (fst st')" using assms(4)
  proof (induction rule: reach.induct)
    case start
    then show ?case using cov(1) by (auto simp: covers_new_def)
  next
    case (step s t)
    then show ?case using all[OF step(1)] by (auto simp: settled_def)
  qed
  then show ?thesis using all[OF assms(4)] by (simp add: settled_def)
qed

section \<open>The contract of a protocol\<close>

inductive steps :: "('s, 't) Model \<Rightarrow> 's \<Rightarrow> nat \<Rightarrow> 's \<Rightarrow> bool" for m where
  none: "steps m s 0 s"
| more: "steps m s n s' \<Longrightarrow> t \<in> set (Enabled m s') \<Longrightarrow> steps m s (Suc n) (Apply m s' t)"

lemma steps_front: "steps m (Apply m s t) k s' \<Longrightarrow> t \<in> set (Enabled m s) \<Longrightarrow> steps m s (Suc k) s'"
proof (induction "Apply m s t" k s' rule: steps.induct)
  case none
  then show ?case using steps.more[OF steps.none, of t m s] by simp
next
  case (more k s' u)
  then show ?case using steps.more[of m s "Suc k" s' u] by simp
qed

text \<open>A run given by its steps.\<close>

primrec run_steps :: "('s, 't) Model \<Rightarrow> 's \<Rightarrow> 't list \<Rightarrow> 's option" where
  "run_steps m s [] = Some s"
| "run_steps m s (t # ts) = (if t \<in> set (Enabled m s) then run_steps m (Apply m s t) ts else None)"

lemma run_steps_steps: "run_steps m s ts = Some s' \<Longrightarrow> steps m s (length ts) s'"
  by (induction ts arbitrary: s) (auto intro: steps.none steps_front split: if_splits)

lemma reach_steps: "reach m init s \<Longrightarrow> \<exists>k. steps m init k s"
  by (induction rule: reach.induct) (auto intro: steps.intros)

definition good_outcome :: "walk_state \<Rightarrow> bool" where
  "good_outcome st \<longleftrightarrow> finished st \<or> \<not> clean (snd st) \<and> failure (snd st) = ''state limit reached''"

text \<open>
  An invariant that implies the check, a step in every state that is not done, and a number that
  every step lowers.
\<close>

locale protocol =
  fixes m :: "('s, 't) Model" and init :: 's and inv :: "'s \<Rightarrow> bool" and rank :: "'s \<Rightarrow> nat"
  assumes inv_init: "inv init"
    and inv_step: "inv s \<Longrightarrow> t \<in> set (Enabled m s) \<Longrightarrow> inv (Apply m s t)"
    and inv_check: "inv s \<Longrightarrow> Check m s = None"
    and no_hang: "inv s \<Longrightarrow> \<not> Done m s \<Longrightarrow> Enabled m s \<noteq> []"
    and rank_step: "inv s \<Longrightarrow> t \<in> set (Enabled m s) \<Longrightarrow> rank (Apply m s t) < rank s"
begin

lemma steps_inv: "steps m s n s' \<Longrightarrow> inv s \<Longrightarrow> inv s'"
  by (induction rule: steps.induct) (auto simp: inv_step)

lemma steps_bounded: "steps m s n s' \<Longrightarrow> inv s \<Longrightarrow> n + rank s' \<le> rank s"
proof (induction rule: steps.induct)
  case (more s n s' t)
  have "rank (Apply m s' t) < rank s'" using rank_step[OF steps_inv[OF more(1,4)] more(2)] .
  then show ?case using more by simp
qed simp

lemma good: "steps m init n s \<Longrightarrow> state_good m s"
  using steps_inv[of init n s] inv_init inv_check no_hang by (auto simp: state_good_def)

text \<open>A run that cannot be continued has ended: every writer has returned.\<close>

lemma ends: "steps m init n s \<Longrightarrow> Enabled m s = [] \<Longrightarrow> Done m s"
  using steps_inv[of init n s] inv_init no_hang by blast

lemma completes: "inv s \<Longrightarrow> \<exists>k s'. steps m s k s' \<and> Done m s'"
proof (induction "rank s" arbitrary: s rule: less_induct)
  case less
  show ?case
  proof (cases "Done m s")
    case True
    then show ?thesis using steps.none[of m s] by auto
  next
    case False
    then obtain t where t: "t \<in> set (Enabled m s)" using no_hang[OF less.prems] by (meson list.set_sel(1))
    from less.hyps[OF rank_step[OF less.prems t] inv_step[OF less.prems t]] obtain k s' where
      "steps m (Apply m s t) k s'" "Done m s'" by auto
    then show ?thesis using steps_front[of m s t k s'] t by auto
  qed
qed

lemma completable: "steps m init n s \<Longrightarrow> \<exists>k s'. steps m s k s' \<and> Done m s'"
  using completes steps_inv[of init n s] inv_init by blast

lemma bounded: "steps m init n s \<Longrightarrow> n \<le> rank init"
  using steps_bounded[of init n s] inv_init by simp

lemma walk_clean:
  assumes "inv s" and "rank s \<le> n" and "finished st"
  shows "good_outcome (explore_walk m lim n s path st)"
  using assms
proof (induction n arbitrary: s path st)
  case 0
  have "Done m s"
  proof (rule ccontr)
    assume "\<not> Done m s"
    then obtain t where "t \<in> set (Enabled m s)" using no_hang[OF 0(1)] by (meson list.set_sel(1))
    then show False using rank_step[OF 0(1)] 0(2) by fastforce
  qed
  then show ?case using 0 inv_check[OF 0(1)] by (auto simp: walk_state_def Let_def finished_def good_outcome_def)
next
  case (Suc n)
  have loop: "good_outcome (walk_steps m lim (explore_walk m lim n) s path ts st)"
    if "set ts \<subseteq> set (Enabled m s)" "finished st" for ts st
    using that
  proof (induction ts arbitrary: st)
    case Nil
    then show ?case by (simp add: good_outcome_def)
  next
    case (Cons t ts)
    obtain seen r where st: "st = (seen, r)" by fastforce
    have t: "inv (Apply m s t)" "rank (Apply m s t) \<le> n"
      using inv_step[OF Suc.prems(1)] rank_step[OF Suc.prems(1), of t] Suc.prems(2) Cons.prems(1) by auto
    let ?st1 = "explore_walk m lim n (Apply m s t) (path @ [Label m s t]) (KeyOf m (Apply m s t) # seen, r)"
    have "good_outcome ?st1" using Suc.IH[OF t] Cons.prems(2) st by (simp add: finished_def)
    then consider "\<not> clean (snd ?st1)" "good_outcome ?st1" | "clean (snd ?st1)" "finished ?st1"
      by (auto simp: good_outcome_def finished_def)
    then show ?case
    proof cases
      case 1
      then show ?thesis using Cons st
        by (auto simp: Let_def explore_fail_def) (auto simp: good_outcome_def)
    next
      case 2
      have "good_outcome (walk_steps m lim (explore_walk m lim n) s path ts ?st1)" using Cons.IH[OF _ 2(2)] Cons.prems(1) by simp
      then show ?thesis using Cons st 2(1)
        by (auto simp: Let_def explore_fail_def) (auto simp: good_outcome_def)
    qed
  qed
  show ?case
    using loop[of "Enabled m s" st] Suc.prems inv_check[OF Suc.prems(1)] no_hang[OF Suc.prems(1)]
    by (auto simp: walk_state_def Let_def good_outcome_def finished_def)
qed

text \<open>The explorer has no false alarm, and its depth limit is never met.\<close>

lemma explored:
  assumes "rank init \<le> depth_limit opt"
  shows "clean (Explore m init opt) \<and> \<not> truncated (Explore m init opt) \<or>
    failure (Explore m init opt) = ''state limit reached''"
proof -
  have "finished ([KeyOf m init], Explored_start)" by (simp add: finished_def Explored_start_def)
  from walk_clean[OF inv_init assms this, of "state_limit opt" "[]"] show ?thesis
    by (auto simp: Explore_def good_outcome_def finished_def split: prod.splits)
qed

end

section \<open>Counting over arrays of actors\<close>

lemma count_update:
  "i < length xs \<Longrightarrow> length (filter P (xs[i := x])) + of_bool (P (xs ! i)) = length (filter P xs) + of_bool (P x)"
proof -
  assume i: "i < length xs"
  have "length (filter P xs) = length (filter P (take i xs @ xs ! i # drop (Suc i) xs))"
    using id_take_nth_drop[OF i] by simp
  then show ?thesis using i by (simp add: upd_conv_take_nth_drop)
qed

lemma sum_list_update:
  "i < length xs \<Longrightarrow> sum_list (map f (xs[i := x])) + f (xs ! i) = sum_list (map f xs) + (f x :: nat)"
proof -
  assume i: "i < length xs"
  have "sum_list (map f xs) = sum_list (map f (take i xs @ xs ! i # drop (Suc i) xs))"
    using id_take_nth_drop[OF i] by simp
  then show ?thesis using i by (simp add: upd_conv_take_nth_drop)
qed


section \<open>Properties\<close>

text \<open>
  C20. A clean report is a proof: when the packing of states is exact and the report is clean and not
  truncated, every state the interleavings reach passes the check and is not stuck.
\<close>

theorem explorer_sound:
  assumes "exact_keys m init" and "clean (Explore m init opt)" and "\<not> truncated (Explore m init opt)" and "reach m init s"
  shows "Check m s = None \<and> (Done m s \<or> Enabled m s \<noteq> [])"
  using Explore_sound[OF assms] by (simp add: state_good_def)

text \<open>A counter that two steps bring to its end.\<close>

definition demo_model :: "(nat, nat) Model" where
  "demo_model = \<lparr>Enabled = (\<lambda>s. if s < 2 then [1] else []), Apply = (\<lambda>s t. s + t),
     Check = (\<lambda>s. if s > 2 then Some ''over'' else None), Done = (\<lambda>s. s = 2), Label = (\<lambda>s t. ''step''),
     KeyOf = (\<lambda>s. (word_of_nat s, 0))\<rparr>"

lemma demo_reach: "reach demo_model 0 s \<Longrightarrow> s \<le> 2"
  by (induction rule: reach.induct) (auto simp: demo_model_def split: if_splits)

lemma demo_exact: "exact_keys demo_model 0"
  unfolding exact_keys_def
proof (intro allI impI)
  fix s s'
  assume r: "reach demo_model 0 s" "reach demo_model 0 s'" and k: "KeyOf demo_model s = KeyOf demo_model s'"
  have "unat (word_of_nat s :: u64) = unat (word_of_nat s' :: u64)" using k by (simp add: demo_model_def)
  then show "s = s'" using demo_reach[OF r(1)] demo_reach[OF r(2)] by (simp add: unat_of_nat)
qed

theorem explorer_sound_witness:
  "exact_keys demo_model 0 \<and> clean (Explore demo_model 0 \<lparr>state_limit = 10, depth_limit = 5\<rparr>) \<and>
   \<not> truncated (Explore demo_model 0 \<lparr>state_limit = 10, depth_limit = 5\<rparr>) \<and> reach demo_model 0 (0 + 1 + 1) \<and>
   Check demo_model (0 + 1 + 1) = None"
proof -
  let ?r = "Explore demo_model 0 \<lparr>state_limit = 10, depth_limit = 5\<rparr>"
  have run: "clean ?r" "\<not> truncated ?r"
    by (simp_all add: Explore_def demo_model_def Explored_start_def walk_state_def Let_def numeral_eq_Suc)
  have "reach demo_model 0 (Apply demo_model (Apply demo_model 0 1) 1)"
    by (intro reach.intros) (simp_all add: demo_model_def)
  then have r: "reach demo_model 0 (0 + 1 + 1)" by (simp add: demo_model_def)
  show ?thesis using explorer_sound[OF demo_exact run r] demo_exact run r by blast
qed

end
