(* ===== verification/FlushProtocol.thy ===== *)
theory FlushProtocol
  imports Explorer
begin

text \<open>
  The \<^verbatim>\<open>fdatasync\<close> role on the commit path (\<^verbatim>\<open>verify/transition/flush_model.h\<close>): writers commit, then
  wait for a flush that covers them, take the role of running it, or park. The checker explores two
  to five writers; the theorems here hold for any number that the 8-bit sequences can count.
\<close>

section \<open>The model\<close>

datatype FlushMutant = FlushNone | RoleKeptOnThrow

datatype Fp = FpIdle | FpCheck | FpParked | FpFlushing | FpRoleEnd | FpFinished

record FlushState =
  fm_fp :: "Fp list"
  fm_target :: "nat list"
  fm_seq :: nat
  fm_published :: nat
  fm_durable :: nat
  fm_sync_requested :: nat
  fm_degraded :: bool
  fm_flush_error :: bool
  fm_role :: bool

record FlushStep =
  fs_actor :: nat
  fs_fail :: bool

definition flush_init :: "nat \<Rightarrow> FlushState" where
  "flush_init n = \<lparr>fm_fp = replicate n FpIdle, fm_target = replicate n 0, fm_seq = 0, fm_published = 0,
     fm_durable = 0, fm_sync_requested = 0, fm_degraded = False, fm_flush_error = False, fm_role = False\<rparr>"

definition flush_syncs :: "nat \<Rightarrow> nat \<Rightarrow> bool" where
  "flush_syncs n i \<longleftrightarrow> i \<noteq> n - 1"

definition flush_covered :: "nat \<Rightarrow> FlushState \<Rightarrow> nat \<Rightarrow> bool" where
  "flush_covered n s i \<longleftrightarrow>
     (if flush_syncs n i then fm_durable s \<ge> fm_target s ! i else fm_published s \<ge> fm_target s ! i)"

definition flush_enabled :: "nat \<Rightarrow> FlushState \<Rightarrow> FlushStep list" where
  "flush_enabled n s = concat (map (\<lambda>i.
     case fm_fp s ! i of
       FpIdle \<Rightarrow> [\<lparr>fs_actor = i, fs_fail = False\<rparr>]
     | FpCheck \<Rightarrow> [\<lparr>fs_actor = i, fs_fail = False\<rparr>]
     | FpFlushing \<Rightarrow> [\<lparr>fs_actor = i, fs_fail = False\<rparr>, \<lparr>fs_actor = i, fs_fail = True\<rparr>]
     | FpRoleEnd \<Rightarrow> [\<lparr>fs_actor = i, fs_fail = False\<rparr>]
     | FpParked \<Rightarrow> []
     | FpFinished \<Rightarrow> []) [0..<n])"

definition flush_label :: "FlushState \<Rightarrow> FlushStep \<Rightarrow> string" where
  "flush_label s t =
     writer_label (fs_actor t) (case fm_fp s ! fs_actor t of
        FpIdle \<Rightarrow> ''commit''
      | FpCheck \<Rightarrow> ''check''
      | FpFlushing \<Rightarrow> (if fs_fail t then ''flush(throws)'' else ''flush'')
      | FpRoleEnd \<Rightarrow> ''finish_flush''
      | _ \<Rightarrow> ''?'')"

definition set_fp :: "nat \<Rightarrow> Fp \<Rightarrow> FlushState \<Rightarrow> FlushState" where
  "set_fp i p s = s\<lparr>fm_fp := (fm_fp s)[i := p]\<rparr>"

definition flush_commit :: "nat \<Rightarrow> nat \<Rightarrow> FlushState \<Rightarrow> FlushState" where
  "flush_commit n i s =
    (let sq = (fm_seq s + 1) mod 256
     in set_fp i FpCheck (s\<lparr>fm_seq := sq, fm_target := (fm_target s)[i := sq],
          fm_sync_requested := (if flush_syncs n i \<and> sq > fm_sync_requested s then sq else fm_sync_requested s)\<rparr>))"

definition flush_check :: "nat \<Rightarrow> nat \<Rightarrow> FlushState \<Rightarrow> FlushState" where
  "flush_check n i s =
    (if flush_covered n s i then set_fp i FpFinished s
     else if fm_flush_error s \<or> fm_degraded s then set_fp i FpFinished s
     else if \<not> fm_role s then set_fp i FpFlushing (s\<lparr>fm_role := True\<rparr>)
     else set_fp i FpParked s)"

definition flush_throw :: "FlushMutant \<Rightarrow> nat \<Rightarrow> FlushState \<Rightarrow> FlushState" where
  "flush_throw mut i s =
    (if mut = RoleKeptOnThrow then set_fp i FpFinished s
     else set_fp i FpRoleEnd (s\<lparr>fm_degraded := True, fm_flush_error := True\<rparr>))"

definition flush_land :: "nat \<Rightarrow> FlushState \<Rightarrow> FlushState" where
  "flush_land i s = set_fp i FpRoleEnd
     (s\<lparr>fm_published := fm_seq s, fm_durable := (if fm_sync_requested s > fm_durable s then fm_seq s else fm_durable s)\<rparr>)"

definition flush_finish :: "nat \<Rightarrow> FlushState \<Rightarrow> FlushState" where
  "flush_finish i s = set_fp i FpFinished
     (s\<lparr>fm_role := False, fm_fp := map (\<lambda>p. if p = FpParked then FpCheck else p) (fm_fp s)\<rparr>)"

definition flush_apply :: "nat \<Rightarrow> FlushMutant \<Rightarrow> FlushState \<Rightarrow> FlushStep \<Rightarrow> FlushState" where
  "flush_apply n mut s t =
    (let i = fs_actor t in
     case fm_fp s ! i of
       FpIdle \<Rightarrow> flush_commit n i s
     | FpCheck \<Rightarrow> flush_check n i s
     | FpFlushing \<Rightarrow> (if fs_fail t then flush_throw mut i s else flush_land i s)
     | FpRoleEnd \<Rightarrow> flush_finish i s
     | _ \<Rightarrow> s)"

definition role_held :: "FlushState \<Rightarrow> bool" where
  "role_held s \<longleftrightarrow> list_ex (\<lambda>p. p = FpFlushing \<or> p = FpRoleEnd) (fm_fp s)"

definition em_dash :: string where
  "em_dash = map char_of [226, 128, 148 :: nat]"

definition flush_model_check :: "nat \<Rightarrow> FlushState \<Rightarrow> string option" where
  "flush_model_check n s =
    (if fm_role s \<noteq> role_held s
     then Some (if fm_role s
                then ''invariant: the flush role is kept '' @ em_dash @
                     '' flush_in_flight_ is set with no thread holding it, so no flush can ever cover a parked writer again''
                else ''invariant: a thread is running a flush with flush_in_flight_ clear'')
     else if list_ex (\<lambda>i. fm_fp s ! i = FpParked \<and>
            \<not> (flush_covered n s i \<or> role_held s \<or> fm_flush_error s \<or> fm_degraded s)) [0..<n]
     then Some ''invariant: a parked writer's target is uncovered, with no flush in flight, no error recorded and the engine not degraded''
     else None)"

definition flush_done :: "FlushState \<Rightarrow> bool" where
  "flush_done s \<longleftrightarrow> list_all (\<lambda>p. p = FpFinished) (fm_fp s)"

fun fp_code :: "Fp \<Rightarrow> nat" where
  "fp_code FpIdle = 0"
| "fp_code FpCheck = 1"
| "fp_code FpParked = 2"
| "fp_code FpFlushing = 3"
| "fp_code FpRoleEnd = 4"
| "fp_code FpFinished = 5"

definition flush_fields :: "FlushState \<Rightarrow> (nat \<times> nat) list" where
  "flush_fields s = map (\<lambda>p. (fp_code p, 3)) (fm_fp s) @ map (\<lambda>t. (t, 4)) (fm_target s) @
     [(fm_seq s, 4), (fm_published s, 4), (fm_durable s, 4), (fm_sync_requested s, 4),
      (of_bool (fm_degraded s), 1), (of_bool (fm_flush_error s), 1), (of_bool (fm_role s), 1)]"

definition flush_key :: "FlushState \<Rightarrow> Key" where
  "flush_key s = kb_done (kb_pack (flush_fields s))"

lemma flush_key_code [code]: "flush_key s = packed (flush_fields s)"
  by (simp add: flush_key_def packed_def)

definition FlushModel :: "nat \<Rightarrow> FlushMutant \<Rightarrow> (FlushState, FlushStep) Model" where
  "FlushModel n mut = \<lparr>Enabled = flush_enabled n, Apply = flush_apply n mut, Check = flush_model_check n,
     Done = flush_done, Label = flush_label, KeyOf = flush_key\<rparr>"

lemma FlushModel_simps [simp]:
  "Enabled (FlushModel n mut) = flush_enabled n" "Apply (FlushModel n mut) = flush_apply n mut"
  "Check (FlushModel n mut) = flush_model_check n" "Done (FlushModel n mut) = flush_done"
  "KeyOf (FlushModel n mut) = flush_key"
  by (simp_all add: FlushModel_def)

section \<open>The invariant\<close>

definition holds_role :: "Fp \<Rightarrow> bool" where
  "holds_role p \<longleftrightarrow> p = FpFlushing \<or> p = FpRoleEnd"

definition role_inv :: "nat \<Rightarrow> FlushState \<Rightarrow> bool" where
  "role_inv n s \<longleftrightarrow> length (fm_fp s) = n \<and> length (fm_target s) = n \<and>
     (if fm_role s then (\<exists>h < n. \<forall>i < n. holds_role (fm_fp s ! i) \<longleftrightarrow> i = h)
      else (\<forall>i < n. \<not> holds_role (fm_fp s ! i) \<and> fm_fp s ! i \<noteq> FpParked))"

definition idle_count :: "FlushState \<Rightarrow> nat" where
  "idle_count s = length (filter (\<lambda>p. p = FpIdle) (fm_fp s))"

definition seq_inv :: "nat \<Rightarrow> FlushState \<Rightarrow> bool" where
  "seq_inv n s \<longleftrightarrow> fm_seq s + idle_count s \<le> n \<and> fm_published s \<le> fm_seq s \<and> fm_durable s \<le> fm_seq s \<and>
     fm_sync_requested s \<le> fm_seq s \<and>
     (\<forall>i < n. fm_target s ! i \<le> fm_seq s \<and>
        (fm_fp s ! i \<noteq> FpIdle \<longrightarrow> flush_syncs n i \<longrightarrow> fm_target s ! i \<le> fm_sync_requested s))"

definition cover_inv :: "nat \<Rightarrow> FlushState \<Rightarrow> bool" where
  "cover_inv n s \<longleftrightarrow> (\<forall>i < n. fm_fp s ! i \<in> {FpRoleEnd, FpFinished} \<longrightarrow> flush_covered n s i \<or> fm_flush_error s) \<and>
     (fm_degraded s \<longrightarrow> fm_flush_error s)"

definition flush_inv :: "nat \<Rightarrow> FlushState \<Rightarrow> bool" where
  "flush_inv n s \<longleftrightarrow> role_inv n s \<and> seq_inv n s \<and> cover_inv n s"

lemma flush_enabled_iff:
  "t \<in> set (flush_enabled n s) \<longleftrightarrow> fs_actor t < n \<and> fm_fp s ! fs_actor t \<notin> {FpParked, FpFinished} \<and>
     (fs_fail t \<longrightarrow> fm_fp s ! fs_actor t = FpFlushing)"
proof -
  have "t \<in> set (case fm_fp s ! i of
       FpIdle \<Rightarrow> [\<lparr>fs_actor = i, fs_fail = False\<rparr>]
     | FpCheck \<Rightarrow> [\<lparr>fs_actor = i, fs_fail = False\<rparr>]
     | FpFlushing \<Rightarrow> [\<lparr>fs_actor = i, fs_fail = False\<rparr>, \<lparr>fs_actor = i, fs_fail = True\<rparr>]
     | FpRoleEnd \<Rightarrow> [\<lparr>fs_actor = i, fs_fail = False\<rparr>]
     | FpParked \<Rightarrow> []
     | FpFinished \<Rightarrow> []) \<longleftrightarrow> fs_actor t = i \<and> fm_fp s ! i \<notin> {FpParked, FpFinished} \<and>
       (fs_fail t \<longrightarrow> fm_fp s ! i = FpFlushing)" for i
    by (cases t; cases "fm_fp s ! i") auto
  then show ?thesis by (auto simp: flush_enabled_def)
qed

lemma idle_set_fp:
  assumes "i < length (fm_fp s)"
  shows "idle_count (set_fp i p s) + of_bool (fm_fp s ! i = FpIdle) = idle_count s + of_bool (p = FpIdle)"
  using count_update[OF assms, of "\<lambda>p. p = FpIdle" p] by (simp add: idle_count_def set_fp_def)

text \<open>How each step moves the parts of the invariant.\<close>

lemma set_fp_simps [simp]:
  "fm_fp (set_fp i p s) = (fm_fp s)[i := p]" "fm_target (set_fp i p s) = fm_target s" "fm_seq (set_fp i p s) = fm_seq s"
  "fm_published (set_fp i p s) = fm_published s" "fm_durable (set_fp i p s) = fm_durable s"
  "fm_sync_requested (set_fp i p s) = fm_sync_requested s" "fm_degraded (set_fp i p s) = fm_degraded s"
  "fm_flush_error (set_fp i p s) = fm_flush_error s" "fm_role (set_fp i p s) = fm_role s"
  by (simp_all add: set_fp_def)

lemma covered_cong:
  "fm_target s = fm_target s' \<Longrightarrow> fm_durable s = fm_durable s' \<Longrightarrow> fm_published s = fm_published s' \<Longrightarrow>
    flush_covered n s i = flush_covered n s' i"
  by (simp add: flush_covered_def)

lemma role_keep:
  assumes "role_inv n s" and "i < n" and "fm_fp s' = (fm_fp s)[i := p]" and "length (fm_target s') = n"
    and "fm_role s' = fm_role s" and "holds_role p = holds_role (fm_fp s ! i)" and "p = FpParked \<longrightarrow> fm_role s"
  shows "role_inv n s'"
proof -
  have "holds_role (fm_fp s' ! j) = holds_role (fm_fp s ! j)" if "j < n" for j
    using assms that by (auto simp: role_inv_def nth_list_update)
  moreover have "fm_fp s' ! j \<noteq> FpParked" if "j < n" "\<not> fm_role s" for j
    using assms that by (auto simp: role_inv_def nth_list_update)
  ultimately show ?thesis using assms by (auto simp: role_inv_def)
qed

lemmas fp_simps = holds_role_def flush_commit_def flush_check_def flush_throw_def flush_land_def flush_finish_def Let_def

lemma commit_inv:
  assumes inv: "flush_inv n s" and i: "i < n" "fm_fp s ! i = FpIdle" and n: "n < 256"
  shows "flush_inv n (flush_commit n i s)"
proof -
  have len: "length (fm_fp s) = n" "length (fm_target s) = n" using inv by (auto simp: flush_inv_def role_inv_def)
  have "0 < idle_count s"
    using i len nth_mem[of i "fm_fp s"] by (auto simp: idle_count_def filter_empty_conv)
  then have sq: "(fm_seq s + 1) mod 256 = fm_seq s + 1" using inv n by (simp add: flush_inv_def seq_inv_def)
  let ?s = "flush_commit n i s"
  have "idle_count ?s + 1 = idle_count s"
    using idle_set_fp[of i s FpCheck] i len by (simp add: flush_commit_def Let_def idle_count_def)
  moreover have sv: "seq_inv n s" using inv by (simp add: flush_inv_def)
  ultimately have "fm_seq s + 1 + idle_count ?s \<le> n" by (simp add: seq_inv_def)
  moreover have "fm_target ?s ! j \<le> fm_seq s + 1 \<and>
      (fm_fp ?s ! j \<noteq> FpIdle \<longrightarrow> flush_syncs n j \<longrightarrow> fm_target ?s ! j \<le> fm_sync_requested ?s)" if j: "j < n" for j
  proof (cases "j = i")
    case True
    then show ?thesis using i len sq by (simp add: flush_commit_def Let_def)
  next
    case False
    have old: "fm_target s ! j \<le> fm_seq s"
      "fm_fp s ! j \<noteq> FpIdle \<longrightarrow> flush_syncs n j \<longrightarrow> fm_target s ! j \<le> fm_sync_requested s"
      using sv j by (auto simp: seq_inv_def)
    have "fm_sync_requested s \<le> fm_sync_requested ?s" by (simp add: flush_commit_def Let_def)
    then show ?thesis using False old by (auto simp: flush_commit_def Let_def)
  qed
  ultimately have "seq_inv n ?s"
    using sv sq by (auto simp: seq_inv_def flush_commit_def Let_def)
  moreover have "role_inv n ?s"
    by (rule role_keep[of n s i _ FpCheck]) (use inv i len in \<open>auto simp: flush_inv_def fp_simps\<close>)
  moreover have "cover_inv n ?s"
    using inv i len by (auto simp: flush_inv_def cover_inv_def flush_commit_def Let_def nth_list_update flush_covered_def)
  ultimately show ?thesis by (simp add: flush_inv_def)
qed

lemma idle_keep:
  assumes "fm_fp s' = (fm_fp s)[i := p]" and "i < length (fm_fp s)" and "fm_fp s ! i \<noteq> FpIdle" and "p \<noteq> FpIdle"
  shows "idle_count s' = idle_count s"
  using count_update[OF assms(2), of "\<lambda>p. p = FpIdle" p] assms by (simp add: idle_count_def)

lemma check_inv:
  assumes inv: "flush_inv n s" and i: "i < n" "fm_fp s ! i = FpCheck"
  shows "flush_inv n (flush_check n i s)"
proof -
  have len: "length (fm_fp s) = n" "length (fm_target s) = n" using inv by (auto simp: flush_inv_def role_inv_def)
  let ?s = "flush_check n i s"
  have "idle_count ?s = idle_count s"
    by (rule idle_keep[of _ s i "fm_fp ?s ! i"]) (use i len in \<open>auto simp: flush_check_def\<close>)
  then have "seq_inv n ?s"
    using inv i len by (auto simp: flush_inv_def seq_inv_def flush_check_def nth_list_update)
  moreover have "role_inv n ?s"
  proof (cases "flush_covered n s i \<or> fm_flush_error s \<or> fm_degraded s \<or> fm_role s")
    case True
    show ?thesis
      by (rule role_keep[of n s i _ "if flush_covered n s i \<or> fm_flush_error s \<or> fm_degraded s then FpFinished else FpParked"])
         (use inv i len True in \<open>auto simp: flush_inv_def fp_simps\<close>)
  next
    case False
    then have s: "?s = set_fp i FpFlushing (s\<lparr>fm_role := True\<rparr>)" by (simp add: flush_check_def)
    have "\<not> holds_role (fm_fp s ! j)" if "j < n" for j using inv False that by (simp add: flush_inv_def role_inv_def)
    then have "holds_role (fm_fp ?s ! j) \<longleftrightarrow> j = i" if "j < n" for j
      using that i len by (auto simp: s nth_list_update holds_role_def)
    then show ?thesis using i len by (auto simp: role_inv_def s)
  qed
  moreover have "cover_inv n ?s"
    using inv i len by (auto simp: flush_inv_def cover_inv_def flush_check_def nth_list_update flush_covered_def)
  ultimately show ?thesis by (simp add: flush_inv_def)
qed

lemma throw_inv:
  assumes inv: "flush_inv n s" and i: "i < n" "fm_fp s ! i = FpFlushing"
  shows "flush_inv n (flush_throw FlushNone i s)"
proof -
  have len: "length (fm_fp s) = n" "length (fm_target s) = n" using inv by (auto simp: flush_inv_def role_inv_def)
  let ?s = "flush_throw FlushNone i s"
  have "idle_count ?s = idle_count s"
    by (rule idle_keep[of _ s i FpRoleEnd]) (use i len in \<open>auto simp: flush_throw_def\<close>)
  then have "seq_inv n ?s"
    using inv i len by (auto simp: flush_inv_def seq_inv_def flush_throw_def nth_list_update)
  moreover have "role_inv n ?s"
    by (rule role_keep[of n s i _ FpRoleEnd]) (use inv i len in \<open>auto simp: flush_inv_def fp_simps\<close>)
  moreover have "cover_inv n ?s" by (simp add: cover_inv_def flush_throw_def)
  ultimately show ?thesis by (simp add: flush_inv_def)
qed

lemma land_inv:
  assumes inv: "flush_inv n s" and i: "i < n" "fm_fp s ! i = FpFlushing"
  shows "flush_inv n (flush_land i s)"
proof -
  have len: "length (fm_fp s) = n" "length (fm_target s) = n" using inv by (auto simp: flush_inv_def role_inv_def)
  let ?s = "flush_land i s"
  have "idle_count ?s = idle_count s"
    by (rule idle_keep[of _ s i FpRoleEnd]) (use i len in \<open>auto simp: flush_land_def\<close>)
  then have "seq_inv n ?s"
    using inv i len by (auto simp: flush_inv_def seq_inv_def flush_land_def nth_list_update)
  moreover have "role_inv n ?s"
    by (rule role_keep[of n s i _ FpRoleEnd]) (use inv i len in \<open>auto simp: flush_inv_def fp_simps\<close>)
  moreover have "flush_covered n ?s j" if "flush_covered n s j \<or> j = i" "j < n" for j
    using that inv i by (auto simp: flush_inv_def seq_inv_def flush_land_def flush_covered_def intro: order_trans)
  then have "cover_inv n ?s"
    using inv i len by (auto simp: flush_inv_def cover_inv_def nth_list_update) (auto simp: flush_land_def nth_list_update split: if_splits)
  ultimately show ?thesis by (simp add: flush_inv_def)
qed

lemma finish_inv:
  assumes inv: "flush_inv n s" and i: "i < n" "fm_fp s ! i = FpRoleEnd"
  shows "flush_inv n (flush_finish i s)"
proof -
  have len: "length (fm_fp s) = n" "length (fm_target s) = n" using inv by (auto simp: flush_inv_def role_inv_def)
  let ?s = "flush_finish i s"
  let ?m = "s\<lparr>fm_role := False, fm_fp := map (\<lambda>p. if p = FpParked then FpCheck else p) (fm_fp s)\<rparr>"
  have "idle_count ?m = idle_count s"
    by (simp add: idle_count_def filter_map comp_def) (metis (no_types, lifting) Fp.distinct(3) Fp.distinct(1) filter_cong)
  then have "idle_count ?s = idle_count s"
    using idle_keep[of ?s ?m i FpFinished] i len by (simp add: flush_finish_def)
  then have "seq_inv n ?s"
    using inv i len by (auto simp: flush_inv_def seq_inv_def flush_finish_def nth_list_update)
  moreover have "role_inv n ?s"
  proof -
    have "holds_role (fm_fp s ! j) \<longleftrightarrow> j = i" if "j < n" for j
      using inv i that unfolding flush_inv_def role_inv_def by (metis holds_role_def)
    then have "\<not> holds_role (fm_fp ?s ! j) \<and> fm_fp ?s ! j \<noteq> FpParked" if "j < n" for j
      using that i len by (auto simp: flush_finish_def nth_list_update holds_role_def)
    then show ?thesis using len by (simp add: role_inv_def flush_finish_def)
  qed
  moreover have "cover_inv n ?s"
    using inv i len by (auto simp: flush_inv_def cover_inv_def flush_finish_def nth_list_update flush_covered_def)
  ultimately show ?thesis by (simp add: flush_inv_def)
qed

section \<open>No hang, no endless wait\<close>

fun fp_rank :: "Fp \<Rightarrow> nat" where
  "fp_rank FpIdle = 4"
| "fp_rank FpCheck = 3"
| "fp_rank FpFlushing = 2"
| "fp_rank FpRoleEnd = 1"
| "fp_rank FpParked = 0"
| "fp_rank FpFinished = 0"

text \<open>Releasing the role sends the parked writers back to their check, and the releasing writer home.\<close>

definition unfinished :: "FlushState \<Rightarrow> nat" where
  "unfinished s = length (filter (\<lambda>p. p \<noteq> FpFinished) (fm_fp s))"

definition flush_rank :: "nat \<Rightarrow> FlushState \<Rightarrow> nat" where
  "flush_rank n s = (3 * n + 1) * unfinished s + sum_list (map fp_rank (fm_fp s))"

lemma rank_lower:
  assumes "fm_fp s' = (fm_fp s)[i := p]" and "i < length (fm_fp s)" and "fp_rank p < fp_rank (fm_fp s ! i)"
  shows "flush_rank n s' < flush_rank n s"
proof -
  have "fm_fp s ! i \<noteq> FpFinished" using assms(3) by auto
  then have "unfinished s' \<le> unfinished s"
    using count_update[OF assms(2), of "\<lambda>p. p \<noteq> FpFinished" p] assms(1)
    by (cases "p = FpFinished") (auto simp: unfinished_def)
  then have "(3 * n + 1) * unfinished s' \<le> (3 * n + 1) * unfinished s" by (rule mult_le_mono2)
  moreover have "sum_list (map fp_rank (fm_fp s')) < sum_list (map fp_rank (fm_fp s))"
    using sum_list_update[OF assms(2), of fp_rank p] assms(1,3) by simp
  ultimately show ?thesis unfolding flush_rank_def by (rule add_le_less_mono)
qed

lemma finish_rank:
  assumes i: "i < length (fm_fp s)" "fm_fp s ! i = FpRoleEnd" and n: "length (fm_fp s) = n"
  shows "flush_rank n (flush_finish i s) < flush_rank n s"
proof -
  let ?m = "map (\<lambda>p. if p = FpParked then FpCheck else p) (fm_fp s)"
  let ?s = "flush_finish i s"
  have fp: "fm_fp ?s = ?m[i := FpFinished]" by (simp add: flush_finish_def)
  have "length (filter (\<lambda>p. p \<noteq> FpFinished) (map (\<lambda>p. if p = FpParked then FpCheck else p) xs)) =
      length (filter (\<lambda>p. p \<noteq> FpFinished) xs)" for xs
    by (induction xs) auto
  then have "length (filter (\<lambda>p. p \<noteq> FpFinished) ?m) = unfinished s" by (simp add: unfinished_def)
  then have "unfinished ?s + 1 = unfinished s"
    using count_update[of i ?m "\<lambda>p. p \<noteq> FpFinished" FpFinished] i by (simp add: unfinished_def fp)
  then have "(3 * n + 1) * unfinished s = (3 * n + 1) * unfinished ?s + (3 * n + 1)" by (metis add_mult_distrib2 mult.right_neutral)
  moreover have "sum_list (map fp_rank (fm_fp ?s)) + 1 = sum_list (map fp_rank ?m)"
    using sum_list_update[of i ?m fp_rank FpFinished] i by (simp add: fp)
  moreover have "sum_list (map fp_rank (map (\<lambda>p. if p = FpParked then FpCheck else p) xs)) \<le> sum_list (map fp_rank xs) + 3 * length xs" for xs
    by (induction xs) auto
  from this[of "fm_fp s"] have "sum_list (map fp_rank ?m) \<le> sum_list (map fp_rank (fm_fp s)) + 3 * n" using n by simp
  ultimately show ?thesis unfolding flush_rank_def by linarith
qed

lemma flush_rank_step:
  assumes "flush_inv n s" and "t \<in> set (flush_enabled n s)"
  shows "flush_rank n (flush_apply n FlushNone s t) < flush_rank n s"
proof -
  let ?i = "fs_actor t"
  have i: "?i < length (fm_fp s)" "length (fm_fp s) = n"
    using assms by (auto simp: flush_enabled_iff flush_inv_def role_inv_def)
  have en: "fm_fp s ! ?i \<notin> {FpParked, FpFinished}" using assms(2) by (simp add: flush_enabled_iff)
  consider "fm_fp s ! ?i = FpIdle" | "fm_fp s ! ?i = FpCheck" | "fm_fp s ! ?i = FpFlushing" | "fm_fp s ! ?i = FpRoleEnd"
    using en by (cases "fm_fp s ! ?i") auto
  then show ?thesis
  proof cases
    case 1
    then show ?thesis using i by (intro rank_lower[of _ _ ?i FpCheck]) (auto simp: flush_apply_def fp_simps)
  next
    case 2
    let ?s = "flush_check n ?i s"
    have "fm_fp ?s = (fm_fp s)[?i := fm_fp ?s ! ?i]" "fp_rank (fm_fp ?s ! ?i) < 3"
      using i by (auto simp: flush_check_def)
    then show ?thesis using i 2 by (simp add: flush_apply_def) (rule rank_lower[of _ _ ?i], auto)
  next
    case 3
    then show ?thesis using i by (intro rank_lower[of _ _ ?i FpRoleEnd]) (auto simp: flush_apply_def fp_simps)
  next
    case 4
    then show ?thesis using finish_rank[OF i(1) 4 i(2)] by (simp add: flush_apply_def)
  qed
qed

lemma flush_inv_step:
  assumes inv: "flush_inv n s" and "n < 256" and "t \<in> set (flush_enabled n s)"
  shows "flush_inv n (flush_apply n FlushNone s t)"
proof -
  have i: "fs_actor t < n" using assms(3) by (simp add: flush_enabled_iff)
  show ?thesis
    using commit_inv[OF inv i] check_inv[OF inv i] throw_inv[OF inv i] land_inv[OF inv i] finish_inv[OF inv i] inv assms(2)
    by (cases "fm_fp s ! fs_actor t") (auto simp: flush_apply_def Let_def)
qed

lemma role_held_iff: "role_inv n s \<Longrightarrow> role_held s \<longleftrightarrow> fm_role s"
proof -
  assume inv: "role_inv n s"
  have "role_held s \<longleftrightarrow> (\<exists>i < n. holds_role (fm_fp s ! i))"
    using inv by (auto simp: role_held_def holds_role_def role_inv_def list_ex_length)
  then show ?thesis using inv unfolding role_inv_def by metis
qed

lemma flush_inv_check: "flush_inv n s \<Longrightarrow> flush_model_check n s = None"
proof -
  assume inv: "flush_inv n s"
  then have "role_held s \<longleftrightarrow> fm_role s" using role_held_iff[of n s] by (simp add: flush_inv_def)
  moreover have "fm_fp s ! i = FpParked \<Longrightarrow> i < n \<Longrightarrow> fm_role s" for i
    using inv by (auto simp: flush_inv_def role_inv_def split: if_splits)
  ultimately show ?thesis by (auto simp: flush_model_check_def list_ex_iff)
qed

lemma flush_no_hang:
  assumes inv: "flush_inv n s" and "\<not> flush_done s"
  shows "flush_enabled n s \<noteq> []"
proof -
  have len: "length (fm_fp s) = n" using inv by (simp add: flush_inv_def role_inv_def)
  obtain i where i: "i < n" "fm_fp s ! i \<noteq> FpFinished"
    using assms(2) len by (auto simp: flush_done_def list_all_length)
  have "\<exists>j < n. fm_fp s ! j \<notin> {FpParked, FpFinished}"
  proof (cases "fm_fp s ! i = FpParked")
    case True
    then have "fm_role s" using inv i by (auto simp: flush_inv_def role_inv_def split: if_splits)
    then obtain h where "h < n" "holds_role (fm_fp s ! h)" using inv by (auto simp: flush_inv_def role_inv_def)
    then show ?thesis by (auto simp: holds_role_def)
  qed (use i in auto)
  then obtain j where "j < n" "fm_fp s ! j \<notin> {FpParked, FpFinished}" by blast
  then have "\<lparr>fs_actor = j, fs_fail = False\<rparr> \<in> set (flush_enabled n s)" by (simp add: flush_enabled_iff)
  then show ?thesis by auto
qed

lemma flush_inv_init: "flush_inv n (flush_init n)"
  by (simp add: flush_inv_def role_inv_def seq_inv_def cover_inv_def flush_init_def idle_count_def holds_role_def)

text \<open>The number of writers is one the 8-bit sequences can count.\<close>

interpretation flush: protocol "FlushModel (unat w) FlushNone" "flush_init (unat w)" "flush_inv (unat w)" "flush_rank (unat w)"
  for w :: byte
proof (unfold_locales, goal_cases)
  case (2 s t)
  have "unat w < 256" using unsigned_less[of w, where ?'a = nat] by simp
  then show ?case using 2 flush_inv_step by simp
qed (auto simp: flush_inv_init flush_inv_check flush_no_hang flush_rank_step)

lemma unat_count: "n < 256 \<Longrightarrow> unat (word_of_nat n :: byte) = n"
  by (simp add: unat_of_nat)

lemma flush_key_exact:
  assumes "flush_inv n s" and "flush_inv n s'" and "n \<le> 15" and "flush_key s = flush_key s'"
  shows "s = s'"
proof -
  have len: "length (fm_fp s) = n" "length (fm_target s) = n" "length (fm_fp s') = n" "length (fm_target s') = n"
    using assms(1,2) by (auto simp: flush_inv_def role_inv_def)
  have fit: "fits (flush_fields x)" if inv: "flush_inv n x" for x
  proof -
    have lx: "length (fm_fp x) = n" "length (fm_target x) = n" using inv by (auto simp: flush_inv_def role_inv_def)
    have sq: "fm_seq x \<le> 15" "fm_published x \<le> 15" "fm_durable x \<le> 15" "fm_sync_requested x \<le> 15"
      using inv assms(3) by (auto simp: flush_inv_def seq_inv_def)
    have "t \<le> 15" if "t \<in> set (fm_target x)" for t
      using that inv sq(1) lx by (auto simp: flush_inv_def seq_inv_def in_set_conv_nth intro: order_trans)
    moreover have "fp_code p < 8" for p by (cases p) auto
    moreover have "sum_list (map snd (flush_fields x)) = 7 * n + 19"
      using lx by (simp add: flush_fields_def sum_list_triv comp_def)
    ultimately show ?thesis using sq assms(3) by (fastforce simp: fits_def flush_fields_def le_less_trans)
  qed
  have "map snd (flush_fields s) = map snd (flush_fields s')" using len by (simp add: flush_fields_def map_replicate_const comp_def)
  from kb_pack_inj[OF kb_done_inj this fit[OF assms(1)] fit[OF assms(2)]] assms(4)
  have eq: "flush_fields s = flush_fields s'" by (simp add: flush_key_def)
  have inj: "fp_code p = fp_code q \<Longrightarrow> p = q" for p q by (cases p; cases q) auto
  have "map (\<lambda>p. (fp_code p, 3::nat)) (fm_fp s) = map (\<lambda>p. (fp_code p, 3)) (fm_fp s')"
    "map (\<lambda>t. (t, 4::nat)) (fm_target s) = map (\<lambda>t. (t, 4)) (fm_target s')"
    using eq len by (auto simp: flush_fields_def)
  then have "fm_fp s = fm_fp s'" "fm_target s = fm_target s'"
    using inj by (auto simp: list_eq_iff_nth_eq)
  then show ?thesis using eq by (cases s; cases s') (auto simp: flush_fields_def of_bool_def split: if_splits)
qed


section \<open>Properties\<close>

lemma flush_rank_init: "flush_rank n (flush_init n) = n * (3 * n + 5)"
  by (simp add: flush_rank_def unfinished_def flush_init_def sum_list_replicate algebra_simps)

text \<open>
  C16. In every state that any interleaving of up to 128 writers (what the signed byte of a step can index) reaches, with any flush failing: the
  flush role is held exactly while a thread flushes, no parked writer is left uncovered without a
  flush or an error to come, no state is stuck, and a writer that has returned is covered or the
  flush error is recorded.
\<close>

theorem flush_protocol_safe:
  assumes "n \<le> 128" and "steps (FlushModel n FlushNone) (flush_init n) k s"
  shows "flush_model_check n s = None \<and> (flush_done s \<or> flush_enabled n s \<noteq> []) \<and>
    (\<forall>i < n. fm_fp s ! i = FpFinished \<longrightarrow> flush_covered n s i \<or> fm_flush_error s)"
proof -
  let ?w = "word_of_nat n :: byte"
  have w: "unat ?w = n" using assms(1) by (simp add: unat_count)
  have "flush_inv n s" using flush.steps_inv[of ?w, unfolded w, OF assms(2) flush_inv_init] .
  moreover have "state_good (FlushModel n FlushNone) s" using flush.good[of ?w, unfolded w, OF assms(2)] .
  ultimately show ?thesis by (auto simp: state_good_def flush_inv_def cover_inv_def)
qed

text \<open>A run of two writers in which the first one's flush throws.\<close>

definition demo_flush_steps :: "FlushStep list" where
  "demo_flush_steps = [\<lparr>fs_actor = 0, fs_fail = False\<rparr>, \<lparr>fs_actor = 0, fs_fail = False\<rparr>, \<lparr>fs_actor = 0, fs_fail = True\<rparr>]"

definition demo_flush_end :: FlushState where
  "demo_flush_end = the (run_steps (FlushModel 2 FlushNone) (flush_init 2) demo_flush_steps)"

lemma demo_flush_run: "steps (FlushModel 2 FlushNone) (flush_init 2) 3 demo_flush_end"
proof -
  have "run_steps (FlushModel 2 FlushNone) (flush_init 2) demo_flush_steps = Some demo_flush_end"
    by code_simp
  from run_steps_steps[OF this] show ?thesis by (simp add: demo_flush_steps_def numeral_3_eq_3)
qed

theorem flush_protocol_safe_witness:
  "(2::nat) \<le> 128 \<and>
   (\<exists>s. steps (FlushModel 2 FlushNone) (flush_init 2) 3 s \<and> flush_model_check 2 s = None \<and> flush_enabled 2 s \<noteq> [] \<and>
     fm_flush_error s)"
proof -
  have "\<not> flush_done demo_flush_end" "fm_flush_error demo_flush_end" by code_simp+
  then show ?thesis using flush_protocol_safe[OF _ demo_flush_run] demo_flush_run by auto
qed

text \<open>
  C17. Every run of n writers is at most n (3 n + 5) steps long, and from every state it reaches all
  writers can still return: no schedule and no failing flush leaves a writer parked for ever.
\<close>

theorem flush_protocol_ends:
  assumes "n \<le> 128" and "steps (FlushModel n FlushNone) (flush_init n) k s"
  shows "k \<le> n * (3 * n + 5) \<and> (\<exists>j s'. steps (FlushModel n FlushNone) s j s' \<and> flush_done s') \<and>
    (flush_enabled n s = [] \<longrightarrow> flush_done s)"
proof -
  let ?w = "word_of_nat n :: byte"
  have w: "unat ?w = n" using assms(1) by (simp add: unat_count)
  show ?thesis
    using flush.bounded[of ?w, unfolded w, OF assms(2)] flush.completable[of ?w, unfolded w, OF assms(2)]
      flush.ends[of ?w, unfolded w, OF assms(2)] by (simp add: flush_rank_init)
qed

theorem flush_protocol_ends_witness:
  "(2::nat) \<le> 128 \<and> (\<exists>s j s'. steps (FlushModel 2 FlushNone) (flush_init 2) 3 s \<and> \<not> flush_done s \<and>
     steps (FlushModel 2 FlushNone) s j s' \<and> flush_done s')"
proof -
  have "\<not> flush_done demo_flush_end" by code_simp
  then show ?thesis using flush_protocol_ends[OF _ demo_flush_run] demo_flush_run by auto
qed

end
