(* ===== verification/HandOver.thy ===== *)
theory HandOver
  imports Explorer
begin

text \<open>
  The hand-over of the write group (\<^verbatim>\<open>verify/transition/writegroup_model.h\<close>): writers queue behind a
  running batch, the one that ends a batch with slots still queued hands them to the committer
  thread and wakes it. The checker explores a few writers; the theorems hold for every number of them
  a step's signed byte can index.
\<close>

section \<open>The model\<close>

datatype HandoverMutant = HandoverNone | SleepingReadEarly | HandOverClearedAtWake | WakeSkipped

datatype Wp = WpIdle | WpRun | WpEnd | WpNotify | WpWaiting | WpFinished

datatype Slot = SlotNone | Queued | InBatch | Executed

datatype Cp = CpGate | CpParked | CpRun | CpEnd

record WGState =
  wg_wp :: "Wp list"
  wg_slot :: "Slot list"
  wg_sampled :: "bool list"
  wg_committer :: Cp
  wg_batch_owner :: nat
  wg_running :: bool
  wg_hand_over :: bool
  wg_sleeping :: bool
  wg_parked :: bool
  wg_wake_pending :: bool
  wg_wake_owed :: bool

datatype Actor = Committer | Writer nat

definition wg_init :: "nat \<Rightarrow> WGState" where
  "wg_init n = \<lparr>wg_wp = replicate n WpIdle, wg_slot = replicate n SlotNone, wg_sampled = replicate n False,
     wg_committer = CpGate, wg_batch_owner = 0, wg_running = False, wg_hand_over = False, wg_sleeping = False,
     wg_parked = False, wg_wake_pending = False, wg_wake_owed = False\<rparr>"

definition wg_enabled :: "nat \<Rightarrow> WGState \<Rightarrow> Actor list" where
  "wg_enabled n s =
    map Writer (filter (\<lambda>i. wg_wp s ! i \<in> {WpIdle, WpRun, WpEnd, WpNotify}) [0..<n]) @
    (if wg_committer s \<noteq> CpParked \<or> wg_wake_pending s then [Committer] else [])"

definition wg_label :: "WGState \<Rightarrow> Actor \<Rightarrow> string" where
  "wg_label s a =
    (case a of
       Committer \<Rightarrow> (case wg_committer s of CpGate \<Rightarrow> ''c.gate'' | CpParked \<Rightarrow> ''c.wake'' | CpRun \<Rightarrow> ''c.run'' | CpEnd \<Rightarrow> ''c.end'')
     | Writer i \<Rightarrow> writer_label i (case wg_wp s ! i of WpIdle \<Rightarrow> ''submit'' | WpRun \<Rightarrow> ''run'' | WpEnd \<Rightarrow> ''end'' | WpNotify \<Rightarrow> ''notify'' | _ \<Rightarrow> ''?''))"

definition wg_queued :: "WGState \<Rightarrow> bool" where
  "wg_queued s \<longleftrightarrow> list_ex (\<lambda>x. x = Queued) (wg_slot s)"

definition take_queue :: "nat \<Rightarrow> WGState \<Rightarrow> WGState" where
  "take_queue owner s = s\<lparr>wg_slot := map (\<lambda>x. if x = Queued then InBatch else x) (wg_slot s), wg_batch_owner := owner mod 256\<rparr>"

definition run_batch :: "WGState \<Rightarrow> WGState" where
  "run_batch s = s\<lparr>wg_slot := map (\<lambda>x. if x = InBatch then Executed else x) (wg_slot s),
     wg_wp := map2 (\<lambda>p x. if x = InBatch \<and> p = WpWaiting then WpFinished else p) (wg_wp s) (wg_slot s)\<rparr>"

definition wake_decided :: "HandoverMutant \<Rightarrow> WGState \<Rightarrow> nat \<Rightarrow> bool" where
  "wake_decided mut s i =
    (if mut = WakeSkipped then False else if mut = SleepingReadEarly then wg_sampled s ! i else wg_sleeping s)"

definition set_wp :: "nat \<Rightarrow> Wp \<Rightarrow> WGState \<Rightarrow> WGState" where
  "set_wp i p s = s\<lparr>wg_wp := (wg_wp s)[i := p]\<rparr>"

definition wg_submit :: "nat \<Rightarrow> WGState \<Rightarrow> WGState" where
  "wg_submit i s =
    (let s1 = s\<lparr>wg_sampled := (wg_sampled s)[i := wg_sleeping s], wg_slot := (wg_slot s)[i := Queued]\<rparr>
     in if wg_running s1 then set_wp i WpWaiting s1
        else set_wp i WpRun (take_queue (i + 2) (s1\<lparr>wg_running := True\<rparr>)))"

definition wg_end :: "HandoverMutant \<Rightarrow> nat \<Rightarrow> WGState \<Rightarrow> WGState" where
  "wg_end mut i s =
    (let s1 = s\<lparr>wg_batch_owner := 0\<rparr> in
     if wg_queued s1
     then let owed = wake_decided mut s1 i
          in set_wp i (if owed then WpNotify else WpFinished) (s1\<lparr>wg_hand_over := True, wg_wake_owed := owed\<rparr>)
     else set_wp i WpFinished (s1\<lparr>wg_running := False\<rparr>))"

definition wg_notify :: "nat \<Rightarrow> WGState \<Rightarrow> WGState" where
  "wg_notify i s =
    (let s1 = (if wg_parked s then s\<lparr>wg_parked := False, wg_wake_pending := True\<rparr> else s)
     in set_wp i WpFinished (s1\<lparr>wg_wake_owed := False\<rparr>))"

definition committer_gate :: "HandoverMutant \<Rightarrow> WGState \<Rightarrow> WGState" where
  "committer_gate mut s =
    (if wg_hand_over s
     then (take_queue 1 (if mut \<noteq> HandOverClearedAtWake then s\<lparr>wg_hand_over := False\<rparr> else s))\<lparr>wg_committer := CpRun\<rparr>
     else s\<lparr>wg_sleeping := True, wg_parked := True, wg_committer := CpParked\<rparr>)"

definition committer_wake :: "HandoverMutant \<Rightarrow> WGState \<Rightarrow> WGState" where
  "committer_wake mut s = s\<lparr>wg_wake_pending := False, wg_sleeping := False,
     wg_hand_over := (if mut = HandOverClearedAtWake then False else wg_hand_over s), wg_committer := CpGate\<rparr>"

definition committer_end :: "WGState \<Rightarrow> WGState" where
  "committer_end s =
    (if wg_queued s then (take_queue 1 s)\<lparr>wg_committer := CpRun\<rparr>
     else s\<lparr>wg_running := False, wg_committer := CpGate\<rparr>)"

definition wg_apply :: "HandoverMutant \<Rightarrow> WGState \<Rightarrow> Actor \<Rightarrow> WGState" where
  "wg_apply mut s a =
    (case a of
       Committer \<Rightarrow>
         (case wg_committer s of
            CpGate \<Rightarrow> committer_gate mut s
          | CpParked \<Rightarrow> committer_wake mut s
          | CpRun \<Rightarrow> (run_batch s)\<lparr>wg_committer := CpEnd\<rparr>
          | CpEnd \<Rightarrow> committer_end s)
     | Writer i \<Rightarrow>
         (case wg_wp s ! i of
            WpIdle \<Rightarrow> wg_submit i s
          | WpRun \<Rightarrow> set_wp i WpEnd (run_batch s)
          | WpEnd \<Rightarrow> wg_end mut i s
          | WpNotify \<Rightarrow> wg_notify i s
          | _ \<Rightarrow> s))"

definition wg_check :: "WGState \<Rightarrow> string option" where
  "wg_check s =
    (if wg_queued s \<and> \<not> wg_running s then Some ''invariant: slots are queued while running_ is clear''
     else if \<not> wg_queued s then None
     else if wg_batch_owner s \<noteq> 0 \<or> wg_hand_over s \<and> (\<not> wg_parked s \<or> wg_wake_pending s \<or> wg_wake_owed s) then None
     else Some ''invariant: the queue is non-empty, no batch is running, and the committer has not been woken to run one'')"

definition wg_done :: "WGState \<Rightarrow> bool" where
  "wg_done s \<longleftrightarrow> list_all (\<lambda>p. p = WpFinished) (wg_wp s)"

fun wp_code :: "Wp \<Rightarrow> nat" where
  "wp_code WpIdle = 0"
| "wp_code WpRun = 1"
| "wp_code WpEnd = 2"
| "wp_code WpNotify = 3"
| "wp_code WpWaiting = 4"
| "wp_code WpFinished = 5"

fun slot_code :: "Slot \<Rightarrow> nat" where
  "slot_code SlotNone = 0"
| "slot_code Queued = 1"
| "slot_code InBatch = 2"
| "slot_code Executed = 3"

fun cp_code :: "Cp \<Rightarrow> nat" where
  "cp_code CpGate = 0"
| "cp_code CpParked = 1"
| "cp_code CpRun = 2"
| "cp_code CpEnd = 3"

definition wg_fields :: "WGState \<Rightarrow> (nat \<times> nat) list" where
  "wg_fields s = map (\<lambda>p. (wp_code p, 3)) (wg_wp s) @ map (\<lambda>x. (slot_code x, 2)) (wg_slot s) @
     map (\<lambda>b. (of_bool b, 1)) (wg_sampled s) @
     [(cp_code (wg_committer s), 2), (wg_batch_owner s, 4), (of_bool (wg_running s), 1), (of_bool (wg_hand_over s), 1),
      (of_bool (wg_sleeping s), 1), (of_bool (wg_parked s), 1), (of_bool (wg_wake_pending s), 1), (of_bool (wg_wake_owed s), 1)]"

definition wg_key :: "WGState \<Rightarrow> Key" where
  "wg_key s = kb_done (kb_pack (wg_fields s))"

lemma wg_key_code [code]: "wg_key s = packed (wg_fields s)"
  by (simp add: wg_key_def packed_def)

definition WriteGroupModel :: "nat \<Rightarrow> HandoverMutant \<Rightarrow> (WGState, Actor) Model" where
  "WriteGroupModel n mut = \<lparr>Enabled = wg_enabled n, Apply = wg_apply mut, Check = wg_check, Done = wg_done,
     Label = wg_label, KeyOf = wg_key\<rparr>"

lemma WriteGroupModel_simps [simp]:
  "Enabled (WriteGroupModel n mut) = wg_enabled n" "Apply (WriteGroupModel n mut) = wg_apply mut"
  "Check (WriteGroupModel n mut) = wg_check" "Done (WriteGroupModel n mut) = wg_done"
  "KeyOf (WriteGroupModel n mut) = wg_key"
  by (simp_all add: WriteGroupModel_def)

section \<open>The invariant\<close>

text \<open>
  Who may run a batch: a writer in its batch, the committer in one, or whoever the hand-over flag
  calls. While \<^verbatim>\<open>running_\<close> is set there is exactly one of them.
\<close>

definition in_batch :: "Wp \<Rightarrow> bool" where
  "in_batch p \<longleftrightarrow> p = WpRun \<or> p = WpEnd"

lemma in_batch_simps [simp]:
  "in_batch WpRun" "in_batch WpEnd" "\<not> in_batch WpIdle" "\<not> in_batch WpNotify" "\<not> in_batch WpWaiting" "\<not> in_batch WpFinished"
  by (simp_all add: in_batch_def)

definition batch_writers :: "WGState \<Rightarrow> nat" where
  "batch_writers s = length (filter in_batch (wg_wp s))"

definition agents :: "WGState \<Rightarrow> nat" where
  "agents s = batch_writers s + of_bool (wg_committer s = CpRun \<or> wg_committer s = CpEnd) + of_bool (wg_hand_over s)"

text \<open>What each writer's slot says about the writer.\<close>

definition slot_fits :: "Wp \<Rightarrow> Slot \<Rightarrow> bool" where
  "slot_fits p x \<longleftrightarrow> (p = WpIdle \<longleftrightarrow> x = SlotNone) \<and> (p = WpRun \<longrightarrow> x = InBatch) \<and>
     (p \<in> {WpEnd, WpNotify, WpFinished} \<longrightarrow> x = Executed) \<and> (p = WpWaiting \<longrightarrow> x = Queued \<or> x = InBatch)"

definition wg_inv :: "nat \<Rightarrow> WGState \<Rightarrow> bool" where
  "wg_inv n s \<longleftrightarrow> length (wg_wp s) = n \<and> length (wg_slot s) = n \<and> length (wg_sampled s) = n \<and>
     (\<forall>i < n. slot_fits (wg_wp s ! i) (wg_slot s ! i)) \<and>
     agents s = of_bool (wg_running s) \<and>
     (\<forall>i < n. wg_slot s ! i = Queued \<longrightarrow> wg_running s) \<and>
     (\<forall>i < n. wg_slot s ! i = InBatch \<longrightarrow> wg_committer s = CpRun \<or> (\<exists>j < n. wg_wp s ! j = WpRun)) \<and>
     (batch_writers s > 0 \<or> wg_committer s \<in> {CpRun, CpEnd} \<longrightarrow> wg_batch_owner s \<noteq> 0) \<and>
     wg_batch_owner s \<le> n + 1 \<and>
     (wg_parked s \<longrightarrow> wg_sleeping s \<and> \<not> wg_wake_pending s) \<and>
     (wg_committer s = CpParked \<longleftrightarrow> wg_parked s \<or> wg_wake_pending s) \<and>
     (wg_sleeping s \<longleftrightarrow> wg_committer s = CpParked) \<and>
     (wg_hand_over s \<and> wg_parked s \<longrightarrow> wg_wake_owed s) \<and>
     (wg_wake_owed s \<longrightarrow> (\<exists>j < n. wg_wp s ! j = WpNotify)) \<and> n < 128"

lemma set_wp_simps [simp]:
  "wg_wp (set_wp i p s) = (wg_wp s)[i := p]" "wg_slot (set_wp i p s) = wg_slot s" "wg_sampled (set_wp i p s) = wg_sampled s"
  "wg_committer (set_wp i p s) = wg_committer s" "wg_batch_owner (set_wp i p s) = wg_batch_owner s"
  "wg_running (set_wp i p s) = wg_running s" "wg_hand_over (set_wp i p s) = wg_hand_over s"
  "wg_sleeping (set_wp i p s) = wg_sleeping s" "wg_parked (set_wp i p s) = wg_parked s"
  "wg_wake_pending (set_wp i p s) = wg_wake_pending s" "wg_wake_owed (set_wp i p s) = wg_wake_owed s"
  by (simp_all add: set_wp_def)

lemma batch_writers_none: "batch_writers s = 0 \<longleftrightarrow> (\<forall>i < length (wg_wp s). \<not> in_batch (wg_wp s ! i))"
  by (simp add: batch_writers_def filter_empty_conv all_set_conv_all_nth)

lemma batch_writers_upd:
  assumes "i < length (wg_wp s)" and "wg_wp s' = (wg_wp s)[i := p]"
  shows "batch_writers s' + of_bool (in_batch (wg_wp s ! i)) = batch_writers s + of_bool (in_batch p)"
  using count_update[OF assms(1), of in_batch p] assms(2) by (simp add: batch_writers_def)

text \<open>The invariant taken apart, and what the single agent of a running batch excludes.\<close>

lemma wg_invI:
  assumes "length (wg_wp s) = n" "length (wg_slot s) = n" "length (wg_sampled s) = n"
    and "\<And>i. i < n \<Longrightarrow> slot_fits (wg_wp s ! i) (wg_slot s ! i)"
    and "agents s = of_bool (wg_running s)"
    and "\<And>i. i < n \<Longrightarrow> wg_slot s ! i = Queued \<Longrightarrow> wg_running s"
    and "\<And>i. i < n \<Longrightarrow> wg_slot s ! i = InBatch \<Longrightarrow> wg_committer s = CpRun \<or> (\<exists>j < n. wg_wp s ! j = WpRun)"
    and "batch_writers s > 0 \<or> wg_committer s \<in> {CpRun, CpEnd} \<Longrightarrow> wg_batch_owner s \<noteq> 0"
    and "wg_batch_owner s \<le> n + 1"
    and "wg_parked s \<Longrightarrow> wg_sleeping s" "wg_parked s \<Longrightarrow> \<not> wg_wake_pending s"
    and "wg_committer s = CpParked \<longleftrightarrow> wg_parked s \<or> wg_wake_pending s"
    and "wg_sleeping s \<longleftrightarrow> wg_committer s = CpParked"
    and "wg_hand_over s \<Longrightarrow> wg_parked s \<Longrightarrow> wg_wake_owed s"
    and "wg_wake_owed s \<Longrightarrow> \<exists>j < n. wg_wp s ! j = WpNotify"
    and "n < 128"
  shows "wg_inv n s"
  unfolding wg_inv_def by (intro conjI allI impI; (elim conjE)?; (rule assms; assumption))

lemma wg_invD:
  assumes "wg_inv n s"
  shows "length (wg_wp s) = n" "length (wg_slot s) = n" "length (wg_sampled s) = n"
    and "\<And>i. i < n \<Longrightarrow> slot_fits (wg_wp s ! i) (wg_slot s ! i)"
    and "agents s = of_bool (wg_running s)"
    and "\<And>i. i < n \<Longrightarrow> wg_slot s ! i = Queued \<Longrightarrow> wg_running s"
    and "\<And>i. i < n \<Longrightarrow> wg_slot s ! i = InBatch \<Longrightarrow> wg_committer s = CpRun \<or> (\<exists>j < n. wg_wp s ! j = WpRun)"
    and "batch_writers s > 0 \<or> wg_committer s \<in> {CpRun, CpEnd} \<Longrightarrow> wg_batch_owner s \<noteq> 0"
    and "wg_batch_owner s \<le> n + 1"
    and "wg_parked s \<Longrightarrow> wg_sleeping s" "wg_parked s \<Longrightarrow> \<not> wg_wake_pending s"
    and "wg_committer s = CpParked \<longleftrightarrow> wg_parked s \<or> wg_wake_pending s"
    and "wg_sleeping s \<longleftrightarrow> wg_committer s = CpParked"
    and "wg_hand_over s \<Longrightarrow> wg_parked s \<Longrightarrow> wg_wake_owed s"
    and "wg_wake_owed s \<Longrightarrow> \<exists>j < n. wg_wp s ! j = WpNotify"
    and "n < 128"
  using assms unfolding wg_inv_def by (elim conjE, (assumption | iprover))+

lemma update_keeps: "\<exists>j < n. xs ! j = p \<Longrightarrow> i < n \<Longrightarrow> length xs = n \<Longrightarrow> xs ! i \<noteq> p \<Longrightarrow> \<exists>j < n. xs[i := q] ! j = p"
  by (metis nth_list_update_neq)

lemma one_agent:
  assumes "wg_inv n s" and "i < n" and "in_batch (wg_wp s ! i)"
  shows "wg_running s" "batch_writers s = 1" "wg_committer s \<notin> {CpRun, CpEnd}" "\<not> wg_hand_over s"
proof -
  have "batch_writers s \<noteq> 0" using assms batch_writers_none[of s] by (auto simp: wg_inv_def)
  moreover have "agents s = of_bool (wg_running s)" using assms(1) by (simp add: wg_inv_def)
  ultimately show "wg_running s" "batch_writers s = 1" "wg_committer s \<notin> {CpRun, CpEnd}" "\<not> wg_hand_over s"
    by (auto simp: agents_def of_bool_def split: if_splits)
qed

lemma only_batch_writer:
  assumes "wg_inv n s" and "i < n" and "in_batch (wg_wp s ! i)" and "j < n" and "in_batch (wg_wp s ! j)"
  shows "i = j"
proof (rule ccontr)
  assume ne: "i \<noteq> j"
  have len: "length (wg_wp s) = n" using assms(1) by (simp add: wg_inv_def)
  let ?s = "set_wp i WpFinished s"
  have "batch_writers ?s = 0"
    using batch_writers_upd[of i s ?s WpFinished] one_agent(2)[OF assms(1-3)] assms(2,3) len by simp
  then show False using batch_writers_none[of ?s] assms(4,5) ne len by auto
qed

lemma committer_alone:
  assumes "wg_inv n s" and "wg_committer s \<in> {CpRun, CpEnd}"
  shows "wg_running s" "batch_writers s = 0" "\<not> wg_hand_over s"
  using wg_invD(5)[OF assms(1)] assms(2) by (auto simp: agents_def of_bool_def split: if_splits)

lemma handed_over_alone:
  assumes "wg_inv n s" and "wg_hand_over s"
  shows "wg_running s" "batch_writers s = 0" "wg_committer s \<notin> {CpRun, CpEnd}"
  using wg_invD(5)[OF assms(1)] assms(2) by (auto simp: agents_def of_bool_def split: if_splits)

lemma no_batch_writer:
  assumes "wg_inv n s" and "batch_writers s = 0" and "j < n"
  shows "\<not> in_batch (wg_wp s ! j)"
  using assms batch_writers_none[of s] wg_invD(1)[OF assms(1)] by simp

lemma submit_inv:
  assumes inv: "wg_inv n s" and i: "i < n" "wg_wp s ! i = WpIdle"
  shows "wg_inv n (wg_submit i s)"
proof (cases "wg_running s")
  case True
  let ?s = "wg_submit i s"
  note D = wg_invD[OF inv]
  have s: "?s = set_wp i WpWaiting (s\<lparr>wg_sampled := (wg_sampled s)[i := wg_sleeping s], wg_slot := (wg_slot s)[i := Queued]\<rparr>)"
    using True by (simp add: wg_submit_def Let_def)
  have bw: "batch_writers ?s = batch_writers s"
    using batch_writers_upd[of i s ?s WpWaiting] D(1) i by (simp add: s)
  show ?thesis
  proof (rule wg_invI)
    show "slot_fits (wg_wp ?s ! j) (wg_slot ?s ! j)" if "j < n" for j
      using D(4)[OF that] D(1,2) that i by (auto simp: s nth_list_update slot_fits_def)
    show "agents ?s = of_bool (wg_running ?s)" using D(5) bw by (simp add: agents_def s)
    show "wg_committer ?s = CpRun \<or> (\<exists>j < n. wg_wp ?s ! j = WpRun)" if "j < n" "wg_slot ?s ! j = InBatch" for j
    proof -
      have "wg_slot s ! j = InBatch" using that D(2) i by (auto simp: s nth_list_update split: if_splits)
      then show ?thesis using D(7)[OF that(1)] update_keeps[of n "wg_wp s" WpRun i WpWaiting] i D(1) by (auto simp: s)
    qed
    show "\<exists>j < n. wg_wp ?s ! j = WpNotify" if "wg_wake_owed ?s"
      using that D(15) update_keeps[of n "wg_wp s" WpNotify i WpWaiting] i D(1) by (simp add: s)
  qed (use D True bw in \<open>simp_all add: s\<close>)
next
  case False
  let ?s = "wg_submit i s"
  note D = wg_invD[OF inv]
  have "agents s = 0" using D(5) False by simp
  then have none: "batch_writers s = 0" "wg_committer s \<notin> {CpRun, CpEnd}" "\<not> wg_hand_over s"
    by (auto simp: agents_def split: if_splits)
  have clear: "wg_slot s ! j \<noteq> Queued \<and> wg_slot s ! j \<noteq> InBatch" if "j < n" for j
    using D(6,7)[OF that] False none batch_writers_none[of s] D(1) by (auto simp: in_batch_def)
  have s: "?s = set_wp i WpRun (take_queue (i + 2) (s\<lparr>wg_sampled := (wg_sampled s)[i := wg_sleeping s],
      wg_slot := (wg_slot s)[i := Queued], wg_running := True\<rparr>))"
    using False by (simp add: wg_submit_def Let_def)
  have slot: "wg_slot ?s ! j = (if j = i then InBatch else wg_slot s ! j)" if "j < n" for j
    using that clear[OF that] i D(2) by (simp add: s take_queue_def nth_list_update)
  have bw: "batch_writers ?s = 1"
    using batch_writers_upd[of i s ?s WpRun] D(1) i none by (simp add: s take_queue_def)
  show ?thesis
  proof (rule wg_invI)
    show "slot_fits (wg_wp ?s ! j) (wg_slot ?s ! j)" if "j < n" for j
      using D(4)[OF that] D(1) that i slot[OF that] by (auto simp: s take_queue_def nth_list_update slot_fits_def)
    show "agents ?s = of_bool (wg_running ?s)" using none bw by (simp add: agents_def s take_queue_def)
    show "wg_committer ?s = CpRun \<or> (\<exists>j < n. wg_wp ?s ! j = WpRun)" if "j < n" "wg_slot ?s ! j = InBatch" for j
      using i D(1) by (auto simp: s take_queue_def nth_list_update)
    show "\<exists>j < n. wg_wp ?s ! j = WpNotify" if "wg_wake_owed ?s"
      using that D(15) update_keeps[of n "wg_wp s" WpNotify i WpRun] i D(1) by (simp add: s take_queue_def)
  qed (use D i none in \<open>simp_all add: s take_queue_def\<close>)
qed

lemma run_batch_simps [simp]:
  "wg_sampled (run_batch s) = wg_sampled s" "wg_committer (run_batch s) = wg_committer s"
  "wg_batch_owner (run_batch s) = wg_batch_owner s" "wg_running (run_batch s) = wg_running s"
  "wg_hand_over (run_batch s) = wg_hand_over s" "wg_sleeping (run_batch s) = wg_sleeping s"
  "wg_parked (run_batch s) = wg_parked s" "wg_wake_pending (run_batch s) = wg_wake_pending s"
  "wg_wake_owed (run_batch s) = wg_wake_owed s"
  by (simp_all add: run_batch_def)

lemma run_batch_nth:
  assumes "wg_inv n s" and "i < n"
  shows "wg_wp (run_batch s) ! i = (if wg_slot s ! i = InBatch \<and> wg_wp s ! i = WpWaiting then WpFinished else wg_wp s ! i)"
    and "wg_slot (run_batch s) ! i = (if wg_slot s ! i = InBatch then Executed else wg_slot s ! i)"
    and "length (wg_wp (run_batch s)) = n" "length (wg_slot (run_batch s)) = n"
  using assms by (auto simp: wg_inv_def run_batch_def)

lemma run_batch_writers:
  assumes "wg_inv n s"
  shows "batch_writers (run_batch s) = batch_writers s"
proof -
  have "length ps = length xs \<Longrightarrow>
      length (filter in_batch (map2 (\<lambda>p x. if x = InBatch \<and> p = WpWaiting then WpFinished else p) ps xs)) =
      length (filter in_batch ps)" for ps xs
    by (induction ps xs rule: list_induct2) (auto simp: in_batch_def)
  then show ?thesis using assms by (simp add: batch_writers_def run_batch_def wg_inv_def)
qed

lemma run_batch_fits:
  assumes "slot_fits p x" and "p = WpRun \<Longrightarrow> e" and "e \<Longrightarrow> p = WpRun"
  shows "slot_fits (if e then WpEnd else if x = InBatch \<and> p = WpWaiting then WpFinished else p) (if x = InBatch then Executed else x)"
  using assms by (cases p; cases x) (auto simp: slot_fits_def)

lemma run_inv:
  assumes inv: "wg_inv n s" and i: "i < n" "wg_wp s ! i = WpRun"
  shows "wg_inv n (set_wp i WpEnd (run_batch s))"
proof -
  let ?s = "set_wp i WpEnd (run_batch s)"
  note D = wg_invD[OF inv]
  have ib: "in_batch (wg_wp s ! i)" using i by simp
  note nth = run_batch_nth[OF inv]
  have len: "length (wg_wp (run_batch s)) = n" "length (wg_slot (run_batch s)) = n" using nth(3,4)[OF i(1)] .
  have wp: "wg_wp ?s ! j = (if j = i then WpEnd else if wg_slot s ! j = InBatch \<and> wg_wp s ! j = WpWaiting then WpFinished else wg_wp s ! j)"
    if "j < n" for j using that nth(1)[OF that] len by (simp add: nth_list_update)
  have slot: "wg_slot ?s ! j = (if wg_slot s ! j = InBatch then Executed else wg_slot s ! j)" if "j < n" for j
    using nth(2)[OF that] by simp
  have bw: "batch_writers ?s = batch_writers s"
    using batch_writers_upd[of i "run_batch s" ?s WpEnd] run_batch_writers[OF inv] nth(1)[OF i(1)] len i
    by simp
  show ?thesis
  proof (rule wg_invI)
    show "slot_fits (wg_wp ?s ! j) (wg_slot ?s ! j)" if "j < n" for j
      unfolding wp[OF that] slot[OF that]
      by (rule run_batch_fits[OF D(4)[OF that]]) (use only_batch_writer[OF inv i(1) ib that] i(2) in auto)
    show "agents ?s = of_bool (wg_running ?s)" using D(5) bw by (simp add: agents_def)
    show "wg_committer ?s = CpRun \<or> (\<exists>j < n. wg_wp ?s ! j = WpRun)" if "j < n" "wg_slot ?s ! j = InBatch" for j
      using that(2) unfolding slot[OF that(1)] by (simp split: if_splits)
    show "wg_running ?s" if "j < n" "wg_slot ?s ! j = Queued" for j
      using that(2) D(6)[OF that(1)] unfolding slot[OF that(1)] by (simp split: if_splits)
    show "\<exists>j < n. wg_wp ?s ! j = WpNotify" if owed: "wg_wake_owed ?s"
    proof -
      obtain j where j: "j < n" "wg_wp s ! j = WpNotify" using D(15) owed by auto
      then have "wg_wp ?s ! j = WpNotify" using wp[OF j(1)] i by auto
      then show ?thesis using j(1) by blast
    qed
  qed (use D len bw in \<open>simp_all\<close>)
qed

lemma committer_run_inv:
  assumes inv: "wg_inv n s" and c: "wg_committer s = CpRun"
  shows "wg_inv n ((run_batch s)\<lparr>wg_committer := CpEnd\<rparr>)"
proof -
  let ?s = "(run_batch s)\<lparr>wg_committer := CpEnd\<rparr>"
  note D = wg_invD[OF inv]
  note nth = run_batch_nth[OF inv]
  have len: "length (wg_wp (run_batch s)) = n" "length (wg_slot (run_batch s)) = n" using D(1,2) by (simp_all add: run_batch_def)
  have wp: "wg_wp ?s ! j = (if False then WpEnd else if wg_slot s ! j = InBatch \<and> wg_wp s ! j = WpWaiting then WpFinished else wg_wp s ! j)"
    if "j < n" for j using nth(1)[OF that] by simp
  have slot: "wg_slot ?s ! j = (if wg_slot s ! j = InBatch then Executed else wg_slot s ! j)" if "j < n" for j
    using nth(2)[OF that] by simp
  have none: "batch_writers s = 0" using committer_alone(2)[OF inv] c by simp
  have bw: "batch_writers ?s = 0" using run_batch_writers[OF inv] none by (simp add: batch_writers_def)
  show ?thesis
  proof (rule wg_invI)
    show "slot_fits (wg_wp ?s ! j) (wg_slot ?s ! j)" if "j < n" for j
      unfolding wp[OF that] slot[OF that]
      by (rule run_batch_fits[OF D(4)[OF that]]) (use no_batch_writer[OF inv none that] in auto)
    show "agents ?s = of_bool (wg_running ?s)" using D(5) bw none c by (simp add: agents_def)
    show "wg_committer ?s = CpRun \<or> (\<exists>j < n. wg_wp ?s ! j = WpRun)" if "j < n" "wg_slot ?s ! j = InBatch" for j
      using that(2) unfolding slot[OF that(1)] by (simp split: if_splits)
    show "wg_running ?s" if "j < n" "wg_slot ?s ! j = Queued" for j
      using that(2) D(6)[OF that(1)] unfolding slot[OF that(1)] by (simp split: if_splits)
    show "\<exists>j < n. wg_wp ?s ! j = WpNotify" if owed: "wg_wake_owed ?s"
    proof -
      obtain j where j: "j < n" "wg_wp s ! j = WpNotify" using D(15) owed by auto
      then have "wg_wp ?s ! j = WpNotify" using wp[OF j(1)] by auto
      then show ?thesis using j(1) by blast
    qed
  qed (use D len bw c in \<open>simp_all\<close>)
qed

lemma queued_nth: "wg_inv n s \<Longrightarrow> wg_queued s \<longleftrightarrow> (\<exists>j < n. wg_slot s ! j = Queued)"
  using wg_invD(2) by (simp add: wg_queued_def list_ex_length)

lemma end_inv:
  assumes inv: "wg_inv n s" and i: "i < n" "wg_wp s ! i = WpEnd"
  shows "wg_inv n (wg_end HandoverNone i s)"
proof -
  let ?s = "wg_end HandoverNone i s"
  note D = wg_invD[OF inv]
  have ib: "in_batch (wg_wp s ! i)" using i by simp
  note one = one_agent[OF inv i(1) ib]
  define p where "p = (if wg_queued s \<and> wg_sleeping s then WpNotify else WpFinished)"
  have p: "p \<in> {WpNotify, WpFinished}" "\<not> in_batch p" by (simp_all add: p_def)
  have q: "wg_queued (s\<lparr>wg_batch_owner := 0\<rparr>) = wg_queued s" by (simp add: wg_queued_def)
  have f: "wg_wp ?s = (wg_wp s)[i := p]" "wg_slot ?s = wg_slot s" "wg_sampled ?s = wg_sampled s" "wg_committer ?s = wg_committer s"
    "wg_batch_owner ?s = 0" "wg_running ?s = wg_queued s" "wg_hand_over ?s = wg_queued s" "wg_sleeping ?s = wg_sleeping s"
    "wg_parked ?s = wg_parked s" "wg_wake_pending ?s = wg_wake_pending s"
    "wg_wake_owed ?s = (if wg_queued s then wg_sleeping s else wg_wake_owed s)"
    using one by (auto simp: wg_end_def Let_def wake_decided_def p_def q)
  have bw: "batch_writers ?s = 0"
    using batch_writers_upd[of i s ?s p] D(1) i one(2) f(1) p(2) by simp
  show ?thesis
  proof (rule wg_invI)
    show "slot_fits (wg_wp ?s ! j) (wg_slot ?s ! j)" if "j < n" for j
      using D(4)[OF that] D(1) i p that by (cases "j = i") (auto simp: f slot_fits_def)
    show "agents ?s = of_bool (wg_running ?s)" using bw one(3) by (simp add: agents_def f)
    show "wg_running ?s" if "j < n" "wg_slot ?s ! j = Queued" for j
      using that by (auto simp: f queued_nth[OF inv])
    show "wg_committer ?s = CpRun \<or> (\<exists>j < n. wg_wp ?s ! j = WpRun)" if j: "j < n" "wg_slot ?s ! j = InBatch" for j
    proof -
      obtain k where "k < n" "wg_wp s ! k = WpRun" using D(7)[OF j(1)] j(2) one(3) by (auto simp: f)
      then show ?thesis using only_batch_writer[OF inv i(1) ib, of k] i(2) by simp
    qed
    show "\<exists>j < n. wg_wp ?s ! j = WpNotify" if "wg_wake_owed ?s"
      using that D(1,15) i update_keeps[of n "wg_wp s" WpNotify i p]
      by (cases "wg_queued s") (auto simp: f p_def nth_list_update)
  qed (use D bw one in \<open>simp_all add: f\<close>)
qed

lemma notify_inv:
  assumes inv: "wg_inv n s" and i: "i < n" "wg_wp s ! i = WpNotify"
  shows "wg_inv n (wg_notify i s)"
proof -
  let ?s = "wg_notify i s"
  note D = wg_invD[OF inv]
  have f: "wg_wp ?s = (wg_wp s)[i := WpFinished]" "wg_slot ?s = wg_slot s" "wg_sampled ?s = wg_sampled s"
    "wg_committer ?s = wg_committer s" "wg_batch_owner ?s = wg_batch_owner s" "wg_running ?s = wg_running s"
    "wg_hand_over ?s = wg_hand_over s" "wg_sleeping ?s = wg_sleeping s" "\<not> wg_parked ?s"
    "wg_wake_pending ?s \<longleftrightarrow> wg_parked s \<or> wg_wake_pending s" "\<not> wg_wake_owed ?s"
    by (simp_all add: wg_notify_def Let_def)
  have bw: "batch_writers ?s = batch_writers s"
    using batch_writers_upd[of i s ?s WpFinished] D(1) i f(1) by simp
  show ?thesis
  proof (rule wg_invI)
    show "slot_fits (wg_wp ?s ! j) (wg_slot ?s ! j)" if "j < n" for j
      using D(4)[OF that] D(1) i that by (cases "j = i") (auto simp: f slot_fits_def)
    show "agents ?s = of_bool (wg_running ?s)" using D(5) bw by (simp add: agents_def f)
    show "wg_committer ?s = CpRun \<or> (\<exists>j < n. wg_wp ?s ! j = WpRun)" if "j < n" "wg_slot ?s ! j = InBatch" for j
      using D(7)[OF that(1)] that(2) update_keeps[of n "wg_wp s" WpRun i WpFinished] i D(1) by (auto simp: f)
  qed (use D bw in \<open>simp_all add: f\<close>)
qed

lemma take_queue_simps [simp]:
  "wg_wp (take_queue w s) = wg_wp s" "wg_sampled (take_queue w s) = wg_sampled s" "wg_committer (take_queue w s) = wg_committer s"
  "wg_batch_owner (take_queue w s) = w mod 256" "wg_running (take_queue w s) = wg_running s"
  "wg_hand_over (take_queue w s) = wg_hand_over s" "wg_sleeping (take_queue w s) = wg_sleeping s"
  "wg_parked (take_queue w s) = wg_parked s" "wg_wake_pending (take_queue w s) = wg_wake_pending s"
  "wg_wake_owed (take_queue w s) = wg_wake_owed s" "length (wg_slot (take_queue w s)) = length (wg_slot s)"
  "i < length (wg_slot s) \<Longrightarrow> wg_slot (take_queue w s) ! i = (if wg_slot s ! i = Queued then InBatch else wg_slot s ! i)"
  by (simp_all add: take_queue_def)

text \<open>The committer takes the queue: at the gate when it was handed over, or at the end of a batch.\<close>

lemma take_inv:
  assumes inv: "wg_inv n s" and bw: "batch_writers s = 0" and run: "wg_running s" and c: "wg_committer s \<noteq> CpParked"
    and s': "s' = (take_queue 1 s)\<lparr>wg_hand_over := False, wg_committer := CpRun\<rparr>"
  shows "wg_inv n s'"
proof -
  note D = wg_invD[OF inv]
  have bw': "batch_writers s' = 0" using bw by (simp add: s' batch_writers_def)
  show ?thesis
  proof (rule wg_invI)
    show "slot_fits (wg_wp s' ! j) (wg_slot s' ! j)" if "j < n" for j
      using D(4)[OF that] D(2) that by (auto simp: s' slot_fits_def)
    show "agents s' = of_bool (wg_running s')" using bw' run by (simp add: agents_def s')
    show "wg_running s'" if "j < n" "wg_slot s' ! j = Queued" for j using run by (simp add: s')
  qed (use D bw' c in \<open>simp_all add: s'\<close>)
qed

lemma gate_inv:
  assumes inv: "wg_inv n s" and c: "wg_committer s = CpGate"
  shows "wg_inv n (committer_gate HandoverNone s)"
proof (cases "wg_hand_over s")
  case True
  have "committer_gate HandoverNone s = (take_queue 1 s)\<lparr>wg_hand_over := False, wg_committer := CpRun\<rparr>"
    using True by (cases s) (simp add: committer_gate_def take_queue_def)
  then show ?thesis using take_inv[OF inv handed_over_alone(2,1)[OF inv True]] c by simp
next
  case False
  let ?s = "committer_gate HandoverNone s"
  note D = wg_invD[OF inv]
  have s: "?s = s\<lparr>wg_sleeping := True, wg_parked := True, wg_committer := CpParked\<rparr>"
    using False by (simp add: committer_gate_def)
  have bw: "batch_writers ?s = batch_writers s" by (simp add: s batch_writers_def)
  show ?thesis
  proof (rule wg_invI)
    show "agents ?s = of_bool (wg_running ?s)" using D(5) bw c by (simp add: agents_def s)
    show "wg_committer ?s = CpRun \<or> (\<exists>j < n. wg_wp ?s ! j = WpRun)" if "j < n" "wg_slot ?s ! j = InBatch" for j
      using D(7) that c by (simp add: s)
    show "\<not> wg_wake_pending ?s" using D(12) c by (simp add: s)
  qed (use D bw False in \<open>simp_all add: s\<close>)
qed

lemma wake_inv:
  assumes inv: "wg_inv n s" and c: "wg_committer s = CpParked" "wg_wake_pending s"
  shows "wg_inv n (committer_wake HandoverNone s)"
proof -
  let ?s = "committer_wake HandoverNone s"
  note D = wg_invD[OF inv]
  have s: "?s = s\<lparr>wg_wake_pending := False, wg_sleeping := False, wg_committer := CpGate\<rparr>"
    by (simp add: committer_wake_def)
  have bw: "batch_writers ?s = batch_writers s" by (simp add: s batch_writers_def)
  have p: "\<not> wg_parked s" using D(11) c(2) by blast
  show ?thesis
  proof (rule wg_invI)
    show "agents ?s = of_bool (wg_running ?s)" using D(5) bw c by (simp add: agents_def s)
    show "wg_committer ?s = CpRun \<or> (\<exists>j < n. wg_wp ?s ! j = WpRun)" if "j < n" "wg_slot ?s ! j = InBatch" for j
      using D(7) that c by (simp add: s)
  qed (use D bw p in \<open>simp_all add: s\<close>)
qed

lemma committer_end_inv:
  assumes inv: "wg_inv n s" and c: "wg_committer s = CpEnd"
  shows "wg_inv n (committer_end s)"
proof (cases "wg_queued s")
  case True
  note alone = committer_alone[OF inv, unfolded c, simplified]
  have "committer_end s = (take_queue 1 s)\<lparr>wg_hand_over := False, wg_committer := CpRun\<rparr>"
    using True alone(3) by (cases s) (simp add: committer_end_def take_queue_def)
  then show ?thesis using take_inv[OF inv alone(2,1)] c by simp
next
  case False
  let ?s = "committer_end s"
  note D = wg_invD[OF inv]
  note alone = committer_alone[OF inv, unfolded c, simplified]
  have s: "?s = s\<lparr>wg_running := False, wg_committer := CpGate\<rparr>" using False by (simp add: committer_end_def)
  have bw: "batch_writers ?s = 0" using alone(2) by (simp add: s batch_writers_def)
  show ?thesis
  proof (rule wg_invI)
    show "agents ?s = of_bool (wg_running ?s)" using bw alone by (simp add: agents_def s)
    show "wg_running ?s" if "j < n" "wg_slot ?s ! j = Queued" for j using that False by (auto simp: s queued_nth[OF inv])
    show "wg_committer ?s = CpRun \<or> (\<exists>j < n. wg_wp ?s ! j = WpRun)" if "j < n" "wg_slot ?s ! j = InBatch" for j
      using D(7) that c no_batch_writer[OF inv alone(2)] by (auto simp: s in_batch_def)
  qed (use D bw c alone in \<open>simp_all add: s\<close>)
qed

lemma wg_apply_inv:
  assumes inv: "wg_inv n s" and a: "a \<in> set (wg_enabled n s)"
  shows "wg_inv n (wg_apply HandoverNone s a)"
proof (cases a)
  case Committer
  then have "wg_committer s \<noteq> CpParked \<or> wg_wake_pending s" using a by (auto simp: wg_enabled_def split: if_splits)
  then show ?thesis
    using Committer gate_inv[OF inv] wake_inv[OF inv] committer_run_inv[OF inv] committer_end_inv[OF inv]
    by (cases "wg_committer s") (simp_all add: wg_apply_def)
next
  case (Writer i)
  then have "i < n" "wg_wp s ! i \<in> {WpIdle, WpRun, WpEnd, WpNotify}" using a by (auto simp: wg_enabled_def)
  then show ?thesis
    using Writer submit_inv[OF inv] run_inv[OF inv] end_inv[OF inv] notify_inv[OF inv] by (auto simp: wg_apply_def)
qed

lemma wg_init_inv: "n < 128 \<Longrightarrow> wg_inv n (wg_init n)"
  by (rule wg_invI) (simp_all add: wg_init_def slot_fits_def agents_def batch_writers_def)

section \<open>The check and the absence of hangs\<close>

lemma wg_check_ok:
  assumes inv: "wg_inv n s"
  shows "wg_check s = None"
proof (cases "wg_queued s")
  case True
  note D = wg_invD[OF inv]
  have run: "wg_running s" using True D(6) by (auto simp: queued_nth[OF inv])
  then have "batch_writers s > 0 \<or> wg_committer s \<in> {CpRun, CpEnd} \<or> wg_hand_over s"
    using D(5) by (auto simp: agents_def of_bool_def split: if_splits)
  then show ?thesis using run D(8,14) by (auto simp: wg_check_def)
qed (simp add: wg_check_def)

lemma wg_no_hang:
  assumes inv: "wg_inv n s" and live: "\<not> wg_done s"
  shows "wg_enabled n s \<noteq> []"
proof
  assume none: "wg_enabled n s = []"
  note D = wg_invD[OF inv]
  have idle: "wg_wp s ! i \<notin> {WpIdle, WpRun, WpEnd, WpNotify}" if "i < n" for i
    using none that by (auto simp: wg_enabled_def filter_empty_conv)
  have parked: "wg_committer s = CpParked" "\<not> wg_wake_pending s"
    using none by (auto simp: wg_enabled_def split: if_splits)
  obtain i where i: "i < n" "wg_wp s ! i \<noteq> WpFinished" using live D(1) by (auto simp: wg_done_def list_all_length)
  then have "wg_wp s ! i = WpWaiting" using idle[of i] by (cases "wg_wp s ! i") auto
  then have "wg_slot s ! i = Queued" using D(4,7)[OF i(1)] idle parked by (auto simp: slot_fits_def)
  then have "agents s = 1" using D(5,6) i(1) by simp
  moreover have "batch_writers s = 0" using batch_writers_none[of s] idle D(1) by (auto simp: in_batch_def)
  ultimately have "wg_hand_over s" using parked by (auto simp: agents_def of_bool_def split: if_splits)
  then show False using D(12,14,15) parked idle by auto
qed

section \<open>Every run ends\<close>

fun wp_rank :: "Wp \<Rightarrow> nat" where
  "wp_rank WpIdle = 5"
| "wp_rank WpRun = 4"
| "wp_rank WpEnd = 3"
| "wp_rank WpNotify = 2"
| "wp_rank WpWaiting = 1"
| "wp_rank WpFinished = 0"

fun cp_rank :: "Cp \<Rightarrow> nat" where
  "cp_rank CpParked = 0"
| "cp_rank CpGate = 1"
| "cp_rank CpEnd = 2"
| "cp_rank CpRun = 3"

definition queue_size :: "WGState \<Rightarrow> nat" where
  "queue_size s = length (filter (\<lambda>x. x = Queued) (wg_slot s))"

definition wp_ranks :: "WGState \<Rightarrow> nat" where
  "wp_ranks s = sum_list (map wp_rank (wg_wp s))"

definition wg_rank :: "WGState \<Rightarrow> nat" where
  "wg_rank s = 4 * wp_ranks s + cp_rank (wg_committer s) + 3 * of_bool (wg_hand_over s) +
     2 * of_bool (wg_wake_pending s) + 2 * queue_size s"

lemma wp_ranks_set: "i < length (wg_wp s) \<Longrightarrow> wp_ranks (set_wp i p s) + wp_rank (wg_wp s ! i) = wp_ranks s + wp_rank p"
  unfolding wp_ranks_def using sum_list_update[of i "wg_wp s" wp_rank p] by simp

lemma queue_size_set [simp]: "queue_size (set_wp i p s) = queue_size s"
  by (simp add: queue_size_def)

lemma take_queue_ranks [simp]: "queue_size (take_queue w s) = 0" "wp_ranks (take_queue w s) = wp_ranks s"
  by (simp_all add: queue_size_def wp_ranks_def take_queue_def filter_empty_conv)

lemma run_batch_ranks:
  assumes "length (wg_wp s) = length (wg_slot s)"
  shows "queue_size (run_batch s) = queue_size s" "wp_ranks (run_batch s) \<le> wp_ranks s"
proof -
  show "queue_size (run_batch s) = queue_size s"
  proof -
    have "length (filter (\<lambda>x. x = Queued) (map (\<lambda>x. if x = InBatch then Executed else x) xs)) =
      length (filter (\<lambda>x. x = Queued) xs)" for xs by (induction xs) auto
    then show ?thesis by (simp add: queue_size_def run_batch_def)
  qed
  have "length ps = length xs \<Longrightarrow>
      sum_list (map wp_rank (map2 (\<lambda>p x. if x = InBatch \<and> p = WpWaiting then WpFinished else p) ps xs)) \<le>
      sum_list (map wp_rank ps)" for ps xs
    by (induction ps xs rule: list_induct2) auto
  then show "wp_ranks (run_batch s) \<le> wp_ranks s" using assms unfolding wp_ranks_def run_batch_def by simp
qed

lemma writer_rank:
  assumes inv: "wg_inv n s" and i: "i < n" "wg_wp s ! i \<in> {WpIdle, WpRun, WpEnd, WpNotify}"
  shows "wg_rank (wg_apply HandoverNone s (Writer i)) < wg_rank s"
proof -
  note D = wg_invD[OF inv]
  have len: "i < length (wg_wp s)" "i < length (wg_slot s)" "length (wg_wp s) = length (wg_slot s)" using D i by auto
  consider "wg_wp s ! i = WpIdle" | "wg_wp s ! i = WpRun" | "wg_wp s ! i = WpEnd" | "wg_wp s ! i = WpNotify"
    using i by auto
  then show ?thesis
  proof cases
    case 1
    let ?t = "s\<lparr>wg_sampled := (wg_sampled s)[i := wg_sleeping s], wg_slot := (wg_slot s)[i := Queued]\<rparr>"
    have q: "queue_size ?t \<le> queue_size s + 1"
      using count_update[OF len(2), of "\<lambda>x. x = Queued" Queued] by (simp add: queue_size_def)
    have w: "wp_ranks (?t\<lparr>wg_running := True\<rparr>) = wp_ranks s" "wp_ranks ?t = wp_ranks s" by (simp_all add: wp_ranks_def)
    show ?thesis
      using 1 q w wp_ranks_set[of i ?t WpWaiting] wp_ranks_set[of i "take_queue (i + 2) (?t\<lparr>wg_running := True\<rparr>)" WpRun] len
      by (auto simp: wg_apply_def wg_submit_def Let_def wg_rank_def)
  next
    case 2
    then show ?thesis
      using run_batch_ranks[OF len(3)] run_batch_nth[OF inv i(1)] i(1) wp_ranks_set[of i "run_batch s" WpEnd]
      by (auto simp: wg_apply_def wg_rank_def)
  next
    case 3
    have ho: "\<not> wg_hand_over s" using one_agent(4)[OF inv i(1)] 3 by simp
    have w: "wp_ranks (s\<lparr>wg_batch_owner := 0, wg_hand_over := h, wg_wake_owed := o'\<rparr>) = wp_ranks s"
      "wp_ranks (s\<lparr>wg_batch_owner := 0, wg_running := r\<rparr>) = wp_ranks s"
      "queue_size (s\<lparr>wg_batch_owner := 0, wg_hand_over := h, wg_wake_owed := o'\<rparr>) = queue_size s"
      "queue_size (s\<lparr>wg_batch_owner := 0, wg_running := r\<rparr>) = queue_size s" for h o' r
      by (simp_all add: wp_ranks_def queue_size_def)
    have f: "wp_ranks (set_wp i p t) + 3 = wp_ranks t + wp_rank p" if "wg_wp t = wg_wp s" for t p
      using wp_ranks_set[of i t p] that len 3 by simp
    show ?thesis
      using 3 ho f[of "s\<lparr>wg_batch_owner := 0, wg_hand_over := True, wg_wake_owed := True\<rparr>" WpNotify]
        f[of "s\<lparr>wg_batch_owner := 0, wg_hand_over := True, wg_wake_owed := False\<rparr>" WpFinished]
        f[of "s\<lparr>wg_batch_owner := 0, wg_running := False\<rparr>" WpFinished]
      by (auto simp: wg_apply_def wg_end_def Let_def wg_rank_def wake_decided_def w)
  next
    case 4
    let ?t = "(if wg_parked s then s\<lparr>wg_parked := False, wg_wake_pending := True\<rparr> else s)\<lparr>wg_wake_owed := False\<rparr>"
    have "wp_ranks ?t = wp_ranks s" "queue_size ?t = queue_size s" by (simp_all add: wp_ranks_def queue_size_def)
    then show ?thesis using 4 wp_ranks_set[of i ?t WpFinished] len
      by (auto simp: wg_apply_def wg_notify_def Let_def wg_rank_def)
  qed
qed

lemma committer_rank:
  assumes inv: "wg_inv n s" and c: "wg_committer s \<noteq> CpParked \<or> wg_wake_pending s"
  shows "wg_rank (wg_apply HandoverNone s Committer) < wg_rank s"
proof -
  note D = wg_invD[OF inv]
  have w: "wp_ranks (s'\<lparr>wg_committer := c'\<rparr>) = wp_ranks s'" "queue_size (s'\<lparr>wg_committer := c'\<rparr>) = queue_size s'"
    "wp_ranks (s'\<lparr>wg_hand_over := b\<rparr>) = wp_ranks s'" "queue_size (s'\<lparr>wg_hand_over := b\<rparr>) = queue_size s'"
    "wp_ranks (s'\<lparr>wg_running := b\<rparr>) = wp_ranks s'" "queue_size (s'\<lparr>wg_running := b\<rparr>) = queue_size s'"
    "wp_ranks (s'\<lparr>wg_sleeping := b\<rparr>) = wp_ranks s'" "queue_size (s'\<lparr>wg_sleeping := b\<rparr>) = queue_size s'"
    "wp_ranks (s'\<lparr>wg_parked := b\<rparr>) = wp_ranks s'" "queue_size (s'\<lparr>wg_parked := b\<rparr>) = queue_size s'"
    "wp_ranks (s'\<lparr>wg_wake_pending := b\<rparr>) = wp_ranks s'" "queue_size (s'\<lparr>wg_wake_pending := b\<rparr>) = queue_size s'"
    for s' c' b by (simp_all add: wp_ranks_def queue_size_def)
  show ?thesis
  proof (cases "wg_committer s")
    case CpGate
    then show ?thesis by (simp add: wg_apply_def committer_gate_def wg_rank_def w)
  next
    case CpParked
    then show ?thesis using c by (simp add: wg_apply_def committer_wake_def wg_rank_def w)
  next
    case CpRun
    then show ?thesis using run_batch_ranks[of s] D(1,2) by (simp add: wg_apply_def wg_rank_def w)
  next
    case CpEnd
    have "queue_size s > 0" if "wg_queued s"
      using that by (induction "wg_slot s") (auto simp: wg_queued_def queue_size_def list_ex_iff filter_empty_conv)
    then show ?thesis using CpEnd by (auto simp: wg_apply_def committer_end_def wg_rank_def w)
  qed
qed

lemma wg_rank_step:
  assumes "wg_inv n s" and "a \<in> set (wg_enabled n s)"
  shows "wg_rank (wg_apply HandoverNone s a) < wg_rank s"
  using assms writer_rank[OF assms(1)] committer_rank[OF assms(1)]
  by (cases a) (auto simp: wg_enabled_def split: if_splits)

lemma wg_rank_init: "wg_rank (wg_init n) = 20 * n + 1"
  by (simp add: wg_rank_def wg_init_def wp_ranks_def queue_size_def sum_list_replicate)

interpretation handover: protocol "WriteGroupModel (unat w) HandoverNone" "wg_init (unat w)" "wg_inv (unat w)" wg_rank
  for w :: "7 word"
proof unfold_locales
  show "wg_inv (unat w) (wg_init (unat w))"
    using wg_init_inv unsigned_less[of w, where ?'a = nat] by simp
  fix s a
  assume inv: "wg_inv (unat w) s"
  show "Check (WriteGroupModel (unat w) HandoverNone) s = None" using wg_check_ok[OF inv] by simp
  show "Enabled (WriteGroupModel (unat w) HandoverNone) s \<noteq> []" if "\<not> Done (WriteGroupModel (unat w) HandoverNone) s"
    using wg_no_hang[OF inv] that by simp
  assume a: "a \<in> set (Enabled (WriteGroupModel (unat w) HandoverNone) s)"
  show "wg_inv (unat w) (Apply (WriteGroupModel (unat w) HandoverNone) s a)"
    using wg_apply_inv[OF inv] a by simp
  show "wg_rank (Apply (WriteGroupModel (unat w) HandoverNone) s a) < wg_rank s" using wg_rank_step[OF inv] a by simp
qed

text \<open>The key tells any two states apart while the owner of a batch fits its four bits.\<close>

lemma wg_key_exact:
  assumes inv: "wg_inv n s" "wg_inv n s'" and n: "n \<le> 14" and key: "wg_key s = wg_key s'"
  shows "s = s'"
proof -
  have fit: "fits (wg_fields x)" if "wg_inv n x" for x
  proof -
    note D = wg_invD[OF that]
    have "wp_code p < 8" for p by (cases p) auto
    moreover have "slot_code c < 4" for c by (cases c) auto
    moreover have "cp_code d < 4" for d by (cases d) auto
    moreover have "wg_batch_owner x < 16" using D(9) n by simp
    moreover have "sum_list (map snd (wg_fields x)) = 6 * n + 12"
      using D(1-3) by (simp add: wg_fields_def sum_list_triv comp_def)
    ultimately show ?thesis using n by (auto simp: fits_def wg_fields_def)
  qed
  note L = wg_invD(1-3)[OF inv(1)] wg_invD(1-3)[OF inv(2)]
  have "map snd (wg_fields s) = map snd (wg_fields s')" using L by (simp add: wg_fields_def map_replicate_const comp_def)
  from kb_pack_inj[OF kb_done_inj this fit[OF inv(1)] fit[OF inv(2)]] key
  have eq: "wg_fields s = wg_fields s'" by (simp add: wg_key_def)
  have "inj (\<lambda>p. (wp_code p, 3::nat))" "inj (\<lambda>x. (slot_code x, 2::nat))" "inj (\<lambda>b::bool. (of_bool b :: nat, 1::nat))"
    by (rule injI; rename_tac x y; case_tac x; case_tac y; simp)+
  moreover have "map (\<lambda>p. (wp_code p, 3::nat)) (wg_wp s) = map (\<lambda>p. (wp_code p, 3)) (wg_wp s')"
    "map (\<lambda>x. (slot_code x, 2::nat)) (wg_slot s) = map (\<lambda>x. (slot_code x, 2)) (wg_slot s')"
    "map (\<lambda>b. (of_bool b :: nat, 1::nat)) (wg_sampled s) = map (\<lambda>b. (of_bool b, 1)) (wg_sampled s')"
    using eq L by (auto simp: wg_fields_def)
  ultimately have "wg_wp s = wg_wp s'" "wg_slot s = wg_slot s'" "wg_sampled s = wg_sampled s'"
    by (auto dest: map_injective)
  moreover have "cp_code c = cp_code c' \<Longrightarrow> c = c'" for c c' by (cases c; cases c') auto
  ultimately show ?thesis using eq by (cases s; cases s') (auto simp: wg_fields_def of_bool_def split: if_splits)
qed


section \<open>Properties\<close>

lemma unat_word7: "n < 128 \<Longrightarrow> unat (word_of_nat n :: 7 word) = n"
  by (simp add: unat_of_nat)

text \<open>
  C18. In every state that any interleaving of up to 127 writers and the committer reaches: queued slots
  imply a running batch or a committer told to run one, no state is stuck, at most one thread holds
  or is owed the batch, and a writer has returned only when its slot was executed.
\<close>

theorem handover_safe:
  assumes "n < 128" and "steps (WriteGroupModel n HandoverNone) (wg_init n) k s"
  shows "wg_check s = None \<and> (wg_done s \<or> wg_enabled n s \<noteq> []) \<and> agents s = of_bool (wg_running s) \<and>
    (\<forall>i < n. wg_wp s ! i = WpFinished \<longrightarrow> wg_slot s ! i = Executed)"
proof -
  let ?w = "word_of_nat n :: 7 word"
  have w: "unat ?w = n" using assms(1) by (rule unat_word7)
  have "wg_inv n s" using handover.steps_inv[of ?w, unfolded w, OF assms(2) wg_init_inv[OF assms(1)]] .
  moreover have "state_good (WriteGroupModel n HandoverNone) s" using handover.good[of ?w, unfolded w, OF assms(2)] .
  ultimately show ?thesis using wg_invD(4,5) by (auto simp: state_good_def slot_fits_def)
qed

definition demo_handover_end :: WGState where
  "demo_handover_end = the (run_steps (WriteGroupModel 2 HandoverNone) (wg_init 2) [Writer 0, Writer 1])"

lemma demo_handover_run: "steps (WriteGroupModel 2 HandoverNone) (wg_init 2) 2 demo_handover_end"
proof -
  have "run_steps (WriteGroupModel 2 HandoverNone) (wg_init 2) [Writer 0, Writer 1] = Some demo_handover_end"
    by code_simp
  from run_steps_steps[OF this] show ?thesis by (simp add: numeral_2_eq_2)
qed

theorem handover_safe_witness:
  "(2::nat) < 128 \<and> (\<exists>s. steps (WriteGroupModel 2 HandoverNone) (wg_init 2) 2 s \<and> wg_queued s \<and> wg_check s = None \<and> agents s = 1)"
proof -
  have "wg_queued demo_handover_end" "wg_running demo_handover_end" by code_simp+
  then show ?thesis using handover_safe[OF _ demo_handover_run] demo_handover_run by auto
qed

text \<open>
  C19. Every run of n writers and the committer is at most 20 n + 1 steps long, and from every state it
  reaches all writers can still return: no wake-up is lost.
\<close>

theorem handover_ends:
  assumes "n < 128" and "steps (WriteGroupModel n HandoverNone) (wg_init n) k s"
  shows "k \<le> 20 * n + 1 \<and> (\<exists>j s'. steps (WriteGroupModel n HandoverNone) s j s' \<and> wg_done s') \<and>
    (wg_enabled n s = [] \<longrightarrow> wg_done s)"
proof -
  let ?w = "word_of_nat n :: 7 word"
  have w: "unat ?w = n" using assms(1) by (rule unat_word7)
  show ?thesis
    using handover.bounded[of ?w, unfolded w, OF assms(2)] handover.completable[of ?w, unfolded w, OF assms(2)]
      handover.ends[of ?w, unfolded w, OF assms(2)] by (simp add: wg_rank_init)
qed

theorem handover_ends_witness:
  "(2::nat) < 128 \<and> (\<exists>s j s'. steps (WriteGroupModel 2 HandoverNone) (wg_init 2) 2 s \<and> wg_queued s \<and>
     steps (WriteGroupModel 2 HandoverNone) s j s' \<and> wg_done s')"
proof -
  have "wg_queued demo_handover_end" by code_simp
  then show ?thesis using handover_ends[OF _ demo_handover_run] demo_handover_run by auto
qed

end
