(* ===== verification/TransitionCheck.thy ===== *)
theory TransitionCheck
  imports FlushProtocol HandOver
begin

text \<open>
  The checker's program (\<^verbatim>\<open>verify/transition/main.cpp\<close>): the variants it runs, the sizes it runs them at and
  its exit code. What it prints is left out; a run is the report of the explorer.
\<close>

definition kWGSizes :: "nat list" where
  "kWGSizes = [2, 3, 4, 5, 6]"

definition kFlushSizes :: "nat list" where
  "kFlushSizes = [2, 3, 4, 5]"

datatype Which = WGNone | WGSleepingReadEarly | WGHandOverClearedAtWake | WGWakeSkipped | WFlushNone | WFlushRoleKeptOnThrow

record Variant =
  v_name :: string
  v_which :: Which
  v_writegroup :: bool
  v_mutant :: bool

definition kVariants :: "Variant list" where
  "kVariants =
    [\<lparr>v_name = ''reference'', v_which = WGNone, v_writegroup = True, v_mutant = False\<rparr>,
     \<lparr>v_name = ''sleeping-read-early'', v_which = WGSleepingReadEarly, v_writegroup = True, v_mutant = True\<rparr>,
     \<lparr>v_name = ''hand-over-cleared-at-wake'', v_which = WGHandOverClearedAtWake, v_writegroup = True, v_mutant = True\<rparr>,
     \<lparr>v_name = ''wake-skipped'', v_which = WGWakeSkipped, v_writegroup = True, v_mutant = True\<rparr>,
     \<lparr>v_name = ''flush-reference'', v_which = WFlushNone, v_writegroup = False, v_mutant = False\<rparr>,
     \<lparr>v_name = ''flush-role-kept-on-throw'', v_which = WFlushRoleKeptOnThrow, v_writegroup = False, v_mutant = True\<rparr>]"

definition RunModel :: "('s, 't) Model \<Rightarrow> 's \<Rightarrow> bool" where
  "RunModel m init \<longleftrightarrow> \<not> clean (Explore m init default_options)"

definition RunWGAt :: "HandoverMutant \<Rightarrow> nat \<Rightarrow> bool" where
  "RunWGAt mut n \<longleftrightarrow> n \<in> {2, 3, 4, 5, 6} \<and> RunModel (WriteGroupModel n mut) (wg_init n)"

definition RunFlushAt :: "FlushMutant \<Rightarrow> nat \<Rightarrow> bool" where
  "RunFlushAt mut n \<longleftrightarrow> n \<in> {2, 3, 4, 5} \<and> RunModel (FlushModel n mut) (flush_init n)"

definition RunVariant :: "Variant \<Rightarrow> nat \<Rightarrow> bool" where
  "RunVariant v n =
    (if v_writegroup v
     then (case v_which v of
             WGNone \<Rightarrow> RunWGAt HandoverNone n
           | WGSleepingReadEarly \<Rightarrow> RunWGAt SleepingReadEarly n
           | WGHandOverClearedAtWake \<Rightarrow> RunWGAt HandOverClearedAtWake n
           | WGWakeSkipped \<Rightarrow> RunWGAt WakeSkipped n
           | _ \<Rightarrow> False)
     else (case v_which v of
             WFlushNone \<Rightarrow> RunFlushAt FlushNone n
           | WFlushRoleKeptOnThrow \<Rightarrow> RunFlushAt RoleKeptOnThrow n
           | _ \<Rightarrow> False))"

text \<open>Stops at the first size where the check fails: the last report says whether it did.\<close>

primrec run_sizes :: "Variant \<Rightarrow> bool \<Rightarrow> nat list \<Rightarrow> bool" where
  "run_sizes v r [] = r"
| "run_sizes v r (n # ns) = (if RunVariant v n then True else run_sizes v False ns)"

definition RunOverSizes :: "Variant \<Rightarrow> bool" where
  "RunOverSizes v = run_sizes v False (if v_writegroup v then kWGSizes else kFlushSizes)"

definition strncmp_eq :: "nat \<Rightarrow> string \<Rightarrow> string \<Rightarrow> bool" where
  "strncmp_eq n a b \<longleftrightarrow> take n a = take n b"

text \<open>The arguments: the last \<^verbatim>\<open>--mutant=\<close> wins, \<^verbatim>\<open>--help\<close> ends the program at once, others are ignored.\<close>

fun parse_args :: "string option \<Rightarrow> string list \<Rightarrow> string option option" where
  "parse_args mutant [] = Some mutant"
| "parse_args mutant (a # as) =
    (let mutant' = (if strncmp_eq 9 a ''--mutant='' then Some (drop 9 a) else mutant)
     in if a = ''--help'' then None else parse_args mutant' as)"

definition run_mutant :: "string \<Rightarrow> nat" where
  "run_mutant nm =
    (case List.find (\<lambda>v. v_mutant v \<and> v_name v = nm) kVariants of
       Some v \<Rightarrow> if RunOverSizes v then 1 else 0
     | None \<Rightarrow> 2)"

definition self_check :: nat where
  "self_check =
    (let ok = list_all (\<lambda>v. \<not> RunOverSizes v) (filter (\<lambda>v. \<not> v_mutant v) kVariants) \<and>
              list_all RunOverSizes (filter v_mutant kVariants)
     in if ok then 0 else 1)"

definition transition_main :: "string list \<Rightarrow> nat" where
  "transition_main args =
    (case parse_args None args of
       None \<Rightarrow> 0
     | Some None \<Rightarrow> self_check
     | Some (Some nm) \<Rightarrow> run_mutant nm)"

section \<open>Mutants are caught, references are not\<close>

lemma violated_at:
  assumes "unlimited (explore_walk m lim d init [] ([KeyOf m init], Explored_start))"
    and "\<not> clean (snd (explore_walk m lim d init [] ([KeyOf m init], Explored_start)))" and "lim \<le> 20000000" and "d \<le> 400"
  shows "RunModel m init"
  using walk_mono[OF assms(1), of "state_limit default_options" "depth_limit default_options"] assms(2-4)
  by (auto simp: RunModel_def Explore_def default_options_def split: prod.splits)

definition stops_in_violation :: "walk_state \<Rightarrow> bool" where
  "stops_in_violation st \<longleftrightarrow> unlimited st \<and> \<not> clean (snd st)"

lemma wg_violated_at:
  "stops_in_violation (explore_walk (WriteGroupModel n mut) 60 20 (wg_init n) [] ([wg_key (wg_init n)], Explored_start)) \<Longrightarrow>
   RunModel (WriteGroupModel n mut) (wg_init n)"
  by (rule violated_at[of _ 60 20]) (simp_all add: stops_in_violation_def)

lemma flush_violated_at:
  "stops_in_violation (explore_walk (FlushModel n mut) 60 20 (flush_init n) [] ([flush_key (flush_init n)], Explored_start)) \<Longrightarrow>
   RunModel (FlushModel n mut) (flush_init n)"
  by (rule violated_at[of _ 60 20]) (simp_all add: stops_in_violation_def)

lemma caught_wake_skipped: "RunWGAt WakeSkipped 2"
proof -
  have "stops_in_violation (explore_walk (WriteGroupModel 2 WakeSkipped) 60 20 (wg_init 2) [] ([wg_key (wg_init 2)], Explored_start))"
    by code_simp
  then show ?thesis by (simp add: RunWGAt_def wg_violated_at)
qed

lemma caught_sleeping_read_early: "RunWGAt SleepingReadEarly 2"
proof -
  have "stops_in_violation (explore_walk (WriteGroupModel 2 SleepingReadEarly) 60 20 (wg_init 2) [] ([wg_key (wg_init 2)], Explored_start))"
    by code_simp
  then show ?thesis by (simp add: RunWGAt_def wg_violated_at)
qed

lemma caught_cleared_at_wake: "RunWGAt HandOverClearedAtWake 2"
proof -
  have "stops_in_violation (explore_walk (WriteGroupModel 2 HandOverClearedAtWake) 60 20 (wg_init 2) [] ([wg_key (wg_init 2)], Explored_start))"
    by code_simp
  then show ?thesis by (simp add: RunWGAt_def wg_violated_at)
qed

lemma caught_role_kept: "RunFlushAt RoleKeptOnThrow 2"
proof -
  have "stops_in_violation (explore_walk (FlushModel 2 RoleKeptOnThrow) 60 20 (flush_init 2) [] ([flush_key (flush_init 2)], Explored_start))"
    by code_simp
  then show ?thesis by (simp add: RunFlushAt_def flush_violated_at)
qed

text \<open>The outcomes a reference can have: clean, or stopped by the limit on states.\<close>

definition state_limit_hit :: "('s, 't) Model \<Rightarrow> 's \<Rightarrow> bool" where
  "state_limit_hit m init \<longleftrightarrow> \<not> clean (Explore m init default_options) \<and>
     failure (Explore m init default_options) = ''state limit reached''"

lemma wg_reference:
  assumes "n \<le> 6"
  shows "RunModel (WriteGroupModel n HandoverNone) (wg_init n) \<longleftrightarrow> state_limit_hit (WriteGroupModel n HandoverNone) (wg_init n)"
  using handover.explored[of "word_of_nat n" default_options] assms
  by (auto simp: unat_word7 RunModel_def state_limit_hit_def wg_rank_init default_options_def)

lemma flush_reference:
  assumes "n \<le> 5"
  shows "RunModel (FlushModel n FlushNone) (flush_init n) \<longleftrightarrow> state_limit_hit (FlushModel n FlushNone) (flush_init n)"
proof -
  have "n * (3 * n + 5) \<le> 5 * (3 * 5 + 5)" using assms by (intro mult_mono) auto
  then show ?thesis
    using flush.explored[of "word_of_nat n" default_options] assms
    by (auto simp: unat_count RunModel_def state_limit_hit_def flush_rank_init default_options_def)
qed


section \<open>Properties\<close>

lemma flush_exact_keys:
  assumes "n \<le> 15"
  shows "exact_keys (FlushModel n FlushNone) (flush_init n)"
proof -
  let ?w = "word_of_nat n :: byte"
  have w: "unat ?w = n" using assms by (simp add: unat_count)
  have "flush_inv n s" if "reach (FlushModel n FlushNone) (flush_init n) s" for s
    using reach_steps[OF that] flush.steps_inv[of ?w, unfolded w, OF _ flush_inv_init] by blast
  then show ?thesis using flush_key_exact[OF _ _ assms] by (simp add: exact_keys_def)
qed

lemma wg_exact_keys:
  assumes "n \<le> 14"
  shows "exact_keys (WriteGroupModel n HandoverNone) (wg_init n)"
proof -
  let ?w = "word_of_nat n :: 7 word"
  have w: "unat ?w = n" using assms by (simp add: unat_word7)
  have init: "wg_inv n (wg_init n)" using assms by (simp add: wg_init_inv)
  have "wg_inv n s" if "reach (WriteGroupModel n HandoverNone) (wg_init n) s" for s
    using reach_steps[OF that] handover.steps_inv[of ?w, unfolded w, OF _ init] by blast
  then show ?thesis using wg_key_exact[OF _ _ assms] by (simp add: exact_keys_def)
qed

text \<open>
  C21. The packing of states is exact, so that no state is taken for one seen before, for up to 15 writers
  of the flush protocol and up to 14 of the write group; the program runs at most six.
\<close>

theorem transition_keys_exact:
  "(n \<le> 15 \<longrightarrow> exact_keys (FlushModel n FlushNone) (flush_init n)) \<and>
   (n \<le> 14 \<longrightarrow> exact_keys (WriteGroupModel n HandoverNone) (wg_init n))"
  using flush_exact_keys wg_exact_keys by blast

theorem transition_keys_exact_witness:
  "exact_keys (FlushModel 5 FlushNone) (flush_init 5) \<and> exact_keys (WriteGroupModel 6 HandoverNone) (wg_init 6)"
  using transition_keys_exact[of 5] transition_keys_exact[of 6] by simp

lemma self_check_runs:
  "self_check = (if \<not> RunOverSizes (kVariants ! 0) \<and> \<not> RunOverSizes (kVariants ! 4) \<and>
     RunOverSizes (kVariants ! 1) \<and> RunOverSizes (kVariants ! 2) \<and> RunOverSizes (kVariants ! 3) \<and> RunOverSizes (kVariants ! 5)
   then 0 else 1)"
  by (simp add: self_check_def kVariants_def Let_def)

lemma mutants_run: "i \<in> {1, 2, 3, 5} \<Longrightarrow> RunOverSizes (kVariants ! i)"
  using caught_wake_skipped caught_sleeping_read_early caught_cleared_at_wake caught_role_kept
  by (auto simp: RunOverSizes_def kVariants_def kWGSizes_def kFlushSizes_def RunVariant_def)

lemma run_sizes_any: "run_sizes v r ns \<longleftrightarrow> (ns = [] \<and> r) \<or> list_ex (RunVariant v) ns"
  by (induction ns arbitrary: r) auto

lemma references_run:
  "RunOverSizes (kVariants ! 0) \<longleftrightarrow> list_ex (\<lambda>n. state_limit_hit (WriteGroupModel n HandoverNone) (wg_init n)) kWGSizes"
  "RunOverSizes (kVariants ! 4) \<longleftrightarrow> list_ex (\<lambda>n. state_limit_hit (FlushModel n FlushNone) (flush_init n)) kFlushSizes"
  by (simp_all add: RunOverSizes_def run_sizes_any kVariants_def kWGSizes_def kFlushSizes_def RunVariant_def RunWGAt_def RunFlushAt_def
      wg_reference flush_reference)

text \<open>
  C22. The self-check of the program succeeds exactly when no reference run is stopped by the limit on
  states: the references are never reported with a violation, a hang or a truncation, and every
  mutant is caught. Asked for one mutant it exits with 1, and with 2 for a name it does not know.
\<close>

theorem transition_main_exact:
  "(transition_main [] = 0 \<longleftrightarrow>
     \<not> list_ex (\<lambda>n. state_limit_hit (WriteGroupModel n HandoverNone) (wg_init n)) kWGSizes \<and>
     \<not> list_ex (\<lambda>n. state_limit_hit (FlushModel n FlushNone) (flush_init n)) kFlushSizes) \<and>
   transition_main [''--mutant='' @ nm] =
     (if nm \<in> {''sleeping-read-early'', ''hand-over-cleared-at-wake'', ''wake-skipped'', ''flush-role-kept-on-throw''} then 1 else 2)"
proof -
  have "run_mutant nm =
     (if nm \<in> {''sleeping-read-early'', ''hand-over-cleared-at-wake'', ''wake-skipped'', ''flush-role-kept-on-throw''} then 1 else 2)"
    using mutants_run[of 1] mutants_run[of 2] mutants_run[of 3] mutants_run[of 5]
    by (auto simp: run_mutant_def kVariants_def)
  then show ?thesis
    using mutants_run by (simp add: transition_main_def strncmp_eq_def self_check_runs references_run)
qed

end
