(* ===== verification/Catalog.thy ===== *)
theory Catalog
  imports Codec
begin

text \<open>
  The catalog encoding of the MariaDB plugin (\<^verbatim>\<open>catalog.cc\<close>): the keys of the catalog namespace, the counters
  and the table metadata. A \<^verbatim>\<open>std::string\<close> is its bytes and a fixed-width integer a natural number with the
  width in \<^term>\<open>meta_fits\<close>; a read or a write outside the buffer is a value of its own. What a refused
  entry leaves in the output argument, and running out of memory on a large count, are left out.
\<close>

section \<open>Keys and counters\<close>

definition kNsCatalog :: byte where "kNsCatalog = 1"
definition kNsRow :: byte where "kNsRow = 2"
definition kNsIndex :: byte where "kNsIndex = 3"
definition kSubCounter :: byte where "kSubCounter = 1"
definition kSubTable :: byte where "kSubTable = 2"

definition write_be :: "nat \<Rightarrow> nat \<Rightarrow> bytes" where
  "write_be n v = rev (write_le n v)"

definition read_be :: "nat \<Rightarrow> bytes \<Rightarrow> nat" where
  "read_be n p = read_le n (rev (take n p)) 0"

definition counter_key :: "byte \<Rightarrow> bytes" where
  "counter_key i = [kNsCatalog, kSubCounter, i]"

definition normalize_table_name :: "bytes \<Rightarrow> bytes" where
  "normalize_table_name name =
    (let s1 = (if take 2 name = [46, 47] then drop 2 name else name);
         s2 = (if take 1 s1 = [47] then drop 1 s1 else s1)
     in map (\<lambda>c. if c = 47 then 0 else c) s2 @ [0])"

definition table_meta_key :: "bytes \<Rightarrow> bytes" where
  "table_meta_key name = [kNsCatalog, kSubTable] @ normalize_table_name name"

definition table_meta_scan_bounds :: "bytes \<times> bytes" where
  "table_meta_scan_bounds = ([kNsCatalog, kSubTable], [kNsCatalog, kSubTable + 1])"

definition encode_counter_value :: "nat \<Rightarrow> bytes" where
  "encode_counter_value v = write_be 8 v"

definition decode_counter_value :: "bytes \<Rightarrow> nat" where
  "decode_counter_value p = (if length p < 8 then 0 else read_be 8 p)"

section \<open>Table metadata\<close>

record ColumnMeta =
  cm_field_type :: nat
  cm_field_length :: nat
  cm_is_nullable :: nat
  cm_charset_id :: nat

record IndexMeta =
  im_index_id :: nat
  im_key_parts :: nat
  im_is_unique :: nat
  im_column_indexes :: "nat list"

record FKMeta =
  fk_name :: bytes
  fk_ref_db :: bytes
  fk_ref_table :: bytes
  fk_cols :: "bytes list"
  fk_ref_cols :: "bytes list"
  fk_update_opt :: nat
  fk_delete_opt :: nat

record TableMeta =
  tm_table_id :: nat
  tm_schema_version :: nat
  tm_full_name :: bytes
  tm_reclength :: nat
  tm_null_bytes :: nat
  tm_pk_parts :: nat
  tm_columns :: "ColumnMeta list"
  tm_indexes :: "IndexMeta list"
  tm_fks :: "FKMeta list"
  tm_key_format :: nat

definition kKeyFormatLengthPrefixedPk :: nat where "kKeyFormatLengthPrefixedPk = 0"

text \<open>
  Each writer puts a field and moves on. A length is cut to its width before it is written, and
  so is what \<^verbatim>\<open>memcpy\<close> copies; the buffer's size counts the strings of the foreign keys at full length.
\<close>

definition put_string :: "bytes \<Rightarrow> bytes" where
  "put_string s = (let n = length s mod 2 ^ 16 in write_le 2 n @ take n s)"

definition put_column :: "ColumnMeta \<Rightarrow> bytes" where
  "put_column c = write_le 2 (cm_field_type c) @ write_le 2 (cm_field_length c) @ write_le 1 (cm_is_nullable c) @
     write_le 2 (cm_charset_id c)"

definition put_index :: "IndexMeta \<Rightarrow> bytes" where
  "put_index i = write_le 2 (im_index_id i) @ write_le 2 (im_key_parts i) @ write_le 1 (im_is_unique i) @
     concat (map (write_le 2) (im_column_indexes i))"

definition put_strings :: "bytes list \<Rightarrow> bytes" where
  "put_strings xs = write_le 2 (length xs mod 2 ^ 16) @ concat (map put_string xs)"

definition put_fk :: "FKMeta \<Rightarrow> bytes" where
  "put_fk f = put_string (fk_name f) @ put_string (fk_ref_db f) @ put_string (fk_ref_table f) @
     put_strings (fk_cols f) @ put_strings (fk_ref_cols f) @ write_le 1 (fk_update_opt f) @ write_le 1 (fk_delete_opt f)"

definition put_fks :: "TableMeta \<Rightarrow> bytes" where
  "put_fks m = (if tm_schema_version m = 3
     then write_le 4 (length (tm_fks m) mod 2 ^ 32) @ concat (map put_fk (tm_fks m)) else [])"

definition meta_body :: "TableMeta \<Rightarrow> bytes" where
  "meta_body m = write_le 4 (tm_table_id m) @ write_le 4 (tm_schema_version m) @ put_string (tm_full_name m) @
     write_le 2 (tm_reclength m) @ write_le 2 (tm_null_bytes m) @ write_le 4 (tm_pk_parts m) @
     write_le 4 (length (tm_columns m) mod 2 ^ 32) @ concat (map put_column (tm_columns m)) @
     write_le 4 (length (tm_indexes m) mod 2 ^ 32) @ concat (map put_index (tm_indexes m)) @ put_fks m"

definition fk_size :: "FKMeta \<Rightarrow> nat" where
  "fk_size f = 2 + length (fk_name f) + (2 + length (fk_ref_db f)) + (2 + length (fk_ref_table f)) +
     2 + sum_list (map (\<lambda>c. 2 + length c) (fk_cols f)) + 2 + sum_list (map (\<lambda>c. 2 + length c) (fk_ref_cols f)) + 2"

text \<open>The size of the buffer; its first three terms are added in 32 bits.\<close>

definition meta_size :: "TableMeta \<Rightarrow> nat" where
  "meta_size m = (22 + length (tm_full_name m) mod 2 ^ 16 + length (tm_columns m) mod 2 ^ 32 * 7) mod 2 ^ 32 + 4 +
     sum_list (map (\<lambda>i. 5 + length (im_column_indexes i) * 2) (tm_indexes m)) +
     (if tm_schema_version m = 3 then 4 + sum_list (map fk_size (tm_fks m)) else 0) + 1"

definition serialize_table_meta :: "TableMeta \<Rightarrow> bytes result" where
  "serialize_table_meta m =
    (if tm_schema_version m \<noteq> 2 \<and> tm_schema_version m \<noteq> 3 then Inr []
     else let out = meta_body m @ write_le 1 (tm_key_format m)
          in if length out > meta_size m then Inl (Panic ''write past the end of the buffer'')
             else Inr (out @ replicate (meta_size m - length out) 0))"

section \<open>Reading it back\<close>

datatype 'a parsed = Parsed 'a | Malformed | Overread

definition pbind :: "'a parsed \<Rightarrow> ('a \<Rightarrow> 'b parsed) \<Rightarrow> 'b parsed" where
  "pbind r f = (case r of Parsed x \<Rightarrow> f x | Malformed \<Rightarrow> Malformed | Overread \<Rightarrow> Overread)"

definition get_le :: "nat \<Rightarrow> bytes \<Rightarrow> (nat \<times> bytes) parsed" where
  "get_le n p = (if length p < n then Overread else Parsed (read_le n p 0, drop n p))"

definition need :: "nat \<Rightarrow> bytes \<Rightarrow> 'a parsed \<Rightarrow> 'a parsed" where
  "need n p r = (if length p < n then Malformed else r)"

fun get_many :: "(bytes \<Rightarrow> ('a \<times> bytes) parsed) \<Rightarrow> nat \<Rightarrow> bytes \<Rightarrow> ('a list \<times> bytes) parsed" where
  "get_many get 0 p = Parsed ([], p)"
| "get_many get (Suc n) p = pbind (get p) (\<lambda>(x, q). pbind (get_many get n q) (\<lambda>(xs, r). Parsed (x # xs, r)))"

definition get_column :: "bytes \<Rightarrow> (ColumnMeta \<times> bytes) parsed" where
  "get_column p0 =
    pbind (get_le 2 p0) (\<lambda>(a, p1). pbind (get_le 2 p1) (\<lambda>(b, p2). pbind (get_le 1 p2) (\<lambda>(c, p3).
    pbind (get_le 2 p3) (\<lambda>(d, p4).
      Parsed (\<lparr>cm_field_type = a, cm_field_length = b, cm_is_nullable = c, cm_charset_id = d\<rparr>, p4)))))"

definition get_index :: "bytes \<Rightarrow> (IndexMeta \<times> bytes) parsed" where
  "get_index p0 = need 5 p0
    (pbind (get_le 2 p0) (\<lambda>(a, p1). pbind (get_le 2 p1) (\<lambda>(parts, p2). pbind (get_le 1 p2) (\<lambda>(c, p3).
      need (parts * 2) p3 (pbind (get_many (get_le 2) parts p3) (\<lambda>(cols, p4).
        Parsed (\<lparr>im_index_id = a, im_key_parts = parts, im_is_unique = c, im_column_indexes = cols\<rparr>, p4)))))))"

definition get_string :: "bytes \<Rightarrow> (bytes \<times> bytes) parsed" where
  "get_string p0 = need 2 p0 (pbind (get_le 2 p0) (\<lambda>(n, p1). need n p1 (Parsed (take n p1, drop n p1))))"

definition get_strings :: "bytes \<Rightarrow> (bytes list \<times> bytes) parsed" where
  "get_strings p0 = need 2 p0 (pbind (get_le 2 p0) (\<lambda>(n, p1). get_many get_string n p1))"

definition get_fk :: "bytes \<Rightarrow> (FKMeta \<times> bytes) parsed" where
  "get_fk p0 =
    pbind (get_string p0) (\<lambda>(nm, p1). pbind (get_string p1) (\<lambda>(db, p2). pbind (get_string p2) (\<lambda>(tb, p3).
    pbind (get_strings p3) (\<lambda>(fc, p4). pbind (get_strings p4) (\<lambda>(rc, p5).
    need 2 p5 (pbind (get_le 1 p5) (\<lambda>(u, p6). pbind (get_le 1 p6) (\<lambda>(d, p7).
      Parsed (\<lparr>fk_name = nm, fk_ref_db = db, fk_ref_table = tb, fk_cols = fc, fk_ref_cols = rc,
        fk_update_opt = u, fk_delete_opt = d\<rparr>, p7)))))))))"

definition get_fks :: "nat \<Rightarrow> FKMeta list \<Rightarrow> bytes \<Rightarrow> (FKMeta list \<times> bytes) parsed" where
  "get_fks version old p0 = (if version = 3
     then need 4 p0 (pbind (get_le 4 p0) (\<lambda>(n, p1). get_many get_fk n p1)) else Parsed (old, p0))"

text \<open>
  The number of columns is multiplied in 32 bits before it is compared with what remains. \<^term>\<open>old\<close> is the
  value of the output argument, whose foreign keys a version 2 entry leaves as they are.
\<close>

definition get_sections ::
  "nat \<Rightarrow> FKMeta list \<Rightarrow> nat \<Rightarrow> bytes \<Rightarrow> (ColumnMeta list \<times> IndexMeta list \<times> FKMeta list \<times> bytes) parsed" where
  "get_sections version old cols p8 = need ((cols * 7 + 4) mod 2 ^ 32) p8
    (pbind (get_many get_column cols p8) (\<lambda>(cs, p9). need 4 p9
    (pbind (get_le 4 p9) (\<lambda>(idxs, p10). pbind (get_many get_index idxs p10) (\<lambda>(ixs, p11).
     pbind (get_fks version old p11) (\<lambda>(fks, p12). Parsed (cs, ixs, fks, p12)))))))"

definition deserialize_table_meta :: "bytes \<Rightarrow> TableMeta \<Rightarrow> TableMeta parsed" where
  "deserialize_table_meta data old = need 26 data
    (pbind (get_le 4 data) (\<lambda>(tid, p1). pbind (get_le 4 p1) (\<lambda>(version, p2).
     if version \<noteq> 2 \<and> version \<noteq> 3 then Malformed else
     pbind (get_le 2 p2) (\<lambda>(name_len, p3). need (name_len + 16) p3
    (let nm = take name_len p3; p4 = drop name_len p3 in
     pbind (get_le 2 p4) (\<lambda>(reclen, p5). pbind (get_le 2 p5) (\<lambda>(nullb, p6). pbind (get_le 4 p6) (\<lambda>(pk, p7).
     pbind (get_le 4 p7) (\<lambda>(cols, p8). pbind (get_sections version (tm_fks old) cols p8) (\<lambda>(cs, ixs, fks, p12).
       Parsed \<lparr>tm_table_id = tid, tm_schema_version = version, tm_full_name = nm, tm_reclength = reclen,
         tm_null_bytes = nullb, tm_pk_parts = pk, tm_columns = cs, tm_indexes = ixs, tm_fks = fks,
         tm_key_format = (case p12 of [] \<Rightarrow> kKeyFormatLengthPrefixedPk | b # _ \<Rightarrow> unat b)\<rparr>))))))))))"

section \<open>What a reader accepts\<close>

lemma pbind_Parsed [simp]: "pbind r f = Parsed y \<longleftrightarrow> (\<exists>x. r = Parsed x \<and> f x = Parsed y)"
  by (cases r) (simp_all add: pbind_def)

lemma pbind_Overread: "pbind r f = Overread \<longleftrightarrow> r = Overread \<or> (\<exists>x. r = Parsed x \<and> f x = Overread)"
  by (cases r) (simp_all add: pbind_def)

lemma pbind_simps: "pbind (Parsed x) f = f x" "pbind Malformed f = Malformed" "pbind Overread f = Overread"
  by (simp_all add: pbind_def)

lemma need_Parsed [simp]: "need n p r = Parsed y \<longleftrightarrow> n \<le> length p \<and> r = Parsed y"
  by (auto simp: need_def)

lemma need_Overread: "need n p r = Overread \<longleftrightarrow> n \<le> length p \<and> r = Overread"
  by (auto simp: need_def)

text \<open>
  The contract of a field: its reader accepts exactly what its writer puts for a value of the
  field's type, and leaves what follows.
\<close>

locale exact_field =
  fixes get :: "bytes \<Rightarrow> ('a \<times> bytes) parsed" and put :: "'a \<Rightarrow> bytes" and ok :: "'a \<Rightarrow> bool"
  assumes exact: "get p = Parsed (x, q) \<longleftrightarrow> p = put x @ q \<and> ok x"
begin

lemma many:
  "get_many get n p = Parsed (xs, q) \<longleftrightarrow> p = concat (map put xs) @ q \<and> length xs = n \<and> list_all ok xs"
proof (induction n arbitrary: p xs)
  case (Suc n)
  show ?case by (cases xs) (auto simp: exact Suc.IH)
qed auto

end

lemma get_le_exact: "get_le n p = Parsed (v, q) \<longleftrightarrow> p = write_le n v @ q \<and> v < 256 ^ n"
proof
  assume g: "get_le n p = Parsed (v, q)"
  then have "n \<le> length p" "v = read_le n p 0" "q = drop n p" by (auto simp: get_le_def split: if_splits)
  moreover from this have "write_le n v = take n p" using write_le_read_le[of 0 n p] by simp
  ultimately show "p = write_le n v @ q \<and> v < 256 ^ n" using read_le_bound[of n p 0] by simp
next
  assume "p = write_le n v @ q \<and> v < 256 ^ n"
  then show "get_le n p = Parsed (v, q)" using read_le_write_le[of "[]" 0 v n q] by (simp add: get_le_def)
qed

interpretation le: exact_field "get_le n" "write_le n" "\<lambda>v. v < 256 ^ n" for n
  by unfold_locales (rule get_le_exact)

definition column_fits :: "ColumnMeta \<Rightarrow> bool" where
  "column_fits c \<longleftrightarrow> cm_field_type c < 2 ^ 16 \<and> cm_field_length c < 2 ^ 16 \<and> cm_is_nullable c < 2 ^ 8 \<and> cm_charset_id c < 2 ^ 16"

interpretation column: exact_field get_column put_column column_fits
proof
  show "get_column p = Parsed (x, q) \<longleftrightarrow> p = put_column x @ q \<and> column_fits x" for p x q
    by (cases x) (auto simp: get_column_def le.exact put_column_def column_fits_def)
qed

definition index_fits :: "IndexMeta \<Rightarrow> bool" where
  "index_fits i \<longleftrightarrow> im_index_id i < 2 ^ 16 \<and> im_key_parts i = length (im_column_indexes i) \<and> im_key_parts i < 2 ^ 16 \<and>
     im_is_unique i < 2 ^ 8 \<and> list_all (\<lambda>c. c < 2 ^ 16) (im_column_indexes i)"

lemma length_concat_le: "length (concat (map (write_le n) xs)) = n * length xs"
  by (induction xs) auto

interpretation index: exact_field get_index put_index index_fits
proof
  show "get_index p = Parsed (x, q) \<longleftrightarrow> p = put_index x @ q \<and> index_fits x" for p x q
    by (cases x) (auto simp: get_index_def le.exact le.many put_index_def index_fits_def length_concat_le)
qed

definition string_fits :: "bytes \<Rightarrow> bool" where
  "string_fits s \<longleftrightarrow> length s < 2 ^ 16"

interpretation str: exact_field get_string put_string string_fits
proof
  show "get_string p = Parsed (x, q) \<longleftrightarrow> p = put_string x @ q \<and> string_fits x" for p x q
    by (auto simp: get_string_def le.exact put_string_def string_fits_def Let_def intro!: exI[of _ "length x"])
qed

definition strings_fit :: "bytes list \<Rightarrow> bool" where
  "strings_fit xs \<longleftrightarrow> length xs < 2 ^ 16 \<and> list_all string_fits xs"

interpretation strs: exact_field get_strings put_strings strings_fit
proof
  show "get_strings p = Parsed (x, q) \<longleftrightarrow> p = put_strings x @ q \<and> strings_fit x" for p x q
    by (auto simp: get_strings_def le.exact str.many put_strings_def strings_fit_def)
qed

definition fk_fits :: "FKMeta \<Rightarrow> bool" where
  "fk_fits f \<longleftrightarrow> string_fits (fk_name f) \<and> string_fits (fk_ref_db f) \<and> string_fits (fk_ref_table f) \<and>
     strings_fit (fk_cols f) \<and> strings_fit (fk_ref_cols f) \<and> fk_update_opt f < 2 ^ 8 \<and> fk_delete_opt f < 2 ^ 8"

interpretation fk: exact_field get_fk put_fk fk_fits
proof
  show "get_fk p = Parsed (x, q) \<longleftrightarrow> p = put_fk x @ q \<and> fk_fits x" for p x q
    by (cases x) (auto simp: get_fk_def le.exact str.exact strs.exact put_fk_def fk_fits_def)
qed

definition meta_fits :: "TableMeta \<Rightarrow> bool" where
  "meta_fits m \<longleftrightarrow> tm_table_id m < 2 ^ 32 \<and> tm_schema_version m \<in> {2, 3} \<and> string_fits (tm_full_name m) \<and>
     tm_reclength m < 2 ^ 16 \<and> tm_null_bytes m < 2 ^ 16 \<and> tm_pk_parts m < 2 ^ 32 \<and>
     length (tm_columns m) < 2 ^ 32 \<and> list_all column_fits (tm_columns m) \<and>
     length (tm_indexes m) < 2 ^ 32 \<and> list_all index_fits (tm_indexes m) \<and>
     (tm_schema_version m = 3 \<longrightarrow> length (tm_fks m) < 2 ^ 32 \<and> list_all fk_fits (tm_fks m)) \<and> tm_key_format m < 2 ^ 8"

text \<open>What follows the body is the key format, or nothing in an entry of before it existed.\<close>

definition format_byte :: "bytes \<Rightarrow> nat" where
  "format_byte p = (case p of [] \<Rightarrow> kKeyFormatLengthPrefixedPk | b # _ \<Rightarrow> unat b)"

definition get_fks_ok :: "TableMeta \<Rightarrow> TableMeta \<Rightarrow> bool" where
  "get_fks_ok old m \<longleftrightarrow> tm_schema_version m = 3 \<or> tm_fks m = tm_fks old"

lemma get_fks_exact:
  "get_fks v old p = Parsed (xs, q) \<longleftrightarrow>
     (if v = 3 then p = write_le 4 (length xs) @ concat (map put_fk xs) @ q \<and> length xs < 2 ^ 32 \<and> list_all fk_fits xs
      else xs = old \<and> q = p)"
  by (auto simp: get_fks_def le.exact fk.many)

lemma length_put_column: "length (put_column c) = 7"
  by (simp add: put_column_def)

lemma length_put_columns: "length (concat (map put_column cs)) = 7 * length cs"
  by (induction cs) (auto simp: length_put_column)

lemma deserialize_exact:
  "deserialize_table_meta data old = Parsed m \<longleftrightarrow>
     (\<exists>rest. data = meta_body m @ rest \<and> meta_fits m \<and> get_fks_ok old m \<and> tm_key_format m = format_byte rest)"
  (is "?l \<longleftrightarrow> ?r")
proof
  assume ?l
  then obtain tid p1 v p2 nl p3 rl p5 nb p6 pk p7 cols p8 cs p9 n p10 ixs p11 fks p12 where
    h: "get_le 4 data = Parsed (tid, p1)" "get_le 4 p1 = Parsed (v, p2)" "v \<in> {2, 3}" "get_le 2 p2 = Parsed (nl, p3)"
      "nl + 16 \<le> length p3" "get_le 2 (drop nl p3) = Parsed (rl, p5)" "get_le 2 p5 = Parsed (nb, p6)"
      "get_le 4 p6 = Parsed (pk, p7)" "get_le 4 p7 = Parsed (cols, p8)"
    and t: "get_many get_column cols p8 = Parsed (cs, p9)" "get_le 4 p9 = Parsed (n, p10)"
      "get_many get_index n p10 = Parsed (ixs, p11)" "get_fks v (tm_fks old) p11 = Parsed (fks, p12)"
    and m: "m = \<lparr>tm_table_id = tid, tm_schema_version = v, tm_full_name = take nl p3, tm_reclength = rl,
         tm_null_bytes = nb, tm_pk_parts = pk, tm_columns = cs, tm_indexes = ixs, tm_fks = fks,
         tm_key_format = format_byte p12\<rparr>"
    unfolding deserialize_table_meta_def get_sections_def Let_def format_byte_def by (auto split: if_splits)
  have "p3 = take nl p3 @ drop nl p3" "length (take nl p3) = nl" using h(5) by simp_all
  moreover have "format_byte p12 < 2 ^ 8"
    using unat_byte_lt by (auto simp: format_byte_def kKeyFormatLengthPrefixedPk_def split: list.splits)
  ultimately show ?r
    using h t unfolding le.exact column.many index.many get_fks_exact
    by (intro exI[of _ p12])
      (auto simp: m meta_body_def put_string_def put_fks_def meta_fits_def get_fks_ok_def string_fits_def split: if_splits)
next
  assume ?r
  then obtain rest where d: "data = meta_body m @ rest" and fit: "meta_fits m" and f: "get_fks_ok old m"
    and k: "tm_key_format m = format_byte rest" by blast
  define p11 where "p11 = put_fks m @ rest"
  define p10 where "p10 = concat (map put_index (tm_indexes m)) @ p11"
  define p9 where "p9 = write_le 4 (length (tm_indexes m)) @ p10"
  define p8 where "p8 = concat (map put_column (tm_columns m)) @ p9"
  define p7 where "p7 = write_le 4 (length (tm_columns m)) @ p8"
  define p6 where "p6 = write_le 4 (tm_pk_parts m) @ p7"
  define p5 where "p5 = write_le 2 (tm_null_bytes m) @ p6"
  define p4 where "p4 = write_le 2 (tm_reclength m) @ p5"
  define p3 where "p3 = tm_full_name m @ p4"
  define p2 where "p2 = write_le 2 (length (tm_full_name m)) @ p3"
  define p1 where "p1 = write_le 4 (tm_schema_version m) @ p2"
  note p = p1_def p2_def p3_def p4_def p5_def p6_def p7_def p8_def p9_def p10_def p11_def
  have "get_le 4 data = Parsed (tm_table_id m, p1)" "get_le 4 p1 = Parsed (tm_schema_version m, p2)"
    "get_le 2 p2 = Parsed (length (tm_full_name m), p3)" "get_le 2 p4 = Parsed (tm_reclength m, p5)"
    "get_le 2 p5 = Parsed (tm_null_bytes m, p6)" "get_le 4 p6 = Parsed (tm_pk_parts m, p7)"
    "get_le 4 p7 = Parsed (length (tm_columns m), p8)"
    "get_many get_column (length (tm_columns m)) p8 = Parsed (tm_columns m, p9)"
    "get_le 4 p9 = Parsed (length (tm_indexes m), p10)"
    "get_many get_index (length (tm_indexes m)) p10 = Parsed (tm_indexes m, p11)"
    "get_fks (tm_schema_version m) (tm_fks old) p11 = Parsed (tm_fks m, rest)"
    using fit f unfolding le.exact column.many index.many get_fks_exact
    by (auto simp: d p meta_body_def put_string_def put_fks_def meta_fits_def get_fks_ok_def string_fits_def Let_def)
  note reads = this
  have len: "26 \<le> length data" "length (tm_full_name m) + 16 \<le> length p3"
    "(length (tm_columns m) * 7 + 4) mod 2 ^ 32 \<le> length p8" "4 \<le> length p9"
    using mod_less_eq_dividend[of "length (tm_columns m) * 7 + 4" "2 ^ 32"]
    by (simp_all add: d p meta_body_def put_string_def length_put_columns Let_def)
  have name: "take (length (tm_full_name m)) p3 = tm_full_name m" "drop (length (tm_full_name m)) p3 = p4"
    by (simp_all add: p3_def)
  have v: "tm_schema_version m \<in> {2, 3}" using fit by (simp add: meta_fits_def)
  show ?l
    using v len unfolding deserialize_table_meta_def get_sections_def Let_def
    by (simp add: reads name k format_byte_def) 
qed

section \<open>Reads outside the buffer\<close>

lemma get_le_Overread: "get_le n p = Overread \<longleftrightarrow> length p < n"
  by (simp add: get_le_def)

lemma get_column_Overread: "get_column p = Overread \<Longrightarrow> length p < 7"
  by (auto simp: get_column_def pbind_Overread get_le_Overread le.exact)

lemma get_columns_Overread: "get_many get_column n p = Overread \<Longrightarrow> length p < 7 * n"
proof (induction n arbitrary: p)
  case (Suc n)
  then show ?case using get_column_Overread[of p] by (auto simp: pbind_Overread column.exact length_put_column)
qed simp

lemma get_many_Overread: "(\<And>p. get p \<noteq> Overread) \<Longrightarrow> get_many get n p \<noteq> Overread"
  by (induction n arbitrary: p) (auto simp: pbind_Overread)

lemma get_les_Overread: "get_many (get_le n) k p = Overread \<Longrightarrow> length p < k * n"
proof (induction k arbitrary: p)
  case (Suc k)
  then show ?case by (auto simp: pbind_Overread get_le_Overread le.exact)
qed simp

lemma get_index_Overread: "get_index p \<noteq> Overread"
  by (auto simp: get_index_def need_Overread pbind_Overread get_le_Overread le.exact dest!: get_les_Overread)

lemma get_string_Overread: "get_string p \<noteq> Overread"
  by (auto simp: get_string_def need_Overread pbind_Overread get_le_Overread le.exact)

lemma get_strings_Overread: "get_strings p \<noteq> Overread"
  using get_many_Overread[OF get_string_Overread]
  by (auto simp: get_strings_def need_Overread pbind_Overread get_le_Overread le.exact)

lemma get_fk_Overread: "get_fk p \<noteq> Overread"
  by (auto simp: get_fk_def need_Overread pbind_Overread get_le_Overread le.exact get_string_Overread get_strings_Overread)

lemma get_fks_Overread: "get_fks v old p \<noteq> Overread"
  using get_many_Overread[OF get_fk_Overread]
  by (auto simp: get_fks_def need_Overread pbind_Overread get_le_Overread le.exact)

text \<open>Only the count of columns can lead outside: its product with the size of a column wraps.\<close>

definition header_of :: "nat \<Rightarrow> nat \<Rightarrow> bytes \<Rightarrow> nat \<Rightarrow> nat \<Rightarrow> nat \<Rightarrow> nat \<Rightarrow> bytes" where
  "header_of tid v nm rl nb pk cols = write_le 4 tid @ write_le 4 v @ write_le 2 (length nm) @ nm @ write_le 2 rl @
     write_le 2 nb @ write_le 4 pk @ write_le 4 cols"

definition header_fits :: "nat \<Rightarrow> nat \<Rightarrow> bytes \<Rightarrow> nat \<Rightarrow> nat \<Rightarrow> nat \<Rightarrow> nat \<Rightarrow> bool" where
  "header_fits tid v nm rl nb pk cols \<longleftrightarrow> tid < 2 ^ 32 \<and> v < 2 ^ 32 \<and> length nm < 2 ^ 16 \<and> rl < 2 ^ 16 \<and> nb < 2 ^ 16 \<and>
     pk < 2 ^ 32 \<and> cols < 2 ^ 32"

lemma header_of_inj:
  assumes "header_of t v nm r b k c @ p = header_of t' v' nm' r' b' k' c' @ p'"
    and "header_fits t v nm r b k c" and "header_fits t' v' nm' r' b' k' c'"
  shows "c = c'"
proof -
  have eq: "write_le n x = write_le n y \<Longrightarrow> x < 256 ^ n \<Longrightarrow> y < 256 ^ n \<Longrightarrow> x = y" for n x y
    using get_le_exact[of n "write_le n x" x "[]"] get_le_exact[of n "write_le n x" y "[]"] by auto
  have "length nm = length nm'" using assms eq[of 2 "length nm" "length nm'"] by (simp add: header_of_def header_fits_def)
  then show ?thesis using assms eq[of 4 c c'] by (simp add: header_of_def header_fits_def)
qed

lemma get_sections_Overread:
  assumes "get_sections v old cols p = Overread"
  shows "2 ^ 32 \<le> cols * 7 + 4"
proof (rule ccontr)
  assume "\<not> ?thesis"
  then have "cols * 7 + 4 \<le> length p" using assms by (simp add: get_sections_def need_Overread)
  then show False
    using assms get_columns_Overread[of cols p] get_many_Overread[OF get_index_Overread] get_fks_Overread
    by (auto simp: get_sections_def need_Overread pbind_Overread get_le_Overread)
qed

lemma get_le_Parsed: "n \<le> length p \<Longrightarrow> \<exists>v q. get_le n p = Parsed (v, q) \<and> length q = length p - n"
  by (simp add: get_le_def)

lemma deserialize_Overread:
  assumes over: "deserialize_table_meta data old = Overread"
  shows "\<exists>tid v nm rl nb pk cols p. data = header_of tid v nm rl nb pk cols @ p \<and> header_fits tid v nm rl nb pk cols \<and>
    2 ^ 32 \<le> cols * 7 + 4"
proof -
  have l: "26 \<le> length data" using over by (simp add: deserialize_table_meta_def need_Overread)
  obtain tid d4 where 1: "get_le 4 data = Parsed (tid, d4)" "length d4 = length data - 4" using get_le_Parsed[of 4 data] l by auto
  have "4 \<le> length d4" using l 1 by simp
  then obtain v d8 where 2: "get_le 4 d4 = Parsed (v, d8)" "length d8 = length d4 - 4" using get_le_Parsed by blast
  have "2 \<le> length d8" using l 1 2 by simp
  then obtain nl d10 where 3: "get_le 2 d8 = Parsed (nl, d10)" "length d10 = length d8 - 2" using get_le_Parsed by blast
  have ln: "nl + 16 \<le> length d10"
    using over l by (auto simp: deserialize_table_meta_def need_Overread 1 2 3 pbind_simps split: if_splits)
  define e0 where "e0 = drop nl d10"
  have e0: "length e0 = length d10 - nl" by (simp add: e0_def)
  have "2 \<le> length e0" using ln e0 by simp
  then obtain rl e2 where 4: "get_le 2 e0 = Parsed (rl, e2)" "length e2 = length e0 - 2" using get_le_Parsed by blast
  have "2 \<le> length e2" using ln e0 4 by simp
  then obtain nb e4 where 5: "get_le 2 e2 = Parsed (nb, e4)" "length e4 = length e2 - 2" using get_le_Parsed by blast
  have "4 \<le> length e4" using ln e0 4 5 by simp
  then obtain pk e8 where 6: "get_le 4 e4 = Parsed (pk, e8)" "length e8 = length e4 - 4" using get_le_Parsed by blast
  have "4 \<le> length e8" using ln e0 4 5 6 by simp
  then obtain cols p where 7: "get_le 4 e8 = Parsed (cols, p)" using get_le_Parsed by blast
  have v: "v = 2 \<or> v = 3" using over l by (auto simp: deserialize_table_meta_def need_Overread 1(1) 2(1) pbind_simps split: if_splits)
  have "get_sections v (tm_fks old) cols p = Overread"
  proof (rule ccontr)
    assume "get_sections v (tm_fks old) cols p \<noteq> Overread"
    then have "deserialize_table_meta data old \<noteq> Overread"
      using v l ln
      unfolding deserialize_table_meta_def Let_def
      by (cases "get_sections v (tm_fks old) cols p")
        (simp_all add: need_Overread 1(1) 2(1) 3(1) 4(1) 5(1) 6(1) 7 e0_def[symmetric] pbind_simps split: prod.splits)
    then show False using over by simp
  qed
  then have big: "2 ^ 32 \<le> cols * 7 + 4" by (rule get_sections_Overread)
  define nm where "nm = take nl d10"
  have nm: "d10 = nm @ e0" "length nm = nl" using ln by (simp_all add: e0_def nm_def)
  have "data = header_of tid v nm rl nb pk cols @ p \<and> header_fits tid v nm rl nb pk cols"
    using 1(1) 2(1) 3(1) 4(1) 5(1) 6(1) 7 nm unfolding get_le_exact by (simp add: header_of_def header_fits_def)
  then show ?thesis using big by blast
qed

section \<open>Properties\<close>

lemma meta_body_format: "meta_body (m\<lparr>tm_key_format := k\<rparr>) = meta_body m"
  by (simp add: meta_body_def put_fks_def)

lemma length_put_string: "string_fits s \<Longrightarrow> length (put_string s) = 2 + length s"
  by (simp add: put_string_def string_fits_def Let_def)

lemma length_put_strings: "list_all string_fits xs \<Longrightarrow> length (concat (map put_string xs)) = sum_list (map (\<lambda>c. 2 + length c) xs)"
  by (induction xs) (auto simp: length_put_string)

lemma length_put_fk: "fk_fits f \<Longrightarrow> length (put_fk f) = fk_size f"
  by (simp add: put_fk_def fk_fits_def fk_size_def length_put_string put_strings_def strings_fit_def length_put_strings)

lemma length_put_fks: "list_all fk_fits fs \<Longrightarrow> length (concat (map put_fk fs)) = sum_list (map fk_size fs)"
  by (induction fs) (auto simp: length_put_fk)

lemma length_put_indexes:
  "length (concat (map put_index ixs)) = sum_list (map (\<lambda>i. 5 + length (im_column_indexes i) * 2) ixs)"
  by (induction ixs) (auto simp: put_index_def length_concat_le)

lemma serialize_fits:
  assumes "meta_fits m" and "length (tm_columns m) < 613000000"
  shows "serialize_table_meta m = Inr (meta_body m @ write_le 1 (tm_key_format m))"
proof -
  have "length (meta_body m @ write_le 1 (tm_key_format m)) = meta_size m"
    using assms
    by (auto simp: meta_body_def meta_size_def meta_fits_def length_put_string length_put_columns length_put_indexes
        put_fks_def length_put_fks string_fits_def)
  then show ?thesis using assms(1) by (auto simp: serialize_table_meta_def meta_fits_def Let_def)
qed

lemma write_le_1: "k < 2 ^ 8 \<Longrightarrow> \<exists>b. write_le 1 k = [b] \<and> unat b = k"
  by (auto simp: write_le_def and_255_nat unat_of_nat)

lemma meta_prefix_Parsed:
  assumes d: "data @ tail = meta_body m @ [b]" and m: "meta_fits m" "get_fks_ok old m" "tm_key_format m = unat b"
    and r: "deserialize_table_meta data old = Parsed m'" and tail: "tail \<noteq> []"
  shows "tail = [b] \<and> m' = m\<lparr>tm_key_format := 0\<rparr>"
proof -
  obtain rest where rest: "data = meta_body m' @ rest" "meta_fits m'" "get_fks_ok old m'" "tm_key_format m' = format_byte rest"
    using r deserialize_exact by blast
  let ?k = "format_byte (rest @ tail)"
  have "format_byte x < 2 ^ 8" for x
    using unat_byte_lt by (auto simp: format_byte_def kKeyFormatLengthPrefixedPk_def split: list.splits)
  then have "deserialize_table_meta (data @ tail) old = Parsed (m'\<lparr>tm_key_format := ?k\<rparr>)"
    unfolding deserialize_exact using rest
    by (intro exI[of _ "rest @ tail"]) (auto simp: meta_body_format meta_fits_def get_fks_ok_def)
  moreover have "deserialize_table_meta (data @ tail) old = Parsed m"
    unfolding deserialize_exact using m by (intro exI[of _ "[b]"]) (simp add: d format_byte_def)
  ultimately have eq: "m = m'\<lparr>tm_key_format := ?k\<rparr>" by simp
  then have "meta_body m = meta_body m'" by (simp add: meta_body_format)
  then have "rest @ tail = [b]" using d rest(1) by simp
  then have "rest = []" "tail = [b]" using tail by (auto simp: append_eq_Cons_conv)
  then show ?thesis using eq rest(4) by (simp add: format_byte_def kKeyFormatLengthPrefixedPk_def)
qed

lemma meta_header: "\<exists>p. meta_body m = header_of (tm_table_id m) (tm_schema_version m) (tm_full_name m) (tm_reclength m)
    (tm_null_bytes m) (tm_pk_parts m) (length (tm_columns m)) @ p" if "meta_fits m"
  using that by (simp add: meta_body_def header_of_def put_string_def meta_fits_def string_fits_def Let_def)

lemma meta_prefix_Overread:
  assumes "data @ tail = meta_body m @ x" and "meta_fits m" and "length (tm_columns m) < 613000000"
  shows "deserialize_table_meta data old \<noteq> Overread"
proof
  assume "deserialize_table_meta data old = Overread"
  then obtain tid v nm rl nb pk cols p where h: "data = header_of tid v nm rl nb pk cols @ p" "header_fits tid v nm rl nb pk cols"
    "2 ^ 32 \<le> cols * 7 + 4" using deserialize_Overread by blast
  obtain q where "meta_body m = header_of (tm_table_id m) (tm_schema_version m) (tm_full_name m) (tm_reclength m)
    (tm_null_bytes m) (tm_pk_parts m) (length (tm_columns m)) @ q" using meta_header[OF assms(2)] by blast
  then have "header_of tid v nm rl nb pk cols @ p @ tail = header_of (tm_table_id m) (tm_schema_version m) (tm_full_name m)
    (tm_reclength m) (tm_null_bytes m) (tm_pk_parts m) (length (tm_columns m)) @ q @ x" using assms(1) h(1) by simp
  from header_of_inj[OF this h(2)] have "cols = length (tm_columns m)"
    using assms(2) by (auto simp: header_fits_def meta_fits_def string_fits_def)
  then show False using h(3) assms(3) by simp
qed

text \<open>
  C14. A catalog entry reads back as the metadata it was written from; cut by its last byte it reads as
  an entry of before key formats existed, and cut anywhere else it is refused.
\<close>

theorem catalog_roundtrip:
  assumes "meta_fits m" and "length (tm_columns m) < 613000000" and "tm_schema_version m = 3 \<or> tm_fks m = tm_fks old"
  shows "\<exists>bs. serialize_table_meta m = Inr bs \<and> deserialize_table_meta bs old = Parsed m \<and>
    (\<forall>k < length bs. deserialize_table_meta (take k bs) old =
      (if Suc k = length bs then Parsed (m\<lparr>tm_key_format := 0\<rparr>) else Malformed))"
proof -
  have ok: "get_fks_ok old m" using assms(3) by (simp add: get_fks_ok_def)
  have "tm_key_format m < 2 ^ 8" using assms(1) by (simp add: meta_fits_def)
  from write_le_1[OF this] obtain b where b: "write_le 1 (tm_key_format m) = [b]" "tm_key_format m = unat b" by metis
  let ?bs = "meta_body m @ [b]"
  have "deserialize_table_meta ?bs old = Parsed m"
    unfolding deserialize_exact using assms(1) ok b(2) by (intro exI[of _ "[b]"]) (simp add: format_byte_def)
  moreover have "deserialize_table_meta (take k ?bs) old = (if Suc k = length ?bs then Parsed (m\<lparr>tm_key_format := 0\<rparr>) else Malformed)"
    if k: "k < length ?bs" for k
  proof (cases "Suc k = length ?bs")
    case True
    then have "take k ?bs = meta_body (m\<lparr>tm_key_format := 0\<rparr>)" by (simp add: meta_body_format)
    then show ?thesis
      using True assms(1) ok unfolding if_P[OF True] deserialize_exact
      by (intro exI[of _ "[]"]) (simp add: format_byte_def kKeyFormatLengthPrefixedPk_def meta_fits_def get_fks_ok_def)
  next
    case False
    have split: "take k ?bs @ drop k ?bs = meta_body m @ [b]" "drop k ?bs \<noteq> []" using k by simp_all
    have "length (drop k ?bs) \<noteq> length [b]" using False k by auto
    then have "drop k ?bs \<noteq> [b]" by metis
    then have "deserialize_table_meta (take k ?bs) old \<noteq> Parsed m'" for m'
      using meta_prefix_Parsed[OF split(1) assms(1) ok b(2) _ split(2), of m'] by blast
    then show ?thesis
      using False meta_prefix_Overread[OF split(1) assms(1,2)] by (cases "deserialize_table_meta (take k ?bs) old") auto
  qed
  ultimately show ?thesis using serialize_fits[OF assms(1,2)] b(1) by metis
qed

definition demo_meta :: TableMeta where
  "demo_meta = \<lparr>tm_table_id = 7, tm_schema_version = 3, tm_full_name = [116, 0, 97, 0], tm_reclength = 9, tm_null_bytes = 1,
     tm_pk_parts = 1, tm_columns = [\<lparr>cm_field_type = 3, cm_field_length = 4, cm_is_nullable = 0, cm_charset_id = 63\<rparr>],
     tm_indexes = [\<lparr>im_index_id = 1, im_key_parts = 1, im_is_unique = 1, im_column_indexes = [0]\<rparr>],
     tm_fks = [\<lparr>fk_name = [102], fk_ref_db = [116], fk_ref_table = [98], fk_cols = [[99]], fk_ref_cols = [[99], []],
       fk_update_opt = 1, fk_delete_opt = 2\<rparr>], tm_key_format = 2\<rparr>"

theorem catalog_roundtrip_witness:
  "meta_fits demo_meta \<and> (\<exists>bs. serialize_table_meta demo_meta = Inr bs \<and> deserialize_table_meta bs demo_meta = Parsed demo_meta \<and>
     deserialize_table_meta (take 30 bs) demo_meta = Malformed)"
proof -
  have fit: "meta_fits demo_meta"
    by (simp add: demo_meta_def meta_fits_def string_fits_def column_fits_def index_fits_def fk_fits_def strings_fit_def)
  have len: "length (meta_body demo_meta) > 30"
    by (simp add: demo_meta_def meta_body_def put_string_def Let_def length_put_column put_index_def)
  have cols: "length (tm_columns demo_meta) < 613000000" by (simp add: demo_meta_def)
  have out: "serialize_table_meta demo_meta = Inr (meta_body demo_meta @ write_le 1 (tm_key_format demo_meta))"
    using serialize_fits[OF fit cols] .
  obtain bs where bs: "serialize_table_meta demo_meta = Inr bs" "deserialize_table_meta bs demo_meta = Parsed demo_meta"
    "\<forall>k < length bs. deserialize_table_meta (take k bs) demo_meta =
      (if Suc k = length bs then Parsed (demo_meta\<lparr>tm_key_format := 0\<rparr>) else Malformed)"
    using catalog_roundtrip[OF fit cols, of demo_meta] by auto
  have "length bs > 31" using out bs(1) len by simp
  then show ?thesis using fit bs by auto
qed

text \<open>
  C15. Reading a catalog entry of any bytes stays inside them, unless its count of columns is so large that
  seven times it, plus four, wraps in 32 bits.
\<close>

theorem catalog_reads_inside:
  assumes "deserialize_table_meta data old = Overread"
  shows "\<exists>tid v nm rl nb pk cols p. data = header_of tid v nm rl nb pk cols @ p \<and> header_fits tid v nm rl nb pk cols \<and>
    613566756 \<le> cols"
  using deserialize_Overread[OF assms] by fastforce

definition demo_overread :: bytes where
  "demo_overread = header_of 1 2 [] 0 0 0 613566757 @ [0, 0, 0, 0, 0, 0, 0, 0]"

lemma get_le_write: "v < 256 ^ n \<Longrightarrow> get_le n (write_le n v @ q) = Parsed (v, q)"
  by (simp add: get_le_exact)

text \<open>An entry of thirty bytes that claims 613566757 columns is read past its end.\<close>

lemma overread_example: "deserialize_table_meta demo_overread old = Overread"
proof -
  have zeros: "get_le 2 (0 # 0 # q) = Parsed (0, q)" "get_le 1 (0 # q) = Parsed (0, q)" for q
    by (simp_all add: get_le_exact write_le_def numeral_2_eq_2)
  have "get_many get_column (Suc (Suc n)) [0, 0, 0, 0, 0, 0, 0, 0] = Overread" for n
    by (simp add: get_column_def pbind_simps zeros get_le_def)
  from this[of 613566755] have "get_many get_column 613566757 [0, 0, 0, 0, 0, 0, 0, 0] = Overread" by simp
  then have "get_sections 2 (tm_fks old) 613566757 [0, 0, 0, 0, 0, 0, 0, 0] = Overread"
    by (simp add: get_sections_def need_def pbind_simps)
  then show ?thesis
    by (simp add: deserialize_table_meta_def demo_overread_def header_of_def need_def get_le_write pbind_simps)
qed

theorem catalog_reads_inside_witness:
  "\<exists>tid v nm rl nb pk cols p. demo_overread = header_of tid v nm rl nb pk cols @ p \<and> header_fits tid v nm rl nb pk cols \<and>
    613566756 \<le> cols"
  using catalog_reads_inside[OF overread_example[of demo_meta]] .

end
