(* ===== verification/Spec2Isabelle.thy ===== *)
theory Spec2Isabelle
  imports PutsChecked Vacuum Replication RecoveryOpen TransitionCheck Catalog
begin

text \<open>
  Verification of ByteCaskDB (\<^verbatim>\<open>src/bytecaskdb\<close>), a log-structured key-value store in C++. Writes are
  appended to an active data file as checksummed records; a key directory in memory maps each key
  to the file and offset of its newest record; sealed files get hint files from which the directory
  is rebuilt at open; vacuum rewrites sealed files without their dead records; a follower ingests
  the entries of a leader. The engine publishes immutable states: a reader holds one, a writer
  derives the next.

  \<^bold>\<open>Conventions.\<close> A member function that changes its object is a function from the old value to the
  new one. A C++ exception is the left side of a sum (\<open>Prelude\<close>). Code that does I/O is a function
  from a state to a result and a state, so what was done before an exception stays done (\<open>Disk\<close>);
  every call that can fail takes the next element of a script of faults held in the state, so a
  theorem about all states is about all patterns of failures. Byte counters are 64-bit words and
  wrap; sequences, offsets and file ids are natural numbers, with the packed widths of the key
  directory entry checked where the source checks them. The build switches (key directory with or
  without keys, debug walks, test build) and CRC-32C are fields of \<^verbatim>\<open>build\<close>.

  \<^bold>\<open>Theories and sources.\<close>
  \<^item> \<open>Prelude\<close>: bytes, keys, errors, sequencing of fallible code.
  \<^item> \<open>Codec\<close>: the record format (\<^verbatim>\<open>serialization.cppm\<close>, \<^verbatim>\<open>types.cppm\<close>, \<^verbatim>\<open>data_entry.cppm\<close>).
  \<^item> \<open>DataFile\<close>: the sweep of a data file and the iterator over committed batches
    (\<^verbatim>\<open>data_file.cppm\<close>, \<^verbatim>\<open>batch_iterator.cppm\<close>).
  \<^item> \<open>Hint\<close>: hint entries and frames (\<^verbatim>\<open>hint_entry.cppm\<close>, \<^verbatim>\<open>hint_file.cppm\<close>).
  \<^item> \<open>KeyDir\<close>: the packed entry and the \<^verbatim>\<open>kd_*\<close> operations (\<^verbatim>\<open>internals.cppm\<close>).
  \<^item> \<open>PatchMap\<close>, \<open>FileStats\<close>: the map of file statistics and its policy (\<^verbatim>\<open>patch_map.cppm\<close>).
  \<^item> \<open>Engine\<close>, \<open>Transitions\<close>: the engine state, write plans and every transition of the working
    copy (\<^verbatim>\<open>internals.cppm\<close>, \<^verbatim>\<open>engine_state.cpp\<close>).
  \<^item> \<open>StateInv\<close>, \<open>Conflicts\<close>, \<open>PutsChecked\<close>, \<open>Ingest\<close>: what the transitions do to the state.
  \<^item> \<open>Disk\<close>: effects, the directory, writes, syncs and their failures (\<^verbatim>\<open>data_file.cppm\<close>).
  \<^item> \<open>Db\<close>: the state of a database, publication and its checks, degrading (\<^verbatim>\<open>db_state.cpp\<close>).
  \<^item> \<open>Rotation\<close>: hint files, the background worker, rotation (\<^verbatim>\<open>db_rotation.cpp\<close>).
  \<^item> \<open>Commit\<close>: the two-stage commit pipeline (\<^verbatim>\<open>db_commit.cpp\<close>).
  \<^item> \<open>Ops\<close>: reads, writes, closing (\<^verbatim>\<open>db.cpp\<close>, \<^verbatim>\<open>db_read.cpp\<close>).
  \<^item> \<open>Resume\<close>: leaving the degraded state (\<^verbatim>\<open>db_degraded.cpp\<close>).
  \<^item> \<open>Vacuum\<close>: compaction (\<^verbatim>\<open>db_vacuum.cpp\<close>).
  \<^item> \<open>Replication\<close>: modes, manifests, ingestion (\<^verbatim>\<open>db_replication.cpp\<close>).
  \<^item> \<open>KWay\<close>, \<open>RecoveryLoad\<close>, \<open>RecoveryStreams\<close>, \<open>Recovery\<close>: opening a database (\<^verbatim>\<open>db_recovery.cpp\<close>).
  \<^item> \<open>Explorer\<close>, \<open>FlushProtocol\<close>, \<open>HandOver\<close>, \<open>TransitionCheck\<close>: the exhaustive checks of the flush and
    hand-over protocols (\<^verbatim>\<open>src/verify/transition\<close>): the search, the two step models with their mutants,
    the program.
  \<^item> \<open>Catalog\<close>: the catalog entries of the MariaDB plugin
    (\<^verbatim>\<open>src/bytecaskdb-mariadb-plugin/catalog.cc\<close>).

  \<^bold>\<open>What the lemmas show.\<close>
  \<^item> Formats: a record, a hint frame and a catalog entry are accepted exactly where the writer could
    have written them, and read back (\<open>Codec\<close>, \<open>Hint\<close>, \<open>Catalog\<close>). A data file cut at any byte scans
    to the units below the cut (\<open>DataFile\<close>).
  \<^item> Transitions: applying a plan keeps the invariant of the state, is the plan's writes in order and
    accounts every counter of every file; validation is exact; the one-pass path of puts confirms
    exactly the plans whose keys are where the snapshot saw them, and it and the follower's ingestion
    give the state of the plain path (\<open>StateInv\<close>, \<open>Conflicts\<close>, \<open>PutsChecked\<close>, \<open>Ingest\<close>).
  \<^item> Publication: no published state regresses or owes a sync, and of the states that satisfy the
    invariant only those that would are refused (\<open>Db\<close>).
  \<^item> Recovery: \<open>RecoveryMerge\<close>, \<open>RecoveryRanges\<close>, \<open>RecoveryFences\<close>, \<open>RecoveryTrees\<close>, \<open>RecoveryReplay\<close>,
    \<open>RecoveryCorrect\<close> and \<open>RecoveryOpen\<close> lead from the merge of sorted streams to loading the hint
    files being the replay of their entries, on both load paths.
  \<^item> Protocols: for any interleaving of up to 128 (flush) and 127 (hand-over) writers nothing is
    forgotten or stuck and every run ends; a clean report of the search is a proof of this kind.

  \<^bold>\<open>Bounds and fuel.\<close> Loops that consume a list are total functions. \<^verbatim>\<open>execute_slots\<close> and
  \<^verbatim>\<open>recovery_open\<close> run at most as many rounds as there are slots and files; \<^verbatim>\<open>commit_wait\<close> takes
  its number of rounds as an argument.

  \<^bold>\<open>Not modelled.\<close> The B+ trees behind the key directory, their version chain and node pool: the
  engine sees only the ordered-map interface, and the record reads by which the tree without keys
  confirms a key are taken to succeed. The buffer pool and the mmap back-end, which return
  the bytes of the file. The thread-local read cache. Zstandard frames and the trailer of hint
  files: a hint file is the list of entries its scanner yields, and damage in it is a fault of the
  read. Counters, timings and condition variables, which change no result. The class behind the
  hand-over between writer threads, whose protocol \<open>HandOver\<close> models: a batch of slots is an argument. Directory creation and the advisory lock are
  calls that can only fail. The change iterator and its index. The handler, transactions and row and
  key codecs of the MariaDB plugin, which work through the server's own interfaces. The SQL layer, the
  language bindings and the benchmarks, which reach the engine only through its public calls.
\<close>

end
